(* ===== verification/Prelude.thy ===== *)
theory Prelude
  imports Main "HOL-Library.Word" "HOL-Library.Char_ord" "HOL-Library.List_Lexorder"
begin

text \<open>
  Shared vocabulary of the development: the machine integers of the C and C++ sources as words,
  byte strings, the results of code that may throw or may not return, sorted association lists
  (the model of a \<^verbatim>\<open>std::map\<close> with string keys) and the generic lemmas on lists and words that
  several components use.
\<close>

unbundle bit_operations_syntax

section \<open>Types\<close>

text \<open>Fixed-width integers of the sources; \<open>+\<close>, \<open>-\<close> and \<open>*\<close> wrap around.\<close>

type_synonym u8 = "8 word"
type_synonym u16 = "16 word"
type_synonym u32 = "32 word"
type_synonym u64 = "64 word"

text \<open>
  A \<^verbatim>\<open>std::string\<close> or \<^verbatim>\<open>char\<close> array is a \<^typ>\<open>string\<close>: a list of 8-bit characters, so its
  length counts bytes. \<open>byte_of\<close> and \<open>char_of_byte\<close> go between a character and its
  \<^verbatim>\<open>uint8_t\<close> value.
\<close>

definition byte_of :: "char \<Rightarrow> u8" where
  "byte_of c = of_nat (of_char c)"

definition char_of_byte :: "u8 \<Rightarrow> char" where
  "char_of_byte b = char_of (unat b)"

text \<open>The part of a string that a \<^verbatim>\<open>const char *\<close> consumer sees: up to the first NUL.\<close>

definition c_str :: "string \<Rightarrow> string" where
  "c_str s = takeWhile (\<lambda>c. c \<noteq> CHR 0x00) s"

section \<open>Collections of proof rules\<close>

named_theorems codec_simps \<open>equations that take byte encodings apart\<close>
named_theorems handler_simps \<open>unfolding rules of the request handlers\<close>
named_theorems step_simps \<open>unfolding rules of the state machines\<close>

section \<open>Characters and bytes\<close>

lemma unat_byte_of: "unat (byte_of c) = of_char c"
  by (simp add: byte_of_def unat_of_nat)

lemma char_of_byte_of [simp]: "char_of_byte (byte_of c) = c"
  by (simp add: char_of_byte_def unat_byte_of)

lemma byte_of_char_of_byte [simp]: "byte_of (char_of_byte b) = b"
proof -
  have "unat b < 256" using unsigned_less [of b] by simp
  then show ?thesis by (simp add: byte_of_def char_of_byte_def)
qed

lemma byte_of_inj [simp]: "byte_of c = byte_of d \<longleftrightarrow> c = d"
  by (metis char_of_byte_of)

lemma map_char_of_byte_of [simp]: "map char_of_byte (map byte_of s) = s"
  by (simp add: comp_def)

lemma c_str_no_nul: "CHR 0x00 \<notin> set s \<Longrightarrow> c_str s = s"
  by (auto simp: c_str_def takeWhile_eq_all_conv)

lemma c_str_prefix: "\<exists>r. s = c_str s @ r"
  unfolding c_str_def by (metis takeWhile_dropWhile_id)

section \<open>Association lists in key order\<close>

text \<open>
  A \<^verbatim>\<open>std::map\<close> iterates its entries in key order. Its model is an association list whose keys
  are strictly increasing; \<open>alist_put\<close> is \<^verbatim>\<open>m[k] = v\<close>.
\<close>

fun alist_put :: "'k::linorder \<Rightarrow> 'v \<Rightarrow> ('k \<times> 'v) list \<Rightarrow> ('k \<times> 'v) list" where
  "alist_put k v [] = [(k, v)]"
| "alist_put k v ((a, b) # ps) =
     (if k < a then (k, v) # (a, b) # ps
      else if k = a then (k, v) # ps
      else (a, b) # alist_put k v ps)"

definition key_sorted :: "('k::linorder \<times> 'v) list \<Rightarrow> bool" where
  "key_sorted ps = sorted_wrt (<) (map fst ps)"

lemma key_sorted_Nil [simp]: "key_sorted []"
  by (simp add: key_sorted_def)

lemma key_sorted_Cons [simp]:
  "key_sorted ((a, b) # ps) \<longleftrightarrow> (\<forall>k \<in> fst ` set ps. a < k) \<and> key_sorted ps"
  by (auto simp: key_sorted_def)

lemma map_of_alist_put [simp]: "map_of (alist_put k v ps) = (map_of ps)(k \<mapsto> v)"
  by (induction ps rule: alist_put.induct) (auto simp: fun_eq_iff)

lemma keys_alist_put [simp]: "fst ` set (alist_put k v ps) = insert k (fst ` set ps)"
  by (induction ps rule: alist_put.induct) auto

lemma key_sorted_alist_put [simp]: "key_sorted ps \<Longrightarrow> key_sorted (alist_put k v ps)"
  by (induction k v ps rule: alist_put.induct) (auto simp del: ball_simps dest: less_trans)

section \<open>Words\<close>

lemma unat_lt_pow: "unat (w :: 'a::len word) < 2 ^ LENGTH('a)"
  by (rule unsigned_less)

lemma u8_lt: "unat (w :: u8) < 256"
  using unsigned_less [of w] by simp

lemma uint_u8: "0 \<le> uint (w :: u8)" "uint (w :: u8) < 256"
  using uint_bounded [of w] by simp_all

lemma u32_lt: "unat (w :: u32) < 4294967296"
  using unsigned_less [of w] by simp

lemma unat_of_nat_small: "n < 2 ^ LENGTH('a) \<Longrightarrow> unat (of_nat n :: 'a::len word) = n"
  by (simp add: unat_of_nat)

lemma unat_ucast_up:
  "LENGTH('a) \<le> LENGTH('b) \<Longrightarrow> unat (ucast (w :: 'a::len word) :: 'b::len word) = unat w"
  by (simp add: unsigned_ucast_eq take_bit_nat_eq_self order_less_le_trans [OF unsigned_less])

lemma unat_drop_bit_div: "unat (drop_bit n w) = unat w div 2 ^ n"
  by (metis drop_bit_eq_div unat_drop_bit_eq)

lemma unat_drop_bit_less: "0 < k \<Longrightarrow> drop_bit k v \<noteq> 0 \<Longrightarrow> unat (drop_bit k v) < unat v"
proof -
  assume k: "0 < k" and nz: "drop_bit k v \<noteq> 0"
  from nz have "0 < unat v" by (metis drop_bit_of_0 unat_gt_0)
  moreover from k have "1 < (2 :: nat) ^ k" by (rule one_less_power [rotated]) simp
  ultimately show ?thesis by (simp add: unat_drop_bit_div)
qed

text \<open>The bits of the masks the sources use, for rewriting after the words became integers.\<close>

lemma bit_int_masks [simp, bit_simps]:
  "bit (0x0F :: int) n \<longleftrightarrow> n < 4"
  "bit (0x1F :: int) n \<longleftrightarrow> n < 5"
  "bit (0x3F :: int) n \<longleftrightarrow> n < 6"
  "bit (0x7F :: int) n \<longleftrightarrow> n < 7"
  "bit (0xFF :: int) n \<longleftrightarrow> n < 8"
  "bit (0xFFFF :: int) n \<longleftrightarrow> n < 16"
proof -
  have m: "(0x0F :: int) = mask 4" "(0x1F :: int) = mask 5" "(0x3F :: int) = mask 6"
    "(0x7F :: int) = mask 7" "(0xFF :: int) = mask 8" "(0xFFFF :: int) = mask 16"
    by (simp_all add: mask_eq_exp_minus_1)
  show "bit (0x0F :: int) n \<longleftrightarrow> n < 4" "bit (0x1F :: int) n \<longleftrightarrow> n < 5"
    "bit (0x3F :: int) n \<longleftrightarrow> n < 6" "bit (0x7F :: int) n \<longleftrightarrow> n < 7"
    "bit (0xFF :: int) n \<longleftrightarrow> n < 8" "bit (0xFFFF :: int) n \<longleftrightarrow> n < 16"
    unfolding m by (simp_all add: bit_mask_iff)
qed

text \<open>The masks of the varint decoder: bits 0-6 and 14-20, and these with 28-31.\<close>

lemma bit_int_slots [simp, bit_simps]:
  "bit (0x001fc07f :: int) n \<longleftrightarrow> n < 7 \<or> 14 \<le> n \<and> n < 21"
  "bit (0xf01fc07f :: int) n \<longleftrightarrow> n < 7 \<or> 14 \<le> n \<and> n < 21 \<or> 28 \<le> n \<and> n < 32"
proof -
  have m: "(0x001fc07f :: int) = mask 7 OR push_bit 14 (mask 7)"
    "(0xf01fc07f :: int) = mask 7 OR push_bit 14 (mask 7) OR push_bit 28 (mask 4)"
    by (simp_all add: mask_eq_exp_minus_1)
  show "bit (0x001fc07f :: int) n \<longleftrightarrow> n < 7 \<or> 14 \<le> n \<and> n < 21"
    "bit (0xf01fc07f :: int) n \<longleftrightarrow> n < 7 \<or> 14 \<le> n \<and> n < 21 \<or> 28 \<le> n \<and> n < 32"
    unfolding m by (auto simp: bit_simps)
qed

lemma bit_int_0x80 [simp, bit_simps]: "bit (0x80 :: int) n \<longleftrightarrow> n = 7"
  using bit_exp_iff [of 7 n, where 'a = int] by (simp add: eq_commute)

lemma bit_u8: "bit (b :: u8) n \<Longrightarrow> n < 8"
  using bit_imp_le_length [of b n] by simp

lemma bit_int_0xF0 [simp, bit_simps]: "bit (0xF0 :: int) n \<longleftrightarrow> 4 \<le> n \<and> n < 8"
proof -
  have m: "(0xF0 :: int) = push_bit 4 (mask 4)" by (simp add: mask_eq_exp_minus_1)
  show ?thesis unfolding m by (auto simp: bit_push_bit_iff bit_mask_iff)
qed

section \<open>Programs with state, exceptions and divergence\<close>

text \<open>
  A piece of C++ over a state \<open>'s\<close> is a function to \<^typ>\<open>(('e + 'a) \<times> 's) option\<close>: \<open>None\<close>
  when it does not return, \<open>Inl e\<close> when it throws \<open>e\<close>, \<open>Inr x\<close> when it returns \<open>x\<close>, each time
  with the state it leaves behind. \<open>ensure\<close> runs a destructor on both ways out of a scope.
\<close>

type_synonym ('e, 's, 'a) prog = "'s \<Rightarrow> (('e + 'a) \<times> 's) option"

definition ret :: "'a \<Rightarrow> ('e, 's, 'a) prog" where
  "ret x s = Some (Inr x, s)"

definition throw :: "'e \<Rightarrow> ('e, 's, 'a) prog" where
  "throw e s = Some (Inl e, s)"

definition sbind :: "('e, 's, 'a) prog \<Rightarrow> ('a \<Rightarrow> ('e, 's, 'b) prog) \<Rightarrow> ('e, 's, 'b) prog" where
  "sbind m f s =
     (case m s of
        None \<Rightarrow> None
      | Some (Inl e, t) \<Rightarrow> Some (Inl e, t)
      | Some (Inr x, t) \<Rightarrow> f x t)"

definition ensure :: "('e, 's, 'a) prog \<Rightarrow> ('s \<Rightarrow> 's) \<Rightarrow> ('e, 's, 'a) prog" where
  "ensure m cleanup s = (case m s of None \<Rightarrow> None | Some (r, t) \<Rightarrow> Some (r, cleanup t))"

definition lift_result :: "'e + 'a \<Rightarrow> ('e, 's, 'a) prog" where
  "lift_result r s = Some (r, s)"

lemma sbind_ret [simp]: "sbind (ret x) f = f x"
  by (simp add: sbind_def ret_def fun_eq_iff)

lemma sbind_throw [simp]: "sbind (throw e) f = throw e"
  by (simp add: sbind_def throw_def fun_eq_iff)

lemma sbind_eq: 
  "m s = Some (Inr x, t) \<Longrightarrow> sbind m f s = f x t"
  "m s = Some (Inl e, t) \<Longrightarrow> sbind m f s = Some (Inl e, t)"
  "m s = None \<Longrightarrow> sbind m f s = None"
  by (simp_all add: sbind_def)

lemma sbind_lift_result [simp]:
  "sbind (lift_result (Inr x)) f = f x"
  "sbind (lift_result (Inl e)) f = throw e"
  by (simp_all add: sbind_def lift_result_def throw_def fun_eq_iff)

lemma sbind_assoc: "sbind (sbind m f) g = sbind m (\<lambda>x. sbind (f x) g)"
  by (auto simp: sbind_def fun_eq_iff split: option.splits sum.splits)

lemma sbind_InrE:
  assumes "sbind m f s = Some (Inr y, u)"
  obtains x t where "m s = Some (Inr x, t)" "f x t = Some (Inr y, u)"
  using assms by (auto simp: sbind_def split: option.splits sum.splits)

lemma sbind_InlE:
  assumes "sbind m f s = Some (Inl e, u)"
  obtains "m s = Some (Inl e, u)"
  | x t where "m s = Some (Inr x, t)" "f x t = Some (Inl e, u)"
  using assms by (auto simp: sbind_def split: option.splits sum.splits)

lemma ensure_eq: "m s = Some (r, t) \<Longrightarrow> ensure m c s = Some (r, c t)"
  by (simp add: ensure_def)

lemma ensure_SomeE:
  assumes "ensure m c s = Some (r, u)"
  obtains t where "m s = Some (r, t)" "u = c t"
  using assms by (auto simp: ensure_def split: option.splits)

end
