(* ===== verification/Json.thy ===== *)
theory Json
  imports Prelude
begin

text \<open>
  The JSON values the server exchanges, as far as the server's own code looks into them, and the
  exceptions its code throws or lets pass. Parsing and printing JSON is the work of the
  nlohmann/json library, which is not part of the repository; the components that need it take
  the parser and the printer as parameters.
\<close>

section \<open>Exceptions\<close>

text \<open>
  \<open>Json_type_error n\<close> is \<^verbatim>\<open>nlohmann::json::type_error\<close> with its documented id (302: a value of
  the wrong type is converted, 316: a string that is not UTF-8 is printed), \<open>Json_parse_error\<close>
  carries its message, \<open>Json_out_of_range n\<close> is \<^verbatim>\<open>nlohmann::json::out_of_range\<close> with its id (406: a
  number of the text is too large for a double), \<open>Filesystem_error\<close> is \<^verbatim>\<open>boost::filesystem::filesystem_error\<close>,
  \<open>System_error\<close> is \<^verbatim>\<open>boost::system::system_error\<close>.
\<close>

datatype exn =
    SQLException int string
  | ConfigException string
  | Json_type_error nat
  | Json_parse_error string
  | Json_out_of_range nat
  | Filesystem_error
  | System_error

section \<open>Values\<close>

text \<open>
  The value categories of \<^verbatim>\<open>nlohmann::json\<close>. A floating-point number is kept as the 64 bits of the
  double. An object is a \<^verbatim>\<open>std::map\<close> from keys to values: an association list in key order.
\<close>

datatype json =
    JNull
  | JBool bool
  | JInt int
  | JUInt nat
  | JFloat u64
  | JStr string
  | JArr "json list"
  | JObj "(string \<times> json) list"

fun json_wf :: "json \<Rightarrow> bool" where
  "json_wf (JArr xs) = (\<forall>x \<in> set xs. json_wf x)"
| "json_wf (JObj m) = (key_sorted m \<and> (\<forall>p \<in> set m. json_wf (snd p)))"
| "json_wf _ = True"

text \<open>\<^verbatim>\<open>j.find(key)\<close>, with \<open>None\<close> for \<^verbatim>\<open>j.end()\<close>: a value that is not an object has no keys.\<close>

fun json_find :: "json \<Rightarrow> string \<Rightarrow> json option" where
  "json_find (JObj m) k = map_of m k"
| "json_find _ k = None"

text \<open>The implicit conversion of a value to \<^verbatim>\<open>std::string\<close>.\<close>

fun json_string :: "json \<Rightarrow> exn + string" where
  "json_string (JStr s) = Inr s"
| "json_string _ = Inl (Json_type_error 302)"

text \<open>\<^verbatim>\<open>json{{k, v}, ...}\<close> with string keys: the object with these members.\<close>

definition json_obj :: "(string \<times> json) list \<Rightarrow> json" where
  "json_obj ps = JObj (fold (\<lambda>(k, v). alist_put k v) ps [])"

lemma json_find_obj [simp]: "json_find (json_obj ps) k = map_of (rev ps) k"
proof -
  have "map_of (fold (\<lambda>(k, v). alist_put k v) ps m) = map_of m ++ map_of (rev ps)" for m
    by (induction ps arbitrary: m) (auto simp: map_add_def fun_eq_iff split: option.splits)
  then show ?thesis by (simp add: json_obj_def)
qed

lemma key_sorted_fold_put: "key_sorted m \<Longrightarrow> key_sorted (fold (\<lambda>(k, v). alist_put k v) ps m)"
  by (induction ps arbitrary: m) auto

lemma vals_alist_put: "snd ` set (alist_put k v m) \<subseteq> insert v (snd ` set m)"
  by (induction k v m rule: alist_put.induct) auto

lemma vals_fold_put:
  "snd ` set (fold (\<lambda>(k, v). alist_put k v) ps m) \<subseteq> snd ` set ps \<union> snd ` set m"
proof (induction ps arbitrary: m)
  case (Cons p ps)
  show ?case using Cons [of "alist_put (fst p) (snd p) m"] vals_alist_put [of "fst p" "snd p" m]
    by (auto simp: case_prod_beta)
qed simp

lemma json_wf_obj: "(\<And>p. p \<in> set ps \<Longrightarrow> json_wf (snd p)) \<Longrightarrow> json_wf (json_obj ps)"
  using vals_fold_put [of ps "[]"] key_sorted_fold_put [of "[]" ps]
  by (fastforce simp: json_obj_def)

lemma json_string_Inr [simp]: "json_string j = Inr s \<longleftrightarrow> j = JStr s"
  by (cases j) auto

end
