(* ===== verification/Platform.thy ===== *)
theory Platform
  imports Json
begin

text \<open>
  The libraries the server calls and that are not part of the repository: nlohmann/json, Boost
  (regex, string algorithms, filesystem, asio) and the file system behind them. Every operation
  is a field of the record \<open>platform\<close>, so that the server's definitions take the libraries as an
  argument. \<open>'w\<close> is the state of the outside world (files and the SQLite engine).
  What a theorem needs to know of them is a named predicate, stated from their documentation.
\<close>

section \<open>The operations\<close>

text \<open>A network is an address with a prefix length, an endpoint an address with a port.\<close>

type_synonym v4_network = "u32 \<times> nat"
type_synonym v6_network = "128 word \<times> nat"

datatype ip_address = V4 u32 | V6 "128 word"

type_synonym tcp_endpoint = "ip_address \<times> u16"

text \<open>
  A \<^verbatim>\<open>boost::filesystem::path\<close> is its native string; \<open>path_elements\<close> is what iterating over it
  yields. \<open>json_parse\<close> gives the exception the parser throws. \<open>None\<close> stands for an error code (\<open>weakly_canonical\<close>, the parsers of addresses) or for an
  exception (\<open>dump\<close>, \<open>list_directory\<close>, \<open>fs_remove\<close>, \<open>json_to_uint\<close>, \<open>dns_resolve\<close>).
\<close>

record 'w platform =
  json_parse :: "string \<Rightarrow> exn + json"
  json_dump :: "json \<Rightarrow> string option"
  json_to_uint :: "nat \<Rightarrow> json \<Rightarrow> nat option"
  regex_replace :: "string \<Rightarrow> string \<Rightarrow> string \<Rightarrow> string"
  iequals :: "string \<Rightarrow> string \<Rightarrow> bool"
  ends_with :: "string \<Rightarrow> string \<Rightarrow> bool"
  str_trim :: "string \<Rightarrow> string"
  path_append :: "string \<Rightarrow> string \<Rightarrow> string"
  path_is_absolute :: "string \<Rightarrow> bool"
  path_elements :: "string \<Rightarrow> string list"
  path_has_parent_path :: "string \<Rightarrow> bool"
  lexically_relative :: "string \<Rightarrow> string \<Rightarrow> string"
  weakly_canonical :: "string \<Rightarrow> 'w \<Rightarrow> string option"
  system_complete :: "string \<Rightarrow> 'w \<Rightarrow> string"
  fs_exists :: "string \<Rightarrow> 'w \<Rightarrow> bool"
  is_directory :: "string \<Rightarrow> 'w \<Rightarrow> bool"
  list_directory :: "string \<Rightarrow> 'w \<Rightarrow> string list option"
  is_regular_file :: "string \<Rightarrow> 'w \<Rightarrow> bool"
  fs_remove :: "string \<Rightarrow> 'w \<Rightarrow> bool option \<times> 'w"
  read_file :: "string \<Rightarrow> 'w \<Rightarrow> string"
  make_network_v4 :: "string \<Rightarrow> v4_network option"
  make_address_v4 :: "string \<Rightarrow> u32 option"
  make_network_v6 :: "string \<Rightarrow> v6_network option"
  make_address_v6 :: "string \<Rightarrow> 128 word option"
  canonical_v4 :: "v4_network \<Rightarrow> v4_network"
  canonical_v6 :: "v6_network \<Rightarrow> v6_network"
  network_v4_to_string :: "v4_network \<Rightarrow> string"
  network_v6_to_string :: "v6_network \<Rightarrow> string"
  make_address :: "string \<Rightarrow> ip_address"
  dns_resolve :: "string \<Rightarrow> string \<Rightarrow> tcp_endpoint list option"
  hardware_concurrency :: nat

section \<open>What their documentation promises\<close>

text \<open>
  \<^verbatim>\<open>iequals\<close> compares ignoring case in the classic locale; \<^verbatim>\<open>ends_with\<close> is a suffix test; trimming
  nothing gives nothing.
\<close>

definition ascii_upper :: "char \<Rightarrow> char" where
  "ascii_upper c =
     (if CHR ''a'' \<le> c \<and> c \<le> CHR ''z'' then char_of (of_char c - 32 :: nat) else c)"

definition string_laws :: "'w platform \<Rightarrow> bool" where
  "string_laws P \<longleftrightarrow>
     (\<forall>s t. iequals P s t \<longleftrightarrow> map ascii_upper s = map ascii_upper t) \<and>
     (\<forall>s t. ends_with P s t \<longleftrightarrow> (\<exists>r. s = r @ t)) \<and>
     str_trim P [] = []"

text \<open>
  \<^verbatim>\<open>lexically_relative\<close> on the elements of the two paths: drop the common prefix, go up once for
  every remaining ordinary element of the base, then follow the rest of the path.
\<close>

fun strip_common :: "'a list \<Rightarrow> 'a list \<Rightarrow> 'a list \<times> 'a list" where
  "strip_common (x # xs) (y # ys) = (if x = y then strip_common xs ys else (x # xs, y # ys))"
| "strip_common xs ys = (xs, ys)"

definition climbs :: "string list \<Rightarrow> int" where
  "climbs es =
     int (length (filter (\<lambda>e. e \<noteq> [] \<and> e \<noteq> ''.'' \<and> e \<noteq> ''..'') es)) -
     int (length (filter (\<lambda>e. e = ''..'') es))"

definition relative_elements :: "string list \<Rightarrow> string list \<Rightarrow> string list" where
  "relative_elements p base =
     (let (a, b) = strip_common p base; n = climbs b
      in if a = p \<and> b = base then []
         else if a = [] \<and> b = [] then [''.'']
         else if n < 0 then []
         else if n = 0 \<and> (a = [] \<or> hd a = []) then [''.'']
         else replicate (nat n) ''..'' @ a)"

definition plain_elements :: "string list \<Rightarrow> bool" where
  "plain_elements es \<longleftrightarrow> (\<forall>e \<in> set es. e \<noteq> [] \<and> e \<noteq> ''.'' \<and> e \<noteq> ''..'')"

definition path_laws :: "'w platform \<Rightarrow> bool" where
  "path_laws P \<longleftrightarrow>
     (\<forall>p. path_elements P p = [] \<longleftrightarrow> p = []) \<and>
     (\<forall>p. path_elements P p = [''.''] \<longleftrightarrow> p = ''.'') \<and>
     (\<forall>p b. path_elements P (lexically_relative P p b) =
            relative_elements (path_elements P p) (path_elements P b)) \<and>
     (\<forall>p. \<not> path_is_absolute P p \<longrightarrow>
            path_has_parent_path P p = (1 < length (path_elements P p))) \<and>
     (\<forall>p b. path_is_absolute P b \<longrightarrow> \<not> path_is_absolute P (lexically_relative P p b))"

text \<open>\<^verbatim>\<open>network::canonical\<close> clears the host bits and keeps the prefix length.\<close>

definition clear_host_bits :: "'a::len word \<Rightarrow> nat \<Rightarrow> 'a word" where
  "clear_host_bits a p = push_bit (LENGTH('a) - p) (drop_bit (LENGTH('a) - p) a)"

definition network_laws :: "'w platform \<Rightarrow> bool" where
  "network_laws P \<longleftrightarrow>
     (\<forall>a p. canonical_v4 P (a, p) = (clear_host_bits a p, p)) \<and>
     (\<forall>a p. canonical_v6 P (a, p) = (clear_host_bits a p, p))"

text \<open>
  Converting a JSON number to an unsigned type of \<open>w\<close> bits keeps a value that fits and cuts a
  larger unsigned value to the width of the type, as the C++ conversion does; text, arrays,
  objects and null are refused.
\<close>

definition conversion_laws :: "'w platform \<Rightarrow> bool" where
  "conversion_laws P \<longleftrightarrow>
     (\<forall>w n. json_to_uint P w (JUInt n) = Some (n mod 2 ^ w)) \<and>
     (\<forall>w s. json_to_uint P w (JStr s) = None) \<and>
     (\<forall>w j v. json_to_uint P w j = Some v \<longrightarrow> v < 2 ^ w)"

section \<open>Consequences\<close>

lemma path_lawsD:
  assumes "path_laws P"
  shows "path_elements P p = [] \<longleftrightarrow> p = []"
    and "path_elements P p = [''.''] \<longleftrightarrow> p = ''.''"
    and "path_elements P (lexically_relative P p b) =
         relative_elements (path_elements P p) (path_elements P b)"
    and "\<not> path_is_absolute P p \<Longrightarrow> path_has_parent_path P p = (1 < length (path_elements P p))"
    and "path_is_absolute P b \<Longrightarrow> \<not> path_is_absolute P (lexically_relative P p b)"
  using assms unfolding path_laws_def by blast+

lemma strip_common_append [simp]: "strip_common (b @ xs) (b @ ys) = strip_common xs ys"
  by (induction b) auto

lemma strip_common_split:
  "strip_common p b = (x, y) \<Longrightarrow> \<exists>c. p = c @ x \<and> b = c @ y"
proof (induction p b rule: strip_common.induct)
  case (1 x xs y ys)
  show ?case
  proof (cases "x = y")
    case True
    with 1 obtain c where "xs = c @ fst (strip_common xs ys)" "ys = c @ snd (strip_common xs ys)"
      by fastforce
    with True 1 show ?thesis by (auto intro!: exI [of _ "y # c"])
  qed (use 1 in auto)
qed auto

lemma climbs_plain: "plain_elements es \<Longrightarrow> climbs es = int (length es)"
  by (induction es) (auto simp: climbs_def plain_elements_def)

text \<open>
  When the base is in normal form, a single relative element that is neither \<^verbatim>\<open>.\<close> nor \<^verbatim>\<open>..\<close>
  means that the path is the base and one element more.
\<close>

lemma relative_elements_single:
  assumes "relative_elements p base = [c]" and "c \<noteq> ''.''" and "c \<noteq> ''..''"
    and "plain_elements (tl base)" and "base \<noteq> []"
  shows "p = base @ [c]"
proof -
  obtain a b where ab: "strip_common p base = (a, b)" by fastforce
  then obtain d where d: "p = d @ a" "base = d @ b" using strip_common_split by blast
  have rel: "\<not> (a = p \<and> b = base)" "0 \<le> climbs b" "replicate (nat (climbs b)) ''..'' @ a = [c]"
    using assms(1-3) ab by (auto simp: relative_elements_def Let_def split: if_splits)
  have "d \<noteq> []" using rel(1) d by auto
  then have "plain_elements b"
    using assms(4) d by (cases d) (auto simp: plain_elements_def)
  then have n: "nat (climbs b) = length b" by (simp add: climbs_plain)
  have "b = []"
    using rel(3) n assms(3) by (cases b) auto
  then show ?thesis using rel(3) d n by simp
qed

lemma clear_host_bits_eq_iff:
  "clear_host_bits a p = clear_host_bits b p \<longleftrightarrow>
   drop_bit (LENGTH('a) - p) a = drop_bit (LENGTH('a) - p) (b :: 'a::len word)"
proof
  assume "clear_host_bits a p = clear_host_bits b p"
  then have "drop_bit (LENGTH('a) - p) (clear_host_bits a p) =
      drop_bit (LENGTH('a) - p) (clear_host_bits b p)" by simp
  moreover have "drop_bit (LENGTH('a) - p) (clear_host_bits c p) = drop_bit (LENGTH('a) - p) c"
    for c :: "'a word"
    by (rule bit_word_eqI) (auto simp: clear_host_bits_def bit_simps dest: bit_imp_le_length)
  ultimately show "drop_bit (LENGTH('a) - p) a = drop_bit (LENGTH('a) - p) b" by simp
qed (simp add: clear_host_bits_def)

lemma clear_host_bits_idem [simp]: "clear_host_bits (clear_host_bits a p) p = clear_host_bits a p"
  by (rule bit_word_eqI) (auto simp: clear_host_bits_def bit_simps dest: bit_imp_le_length)

lemma clear_host_bits_full [simp]:
  "LENGTH('a) \<le> p \<Longrightarrow> clear_host_bits (a :: 'a::len word) p = a"
  by (simp add: clear_host_bits_def)

end
