(* ===== verification/Server_Config.thy ===== *)
theory Server_Config
  imports Platform
begin

text \<open>
  \<^verbatim>\<open>Config.h\<close> and \<^verbatim>\<open>Config.cpp\<close>: the runtime configuration, its two sources (the JSON file and the
  command line) and the IP whitelist. The singleton is a record that the operations pass on; an
  exception leaves no configuration, because \<^verbatim>\<open>main\<close> ends the process then.
\<close>

section \<open>State\<close>

text \<open>The members of \<^verbatim>\<open>Config\<close>, with the in-class initialisers in \<open>config_default\<close>.\<close>

record config =
  client_max_packet_size :: u32
  busy_timeout_ms :: u32
  workers :: u16
  listen_endpoint :: tcp_endpoint
  databases_folder :: string
  auth :: string
  ip_whitelist_v4 :: "v4_network list"
  ip_whitelist_v6 :: "v6_network list"

definition config_default :: config where
  "config_default =
     \<lparr>client_max_packet_size = 0, busy_timeout_ms = 5000, workers = 0,
      listen_endpoint = (V4 0, 0), databases_folder = [], auth = [],
      ip_whitelist_v4 = [], ip_whitelist_v6 = []\<rparr>"

text \<open>The option values \<^verbatim>\<open>Config::init\<close> reads out of the \<^verbatim>\<open>variables_map\<close>.\<close>

record options =
  opt_config :: "string option"
  opt_ip :: string
  opt_port :: u16
  opt_auth :: string
  opt_ip_whitelist :: string
  opt_databases_folder :: string
  opt_workers :: u16
  opt_client_max_packet_size :: u32
  opt_busy_timeout :: u32

section \<open>Helpers of the translation unit\<close>

text \<open>
  The \<^verbatim>\<open>getline\<close> loop of \<^verbatim>\<open>split_csv\<close>: \<open>s\<close> is what is left in the stream; \<^verbatim>\<open>getline\<close> fails when
  nothing is left.
\<close>

function split_csv_loop :: "(string \<Rightarrow> string) \<Rightarrow> string \<Rightarrow> string list \<Rightarrow> string list" where
  "split_csv_loop trim s out =
     (if s = [] then out
      else let item = trim (takeWhile (\<lambda>c. c \<noteq> CHR '','') s);
               rest = tl (dropWhile (\<lambda>c. c \<noteq> CHR '','') s)
           in split_csv_loop trim rest (if item = [] then out else out @ [item]))"
  by pat_completeness auto
termination
proof (relation "measure (\<lambda>(trim, s, out). length s)", goal_cases)
  case (2 trim s out item rest)
  have "length (dropWhile (\<lambda>c. c \<noteq> CHR '','') s) \<le> length s" by (rule length_dropWhile_le)
  with 2 show ?case by (cases s) auto
qed simp

declare split_csv_loop.simps [simp del]

definition split_csv :: "'w platform \<Rightarrow> string \<Rightarrow> string list" where
  "split_csv P s = split_csv_loop (str_trim P) s []"

fun is_v4 :: "ip_address \<Rightarrow> bool" where
  "is_v4 (V4 _) = True"
| "is_v4 (V6 _) = False"

text \<open>\<^verbatim>\<open>std::to_string\<close> on an unsigned number.\<close>

fun to_string :: "nat \<Rightarrow> string" where
  "to_string n =
     (if n < 10 then [char_of (48 + n)] else to_string (n div 10) @ [char_of (48 + n mod 10)])"

declare to_string.simps [simp del]

definition resolve_endpoint :: "'w platform \<Rightarrow> string \<Rightarrow> u16 \<Rightarrow> exn + tcp_endpoint" where
  "resolve_endpoint P listen_ip listen_port =
     (case dns_resolve P listen_ip (to_string (unat listen_port)) of
        None \<Rightarrow> Inl System_error
      | Some eps \<Rightarrow>
          Inr (case find (\<lambda>e. is_v4 (fst e)) eps of
                 Some e \<Rightarrow> e
               | None \<Rightarrow> (make_address P ''127.0.0.1'', 3333)))"

definition resolve_database_path :: "'w platform \<Rightarrow> string \<Rightarrow> 'w \<Rightarrow> exn + string" where
  "resolve_database_path P path w =
     (let folder = system_complete P path w
      in if \<not> fs_exists P folder w
         then Inl (ConfigException (''Databases folder does not exist in: '' @ folder))
         else Inr folder)"

definition get_config_value :: "json \<Rightarrow> string \<Rightarrow> exn + json" where
  "get_config_value j key =
     (case json_find j key of
        None \<Rightarrow> Inl (ConfigException (''Missing key: '' @ key @ '' in config''))
      | Some v \<Rightarrow> Inr v)"

text \<open>Reading a required number of \<open>'a\<close>'s width out of the configuration file.\<close>

definition config_uint :: "'w platform \<Rightarrow> json \<Rightarrow> string \<Rightarrow> exn + 'a::len word" where
  "config_uint P j key =
     (case get_config_value j key of
        Inl e \<Rightarrow> Inl e
      | Inr v \<Rightarrow> (case json_to_uint P LENGTH('a) v of
                   None \<Rightarrow> Inl (Json_type_error 302) | Some n \<Rightarrow> Inr (of_nat n)))"

definition config_string :: "json \<Rightarrow> string \<Rightarrow> exn + string" where
  "config_string j key =
     (case get_config_value j key of Inl e \<Rightarrow> Inl e | Inr v \<Rightarrow> json_string v)"

text \<open>\<^verbatim>\<open>j.value("auth", std::string{})\<close>: the default when the key is absent.\<close>

definition config_string_or :: "json \<Rightarrow> string \<Rightarrow> string \<Rightarrow> exn + string" where
  "config_string_or j key dflt =
     (case json_find j key of None \<Rightarrow> Inr dflt | Some v \<Rightarrow> json_string v)"

section \<open>The whitelist\<close>

definition invalid_entry :: "string \<Rightarrow> exn" where
  "invalid_entry entry = ConfigException (''Invalid ip_whitelist entry: '' @ entry)"

definition add_whitelist_entry :: "'w platform \<Rightarrow> string \<Rightarrow> config \<Rightarrow> exn + config" where
  "add_whitelist_entry P entry c =
     (let is_v6 = CHR '':'' \<in> set entry; has_prefix = CHR ''/'' \<in> set entry
      in if is_v6 then
           (if has_prefix then
              (case make_network_v6 P entry of
                 None \<Rightarrow> Inl (invalid_entry entry)
               | Some net \<Rightarrow>
                   Inr (c\<lparr>ip_whitelist_v6 := ip_whitelist_v6 c @ [canonical_v6 P net]\<rparr>))
            else
              (case make_address_v6 P entry of
                 None \<Rightarrow> Inl (invalid_entry entry)
               | Some addr \<Rightarrow> Inr (c\<lparr>ip_whitelist_v6 := ip_whitelist_v6 c @ [(addr, 128)]\<rparr>)))
         else
           (if has_prefix then
              (case make_network_v4 P entry of
                 None \<Rightarrow> Inl (invalid_entry entry)
               | Some net \<Rightarrow>
                   Inr (c\<lparr>ip_whitelist_v4 := ip_whitelist_v4 c @ [canonical_v4 P net]\<rparr>))
            else
              (case make_address_v4 P entry of
                 None \<Rightarrow> Inl (invalid_entry entry)
               | Some addr \<Rightarrow> Inr (c\<lparr>ip_whitelist_v4 := ip_whitelist_v4 c @ [(addr, 32)]\<rparr>))))"

fun add_whitelist_entries :: "'w platform \<Rightarrow> string list \<Rightarrow> config \<Rightarrow> exn + config" where
  "add_whitelist_entries P [] c = Inr c"
| "add_whitelist_entries P (e # es) c =
     (case add_whitelist_entry P e c of Inl x \<Rightarrow> Inl x | Inr c' \<Rightarrow> add_whitelist_entries P es c')"

text \<open>The loop over the JSON array checks each item before it adds it.\<close>

fun add_whitelist_items :: "'w platform \<Rightarrow> json list \<Rightarrow> config \<Rightarrow> exn + config" where
  "add_whitelist_items P [] c = Inr c"
| "add_whitelist_items P (item # items) c =
     (case item of
        JStr s \<Rightarrow> (case add_whitelist_entry P s c of
                     Inl x \<Rightarrow> Inl x | Inr c' \<Rightarrow> add_whitelist_items P items c')
      | _ \<Rightarrow> Inl (ConfigException ''Config key ip_whitelist must contain only strings''))"

fun is_ip_allowed :: "'w platform \<Rightarrow> config \<Rightarrow> ip_address \<Rightarrow> bool" where
  "is_ip_allowed P c address =
     (if ip_whitelist_v4 c = [] \<and> ip_whitelist_v6 c = [] then True
      else case address of
        V4 addr \<Rightarrow> list_ex (\<lambda>net. canonical_v4 P (addr, snd net) = net) (ip_whitelist_v4 c)
      | V6 addr \<Rightarrow> list_ex (\<lambda>net. canonical_v6 P (addr, snd net) = net) (ip_whitelist_v6 c))"

declare is_ip_allowed.simps [simp del]

text \<open>The two loops of \<^verbatim>\<open>ip_whitelist_repr\<close> share one accumulator.\<close>

definition repr_add :: "string \<Rightarrow> string \<Rightarrow> string" where
  "repr_add s out = (if out \<noteq> [] then out @ '', '' else out) @ s"

definition ip_whitelist_repr :: "'w platform \<Rightarrow> config \<Rightarrow> string" where
  "ip_whitelist_repr P c =
     (if ip_whitelist_v4 c = [] \<and> ip_whitelist_v6 c = [] then ''(any)''
      else fold repr_add (map (network_v6_to_string P) (ip_whitelist_v6 c))
             (fold repr_add (map (network_v4_to_string P) (ip_whitelist_v4 c)) []))"

section \<open>Loading the configuration\<close>

text \<open>The optional keys of the file, after the required ones.\<close>

definition init_busy_timeout :: "'w platform \<Rightarrow> json \<Rightarrow> config \<Rightarrow> exn + config" where
  "init_busy_timeout P j c =
     (case json_find j ''busy_timeout_ms'' of
        None \<Rightarrow> Inr c
      | Some (JUInt n) \<Rightarrow>
          (case json_to_uint P 32 (JUInt n) of
             None \<Rightarrow> Inl (Json_type_error 302)
           | Some v \<Rightarrow> Inr (c\<lparr>busy_timeout_ms := of_nat v\<rparr>))
      | Some _ \<Rightarrow> Inl (ConfigException ''Config key busy_timeout_ms must be a non-negative number''))"

definition init_whitelist :: "'w platform \<Rightarrow> json \<Rightarrow> config \<Rightarrow> exn + config" where
  "init_whitelist P j c =
     (case json_find j ''ip_whitelist'' of
        None \<Rightarrow> Inr c
      | Some (JArr items) \<Rightarrow> add_whitelist_items P items c
      | Some _ \<Rightarrow> Inl (ConfigException ''Config key ip_whitelist must be an array of CIDR strings''))"

definition init_from_json :: "'w platform \<Rightarrow> json \<Rightarrow> 'w \<Rightarrow> config \<Rightarrow> exn + config" where
  "init_from_json P j w c =
     (case config_uint P j ''client_max_packet_size'' of Inl e \<Rightarrow> Inl e | Inr packet \<Rightarrow>
      (case config_uint P j ''workers'' of Inl e \<Rightarrow> Inl e | Inr nworkers \<Rightarrow>
      (case config_string j ''listen_ip'' of Inl e \<Rightarrow> Inl e | Inr ip \<Rightarrow>
      (case config_uint P j ''listen_port'' of Inl e \<Rightarrow> Inl e | Inr port \<Rightarrow>
      (case resolve_endpoint P ip port of Inl e \<Rightarrow> Inl e | Inr endpoint \<Rightarrow>
      (case config_string j ''databases_folder'' of Inl e \<Rightarrow> Inl e | Inr path \<Rightarrow>
      (case resolve_database_path P path w of Inl e \<Rightarrow> Inl e | Inr folder \<Rightarrow>
      (case config_string_or j ''auth'' [] of Inl e \<Rightarrow> Inl e | Inr password \<Rightarrow>
      (case init_busy_timeout P j
              (c\<lparr>client_max_packet_size := packet, workers := nworkers, listen_endpoint := endpoint,
                 databases_folder := folder, auth := password\<rparr>) of
         Inl e \<Rightarrow> Inl e
       | Inr c' \<Rightarrow> init_whitelist P j c')))))))))"

definition init_from_options :: "'w platform \<Rightarrow> options \<Rightarrow> 'w \<Rightarrow> config \<Rightarrow> exn + config" where
  "init_from_options P vm w c =
     (case resolve_endpoint P (opt_ip vm) (opt_port vm) of Inl e \<Rightarrow> Inl e | Inr endpoint \<Rightarrow>
      (case resolve_database_path P (opt_databases_folder vm) w of Inl e \<Rightarrow> Inl e | Inr folder \<Rightarrow>
       add_whitelist_entries P (split_csv P (opt_ip_whitelist vm))
         (c\<lparr>client_max_packet_size := opt_client_max_packet_size vm, workers := opt_workers vm,
            listen_endpoint := endpoint, databases_folder := folder, auth := opt_auth vm,
            busy_timeout_ms := opt_busy_timeout vm\<rparr>)))"

definition config_init :: "'w platform \<Rightarrow> options \<Rightarrow> 'w \<Rightarrow> config \<Rightarrow> exn + config" where
  "config_init P vm w c =
     (case opt_config vm of
        Some config_path \<Rightarrow>
          (if \<not> fs_exists P config_path w
           then Inl (ConfigException (''Config file does not exist in: '' @ config_path))
           else case json_parse P (read_file P config_path w) of
                  Inl (Json_parse_error what) \<Rightarrow> Inl (ConfigException (''Config parse error: '' @ what))
                | Inl e \<Rightarrow> Inl e
                | Inr j \<Rightarrow> init_from_json P j w c)
      | None \<Rightarrow> init_from_options P vm w c)"

section \<open>Splitting the command-line list\<close>

text \<open>The reference: the pieces between the separators, always at least one.\<close>

fun split_on :: "'a \<Rightarrow> 'a list \<Rightarrow> 'a list list" where
  "split_on d [] = [[]]"
| "split_on d (x # xs) =
     (if x = d then [] # split_on d xs
      else case split_on d xs of [] \<Rightarrow> [[x]] | p # ps \<Rightarrow> (x # p) # ps)"

lemma split_on_nonempty [simp]: "split_on d xs \<noteq> []"
  by (induction xs) (auto split: list.splits)

lemma split_on_unfold:
  "split_on d xs =
     takeWhile (\<lambda>c. c \<noteq> d) xs #
     (case dropWhile (\<lambda>c. c \<noteq> d) xs of [] \<Rightarrow> [] | _ # r \<Rightarrow> split_on d r)"
  by (induction xs) (auto split: list.splits)

lemma split_csv_loop_eq:
  assumes "trim [] = []"
  shows "split_csv_loop trim s out = out @ filter (\<lambda>x. x \<noteq> []) (map trim (split_on CHR '','' s))"
proof (induction "length s" arbitrary: s out rule: less_induct)
  case less
  show ?case
  proof (cases "s = []")
    case True
    then show ?thesis using assms by (simp add: split_csv_loop.simps)
  next
    case False
    let ?item = "trim (takeWhile (\<lambda>c. c \<noteq> CHR '','') s)"
    let ?out = "if ?item = [] then out else out @ [?item]"
    have unf: "split_csv_loop trim s out =
        split_csv_loop trim (tl (dropWhile (\<lambda>c. c \<noteq> CHR '','') s)) ?out"
      using False by (subst split_csv_loop.simps) (simp add: Let_def)
    show ?thesis
    proof (cases "dropWhile (\<lambda>c. c \<noteq> CHR '','') s")
      case Nil
      then show ?thesis
        using unf
        by (simp add: split_on_unfold [of _ s] split_csv_loop.simps [of _ "[]"]
            del: dropWhile_eq_Nil_conv)
    next
      case (Cons d r)
      have "length (d # r) \<le> length s"
        using length_dropWhile_le [of "\<lambda>c. c \<noteq> CHR '',''" s] Cons by simp
      then have "split_csv_loop trim r ?out =
          ?out @ filter (\<lambda>x. x \<noteq> []) (map trim (split_on CHR '','' r))"
        by (intro less) simp
      then show ?thesis using unf Cons by (simp add: split_on_unfold [of _ s])
    qed
  qed
qed

section \<open>Whitelist entries are networks in canonical form\<close>

definition whitelist_wf :: "'w platform \<Rightarrow> config \<Rightarrow> bool" where
  "whitelist_wf P c \<longleftrightarrow>
     (\<forall>net \<in> set (ip_whitelist_v4 c). canonical_v4 P net = net) \<and>
     (\<forall>net \<in> set (ip_whitelist_v6 c). canonical_v6 P net = net)"

lemma whitelist_wf_default [simp]: "whitelist_wf P config_default"
  by (simp add: whitelist_wf_def config_default_def)

lemma canonical_idem:
  assumes "network_laws P"
  shows "canonical_v4 P (canonical_v4 P n4) = canonical_v4 P n4"
    and "canonical_v6 P (canonical_v6 P n6) = canonical_v6 P n6"
  using assms by (cases n4; cases n6; simp add: network_laws_def)+

lemma add_whitelist_entry_wf:
  assumes "network_laws P" "whitelist_wf P c" "add_whitelist_entry P e c = Inr c'"
  shows "whitelist_wf P c'"
proof -
  have bare: "canonical_v4 P (a, 32) = (a, 32)" "canonical_v6 P (b, 128) = (b, 128)" for a b
    using assms(1) by (simp_all add: network_laws_def)
  show ?thesis
    using assms(2,3) canonical_idem [OF assms(1)] bare
    by (auto simp: add_whitelist_entry_def whitelist_wf_def Let_def split: if_splits option.splits)
qed

lemma add_whitelist_entries_wf:
  "network_laws P \<Longrightarrow> whitelist_wf P c \<Longrightarrow> add_whitelist_entries P es c = Inr c' \<Longrightarrow> whitelist_wf P c'"
  by (induction es arbitrary: c) (auto split: sum.splits dest: add_whitelist_entry_wf)

lemma add_whitelist_items_wf:
  "network_laws P \<Longrightarrow> whitelist_wf P c \<Longrightarrow> add_whitelist_items P js c = Inr c' \<Longrightarrow> whitelist_wf P c'"
  by (induction js arbitrary: c) (auto split: sum.splits json.splits dest: add_whitelist_entry_wf)

lemma add_whitelist_entry_frame:
  assumes "add_whitelist_entry P e c = Inr c'"
  shows "listen_endpoint c' = listen_endpoint c" "workers c' = workers c"
    "databases_folder c' = databases_folder c" "auth c' = auth c"
    "client_max_packet_size c' = client_max_packet_size c" "busy_timeout_ms c' = busy_timeout_ms c"
  using assms by (auto simp: add_whitelist_entry_def Let_def split: if_splits option.splits)

lemma add_whitelist_entries_frame:
  "add_whitelist_entries P es c = Inr c' \<Longrightarrow>
     listen_endpoint c' = listen_endpoint c \<and> databases_folder c' = databases_folder c \<and>
     auth c' = auth c \<and> busy_timeout_ms c' = busy_timeout_ms c"
  by (induction es arbitrary: c) (auto split: sum.splits dest: add_whitelist_entry_frame)

lemma add_whitelist_items_frame:
  "add_whitelist_items P js c = Inr c' \<Longrightarrow>
     listen_endpoint c' = listen_endpoint c \<and> databases_folder c' = databases_folder c \<and>
     auth c' = auth c \<and> busy_timeout_ms c' = busy_timeout_ms c"
  by (induction js arbitrary: c) (auto split: sum.splits json.splits dest: add_whitelist_entry_frame)

lemma init_whitelist_wf:
  "network_laws P \<Longrightarrow> whitelist_wf P c \<Longrightarrow> init_whitelist P j c = Inr c' \<Longrightarrow> whitelist_wf P c'"
  by (auto simp: init_whitelist_def split: option.splits json.splits dest: add_whitelist_items_wf)

lemma init_whitelist_frame:
  "init_whitelist P j c = Inr c' \<Longrightarrow>
     listen_endpoint c' = listen_endpoint c \<and> databases_folder c' = databases_folder c \<and>
     auth c' = auth c \<and> busy_timeout_ms c' = busy_timeout_ms c"
  by (auto simp: init_whitelist_def split: option.splits json.splits dest: add_whitelist_items_frame)

lemma init_busy_timeout_Inr:
  assumes "init_busy_timeout P j c = Inr c'"
  obtains t where "c' = c\<lparr>busy_timeout_ms := t\<rparr>"
  using assms that [of "busy_timeout_ms c"]
  by (auto simp: init_busy_timeout_def split: option.splits json.splits)

lemma whitelist_wf_cong:
  "ip_whitelist_v4 c = ip_whitelist_v4 d \<Longrightarrow> ip_whitelist_v6 c = ip_whitelist_v6 d \<Longrightarrow>
   whitelist_wf P c = whitelist_wf P d"
  by (simp add: whitelist_wf_def)

lemma init_from_json_InrE:
  assumes "init_from_json P j w c = Inr c'"
  obtains packet nworkers ip port endpoint path folder password t where
    "config_uint P j ''client_max_packet_size'' = Inr packet"
    "config_uint P j ''workers'' = Inr nworkers" "config_string j ''listen_ip'' = Inr ip"
    "config_uint P j ''listen_port'' = Inr port" "resolve_endpoint P ip port = Inr endpoint"
    "config_string j ''databases_folder'' = Inr path"
    "resolve_database_path P path w = Inr folder" "config_string_or j ''auth'' [] = Inr password"
    "init_whitelist P j
       (c\<lparr>client_max_packet_size := packet, workers := nworkers, listen_endpoint := endpoint,
          databases_folder := folder, auth := password, busy_timeout_ms := t\<rparr>) = Inr c'"
  using assms unfolding init_from_json_def
  by (auto split: sum.splits elim!: init_busy_timeout_Inr)

lemma init_from_options_InrE:
  assumes "init_from_options P vm w c = Inr c'"
  obtains endpoint folder where
    "resolve_endpoint P (opt_ip vm) (opt_port vm) = Inr endpoint"
    "resolve_database_path P (opt_databases_folder vm) w = Inr folder"
    "add_whitelist_entries P (split_csv P (opt_ip_whitelist vm))
       (c\<lparr>client_max_packet_size := opt_client_max_packet_size vm, workers := opt_workers vm,
          listen_endpoint := endpoint, databases_folder := folder, auth := opt_auth vm,
          busy_timeout_ms := opt_busy_timeout vm\<rparr>) = Inr c'"
  using assms unfolding init_from_options_def by (auto split: sum.splits)

lemma config_init_InrE:
  assumes "config_init P vm w c = Inr c'"
  obtains "init_from_options P vm w c = Inr c'" | j where "init_from_json P j w c = Inr c'"
  using assms unfolding config_init_def by (auto split: option.splits if_splits sum.splits exn.splits)

lemma config_init_wf:
  assumes "network_laws P" "whitelist_wf P c" "config_init P vm w c = Inr c'"
  shows "whitelist_wf P c'"
  using assms(3)
proof (cases rule: config_init_InrE)
  case 1
  then show ?thesis
    by (rule init_from_options_InrE, elim add_whitelist_entries_wf [OF assms(1), rotated])
       (use assms(2) in \<open>simp add: whitelist_wf_def\<close>)
next
  case (2 j)
  then show ?thesis
    by (rule init_from_json_InrE, elim init_whitelist_wf [OF assms(1), rotated])
       (use assms(2) in \<open>simp add: whitelist_wf_def\<close>)
qed

section \<open>Who may connect\<close>

text \<open>The bits of an address that a network of prefix length \<open>p\<close> fixes.\<close>

definition same_prefix :: "nat \<Rightarrow> 'a::len word \<Rightarrow> 'a word \<Rightarrow> bool" where
  "same_prefix p a b \<longleftrightarrow> drop_bit (LENGTH('a) - p) a = drop_bit (LENGTH('a) - p) b"

lemma same_prefix_refl [simp]: "same_prefix p a a"
  by (simp add: same_prefix_def)

lemma clear_host_bits_match:
  "clear_host_bits n p = n \<Longrightarrow> clear_host_bits a p = n \<longleftrightarrow> same_prefix p a n"
  using clear_host_bits_eq_iff [of a p n] by (simp add: same_prefix_def)

lemma canonical_match_v4:
  assumes "network_laws P" "canonical_v4 P net = net"
  shows "canonical_v4 P (a, snd net) = net \<longleftrightarrow> same_prefix (snd net) a (fst net)"
  using assms by (cases net) (simp add: network_laws_def clear_host_bits_match)

lemma canonical_match_v6:
  assumes "network_laws P" "canonical_v6 P net = net"
  shows "canonical_v6 P (a, snd net) = net \<longleftrightarrow> same_prefix (snd net) a (fst net)"
  using assms by (cases net) (simp add: network_laws_def clear_host_bits_match)

lemma is_ip_allowed_iff:
  assumes "network_laws P" "whitelist_wf P c"
  shows "is_ip_allowed P c address \<longleftrightarrow>
     ip_whitelist_v4 c = [] \<and> ip_whitelist_v6 c = [] \<or>
     (case address of
        V4 a \<Rightarrow> \<exists>net \<in> set (ip_whitelist_v4 c). same_prefix (snd net) a (fst net)
      | V6 a \<Rightarrow> \<exists>net \<in> set (ip_whitelist_v6 c). same_prefix (snd net) a (fst net))"
proof -
  have "list_ex (\<lambda>net. canonical_v4 P (a, snd net) = net) (ip_whitelist_v4 c) \<longleftrightarrow>
      (\<exists>net \<in> set (ip_whitelist_v4 c). same_prefix (snd net) a (fst net))" for a
    using assms(2) canonical_match_v4 [OF assms(1)] by (auto simp: list_ex_iff whitelist_wf_def)
  moreover have "list_ex (\<lambda>net. canonical_v6 P (a, snd net) = net) (ip_whitelist_v6 c) \<longleftrightarrow>
      (\<exists>net \<in> set (ip_whitelist_v6 c). same_prefix (snd net) a (fst net))" for a
    using assms(2) canonical_match_v6 [OF assms(1)] by (auto simp: list_ex_iff whitelist_wf_def)
  ultimately show ?thesis
    by (cases address) (auto simp: is_ip_allowed.simps)
qed

section \<open>Errors\<close>

lemma add_whitelist_entries_invalid:
  assumes "e \<in> set es" "\<And>c. add_whitelist_entry P e c = Inl (invalid_entry e)"
  shows "\<exists>e' \<in> set es. add_whitelist_entries P es c = Inl (invalid_entry e')"
  using assms(1)
proof (induction es arbitrary: c)
  case (Cons x xs)
  show ?case
  proof (cases "add_whitelist_entry P x c")
    case (Inl err)
    then have "err = invalid_entry x"
      by (auto simp: add_whitelist_entry_def Let_def split: if_splits option.splits)
    with Inl show ?thesis by simp
  next
    case (Inr c')
    then have "e \<noteq> x" using assms(2) by auto
    with Cons Inr show ?thesis by auto
  qed
qed simp

lemma config_init_invalid_entry:
  assumes "e \<in> set (split_csv P (opt_ip_whitelist vm))"
    and bad: "\<And>c. add_whitelist_entry P e c = Inl (invalid_entry e)"
    and ok: "resolve_endpoint P (opt_ip vm) (opt_port vm) = Inr endpoint"
      "resolve_database_path P (opt_databases_folder vm) w = Inr folder" "opt_config vm = None"
  shows "\<exists>e' \<in> set (split_csv P (opt_ip_whitelist vm)).
     config_init P vm w c = Inl (ConfigException (''Invalid ip_whitelist entry: '' @ e'))"
proof -
  let ?c = "c\<lparr>client_max_packet_size := opt_client_max_packet_size vm, workers := opt_workers vm,
            listen_endpoint := endpoint, databases_folder := folder, auth := opt_auth vm,
            busy_timeout_ms := opt_busy_timeout vm\<rparr>"
  obtain e' where e': "e' \<in> set (split_csv P (opt_ip_whitelist vm))"
    "add_whitelist_entries P (split_csv P (opt_ip_whitelist vm)) ?c = Inl (invalid_entry e')"
    using add_whitelist_entries_invalid [OF assms(1) bad, of ?c] by blast
  have "config_init P vm w c = Inl (ConfigException (''Invalid ip_whitelist entry: '' @ e'))"
    using e'(2) by (simp add: config_init_def init_from_options_def ok invalid_entry_def)
  with e'(1) show ?thesis by blast
qed

lemma resolve_endpoint_v4:
  assumes "is_v4 (make_address P ''127.0.0.1'')" "resolve_endpoint P ip port = Inr e"
  shows "is_v4 (fst e)"
  using assms by (auto simp: resolve_endpoint_def find_Some_iff split: option.splits)

end
