(* ===== verification/Response.thy ===== *)
theory Response
  imports Json
begin

text \<open>
  \<^verbatim>\<open>Response.cpp\<close>, \<^verbatim>\<open>Response.h\<close> and \<^verbatim>\<open>IResponse.h\<close>: a response is the printed JSON text behind a
  header of four bytes, its length in little-endian order.
\<close>

section \<open>The constructor and the accessors\<close>

text \<open>\<^verbatim>\<open>size >> (8 * i) & 0xFF\<close> for \<^verbatim>\<open>i\<close> from 0 to 3, pushed one after the other.\<close>

definition header_bytes :: "u32 \<Rightarrow> u8 list" where
  "header_bytes sz = map (\<lambda>i. ucast (drop_bit (8 * i) sz AND 0xFF)) [0..<4]"

text \<open>
  \<open>response_data text\<close> is \<^verbatim>\<open>m_data\<close> after the constructor ran on a value that prints as \<open>text\<close>;
  the length is cut to the 32 bits of \<^verbatim>\<open>HeaderSize\<close>.
\<close>

definition response_data :: "string \<Rightarrow> u8 list" where
  "response_data text = header_bytes (of_nat (length text)) @ map byte_of text"

definition data_repr :: "u8 list \<Rightarrow> string" where
  "data_repr m_data = (if length m_data < 4 then [] else map char_of_byte (drop 4 m_data))"

text \<open>
  The constructor itself: \<^verbatim>\<open>json.dump()\<close> may throw (\<^verbatim>\<open>type_error\<close> 316), and then no response
  object exists.
\<close>

definition make_Response :: "(json \<Rightarrow> string option) \<Rightarrow> json \<Rightarrow> exn + u8 list" where
  "make_Response dump j =
     (case dump j of None \<Rightarrow> Inl (Json_type_error 316) | Some text \<Rightarrow> Inr (response_data text))"

section \<open>The reader's side of the framing\<close>

text \<open>
  What a peer does with the four header bytes: \<open>le_u32\<close> decodes the little-endian number, as the
  protocol documents it. \<open>be_u32\<close> is how a big-endian machine reads the same bytes when it copies
  them into an integer.
\<close>

definition le_u32 :: "u8 list \<Rightarrow> u32" where
  "le_u32 bs = foldr (\<lambda>b acc. push_bit 8 acc OR ucast b) bs 0"

definition be_u32 :: "u8 list \<Rightarrow> u32" where
  "be_u32 bs = foldl (\<lambda>acc b. push_bit 8 acc OR ucast b) 0 bs"

text \<open>
  Reading one message off a byte stream: four bytes of length, then that many bytes of text.
  \<open>None\<close> means that more bytes have to arrive first.
\<close>

definition take_frame :: "u8 list \<Rightarrow> (string \<times> u8 list) option" where
  "take_frame bs =
     (if length bs < 4 then None
      else let n = unat (le_u32 (take 4 bs)); body = drop 4 bs
           in if length body < n then None
              else Some (map char_of_byte (take n body), drop n body))"

text \<open>All complete messages of a stream.\<close>

function take_frames :: "u8 list \<Rightarrow> string list" where
  "take_frames bs =
     (case take_frame bs of None \<Rightarrow> [] | Some (msg, rest) \<Rightarrow> msg # take_frames rest)"
  by pat_completeness auto
termination
  by (relation "measure length") (auto simp: take_frame_def Let_def split: if_splits)

declare take_frames.simps [simp del]

section \<open>Facts\<close>

lemma header_bytes_unfold [codec_simps]:
  "header_bytes n = [ucast n, ucast (drop_bit 8 n), ucast (drop_bit 16 n), ucast (drop_bit 24 n)]"
  by (simp add: header_bytes_def upt_rec) (auto intro!: bit_word_eqI simp: bit_simps)

lemma length_header_bytes [simp]: "length (header_bytes n) = 4"
  by (simp add: header_bytes_def)

lemma le_u32_header [simp]: "le_u32 (header_bytes n) = n"
proof (rule bit_word_eqI)
  fix i :: nat
  assume "i < LENGTH(32)"
  then consider "i < 8" | "8 \<le> i" "i < 16" | "16 \<le> i" "i < 24" | "24 \<le> i" "i < 32" by force
  then show "bit (le_u32 (header_bytes n)) i = bit n i"
    by cases (auto simp: header_bytes_unfold le_u32_def bit_simps)
qed

lemma length_response_data [simp]: "length (response_data t) = 4 + length t"
  by (simp add: response_data_def)

lemma data_repr_response_data [simp]: "data_repr (response_data t) = t"
  by (simp add: data_repr_def response_data_def comp_def)

lemma take_frame_response:
  assumes "length t < 2 ^ 32"
  shows "take_frame (response_data t @ rest) = Some (t, rest)"
  using assms by (simp add: take_frame_def response_data_def Let_def unat_of_nat_small comp_def)

section \<open>The framing interface\<close>

text \<open>
  What both ends of a connection rely on: a message is sent as \<open>enc msg\<close> and a reader that sees
  the message at the front of its input gets the message back and is left with what follows.
\<close>

locale framing =
  fixes enc :: "'m \<Rightarrow> 'b list"
    and dec :: "'b list \<Rightarrow> ('m \<times> 'b list) option"
    and dec_all :: "'b list \<Rightarrow> 'm list"
    and ok :: "'m \<Rightarrow> bool"
  assumes dec_enc: "ok m \<Longrightarrow> dec (enc m @ rest) = Some (m, rest)"
    and dec_all_rec: "dec_all bs = (case dec bs of None \<Rightarrow> [] | Some (m, r) \<Rightarrow> m # dec_all r)"
    and dec_Nil: "dec [] = None"
begin

lemma dec_all_stream:
  assumes "\<forall>m \<in> set ms. ok m" and "dec rest = None"
  shows "dec_all (concat (map enc ms) @ rest) = ms"
  using assms
proof (induction ms)
  case Nil
  then show ?case by (simp add: dec_all_rec [of rest])
next
  case (Cons m ms)
  then show ?case by (simp add: dec_all_rec [of "enc m @ _"] dec_enc)
qed

lemma dec_all_stream_whole:
  assumes "\<forall>m \<in> set ms. ok m"
  shows "dec_all (concat (map enc ms)) = ms"
  using dec_all_stream [OF assms dec_Nil] by simp

lemma enc_inj: "ok m \<Longrightarrow> ok m' \<Longrightarrow> enc m = enc m' \<Longrightarrow> m = m'"
  by (metis dec_enc option.inject prod.inject)

end

interpretation response_frame: framing response_data take_frame take_frames "\<lambda>t. length t < 2 ^ 32"
proof unfold_locales
  show "take_frame (response_data m @ rest) = Some (m, rest)" if "length m < 2 ^ 32" for m rest
    using that by (rule take_frame_response)
  show "take_frames bs = (case take_frame bs of None \<Rightarrow> [] | Some (m, r) \<Rightarrow> m # take_frames r)" for bs
    by (rule take_frames.simps)
  show "take_frame [] = None" by (simp add: take_frame_def)
qed

end
