(* ===== verification/Sql_Wrapper.thy ===== *)
theory Sql_Wrapper
  imports Json
begin

text \<open>
  \<^verbatim>\<open>sqlite3_wrapper/\<close>: the RAII classes \<^verbatim>\<open>SQLDatabase\<close> and \<^verbatim>\<open>SQLStatement\<close> over the C interface of
  SQLite. The entry points of the engine that they call are the fields of \<open>sqlite_api\<close>; a database
  or statement handle is a number. \<open>'w\<close> is the state of the engine and its files.
\<close>

section \<open>The part of the SQLite interface the wrapper uses\<close>

record 'w sqlite_api =
  sq_open :: "string \<Rightarrow> 'w \<Rightarrow> (int \<times> nat) \<times> 'w"
  sq_errcode :: "nat \<Rightarrow> 'w \<Rightarrow> int"
  sq_extended_errcode :: "nat \<Rightarrow> 'w \<Rightarrow> int"
  sq_errmsg :: "nat \<Rightarrow> 'w \<Rightarrow> string"
  sq_close :: "nat \<Rightarrow> 'w \<Rightarrow> 'w"
  sq_busy_timeout :: "nat \<Rightarrow> int \<Rightarrow> 'w \<Rightarrow> 'w"
  sq_prepare_v2 :: "nat \<Rightarrow> string \<Rightarrow> int \<Rightarrow> 'w \<Rightarrow> (int \<times> nat option) \<times> 'w"
  sq_step :: "nat \<Rightarrow> 'w \<Rightarrow> int \<times> 'w"
  sq_db_handle :: "nat \<Rightarrow> 'w \<Rightarrow> nat"
  sq_column_count :: "nat \<Rightarrow> 'w \<Rightarrow> nat"
  sq_column_name :: "nat \<Rightarrow> nat \<Rightarrow> 'w \<Rightarrow> string"
  sq_column_type :: "nat \<Rightarrow> nat \<Rightarrow> 'w \<Rightarrow> int"
  sq_value_int64 :: "nat \<Rightarrow> nat \<Rightarrow> 'w \<Rightarrow> int"
  sq_value_double :: "nat \<Rightarrow> nat \<Rightarrow> 'w \<Rightarrow> u64"
  sq_value_text :: "nat \<Rightarrow> nat \<Rightarrow> 'w \<Rightarrow> string"
  sq_value_blob :: "nat \<Rightarrow> nat \<Rightarrow> 'w \<Rightarrow> u8 list"
  sq_value_bytes :: "nat \<Rightarrow> nat \<Rightarrow> 'w \<Rightarrow> nat"
  sq_clear_bindings :: "nat \<Rightarrow> 'w \<Rightarrow> 'w"
  sq_finalize :: "nat \<Rightarrow> 'w \<Rightarrow> 'w"

definition SQLITE_OK :: int where "SQLITE_OK = 0"
definition SQLITE_BUSY :: int where "SQLITE_BUSY = 5"
definition SQLITE_MISUSE :: int where "SQLITE_MISUSE = 21"
definition SQLITE_ROW :: int where "SQLITE_ROW = 100"
definition SQLITE_DONE :: int where "SQLITE_DONE = 101"

lemmas sqlite_codes = SQLITE_OK_def SQLITE_BUSY_def SQLITE_MISUSE_def SQLITE_ROW_def SQLITE_DONE_def

text \<open>\<^verbatim>\<open>static_cast<int>\<close> of a 64-bit size and of a 32-bit unsigned number.\<close>

definition size_to_int :: "nat \<Rightarrow> int" where
  "size_to_int n = sint (of_nat n :: u32)"

section \<open>SQLStatement\<close>

text \<open>
  The \<^verbatim>\<open>do ... while (rc == SQLITE_BUSY)\<close> loop of the constructor; it only ends when the engine
  stops answering busy.
\<close>

partial_function (option) prepare_loop ::
    "'w sqlite_api \<Rightarrow> nat \<Rightarrow> string \<Rightarrow> 'w \<Rightarrow> ((int \<times> nat option) \<times> 'w) option" where
  "prepare_loop A db query w =
     (case sq_prepare_v2 A db query (size_to_int (length query)) w of
        ((rc, stmt), w') \<Rightarrow>
          if rc = SQLITE_BUSY then prepare_loop A db query w' else Some ((rc, stmt), w'))"

definition make_SQLStatement :: "'w sqlite_api \<Rightarrow> nat \<Rightarrow> string \<Rightarrow> (exn, 'w, nat) prog" where
  "make_SQLStatement A db query w =
     (case prepare_loop A db query w of
        None \<Rightarrow> None
      | Some ((rc, stmt), w') \<Rightarrow>
          if rc \<noteq> SQLITE_OK
          then Some (Inl (SQLException (sq_errcode A db w') (sq_errmsg A db w')), w')
          else (case stmt of
                  None \<Rightarrow> Some (Inl (SQLException SQLITE_MISUSE ''empty query''), w')
                | Some st \<Rightarrow> Some (Inr st, w')))"

definition SQLStatement_dtor :: "'w sqlite_api \<Rightarrow> nat \<Rightarrow> 'w \<Rightarrow> 'w" where
  "SQLStatement_dtor A st w = sq_finalize A st (sq_clear_bindings A st w)"

definition next_row :: "'w sqlite_api \<Rightarrow> nat \<Rightarrow> (exn, 'w, bool) prog" where
  "next_row A st w =
     (case sq_step A st w of
        (rc, w') \<Rightarrow>
          if rc = SQLITE_ROW then Some (Inr True, w')
          else if rc = SQLITE_DONE then Some (Inr False, w')
          else let db = sq_db_handle A st w'
               in Some (Inl (SQLException (sq_extended_errcode A db w') (sq_errmsg A db w')), w'))"

section \<open>SQLDatabase\<close>

definition make_SQLDatabase :: "'w sqlite_api \<Rightarrow> string \<Rightarrow> int \<Rightarrow> (exn, 'w, nat) prog" where
  "make_SQLDatabase A path timeout w =
     (case sq_open A path w of
        ((rc, db), w') \<Rightarrow>
          if rc \<noteq> SQLITE_OK
          then Some (Inl (SQLException (sq_errcode A db w') (sq_errmsg A db w')), sq_close A db w')
          else Some (Inr db, sq_busy_timeout A db timeout w'))"

definition SQLDatabase_dtor :: "'w sqlite_api \<Rightarrow> nat \<Rightarrow> 'w \<Rightarrow> 'w" where
  "SQLDatabase_dtor A db w = sq_close A db w"

section \<open>Facts\<close>

text \<open>
  The constructor's loop ends as soon as the engine answers something else than busy: after \<open>n\<close>
  busy answers it has called the engine \<open>n + 1\<close> times.
\<close>

fun prepare_attempts :: "'w sqlite_api \<Rightarrow> nat \<Rightarrow> string \<Rightarrow> nat \<Rightarrow> 'w \<Rightarrow> 'w" where
  "prepare_attempts A db query 0 w = w"
| "prepare_attempts A db query (Suc n) w =
     prepare_attempts A db query n (snd (sq_prepare_v2 A db query (size_to_int (length query)) w))"

definition prepare_rc :: "'w sqlite_api \<Rightarrow> nat \<Rightarrow> string \<Rightarrow> 'w \<Rightarrow> int" where
  "prepare_rc A db query w = fst (fst (sq_prepare_v2 A db query (size_to_int (length query)) w))"

lemma prepare_loop_returns:
  assumes "\<forall>k < n. prepare_rc A db query (prepare_attempts A db query k w) = SQLITE_BUSY"
    and "prepare_rc A db query (prepare_attempts A db query n w) \<noteq> SQLITE_BUSY"
  shows "prepare_loop A db query w =
      Some (sq_prepare_v2 A db query (size_to_int (length query)) (prepare_attempts A db query n w))"
  using assms
proof (induction n arbitrary: w)
  case 0
  then show ?case
    by (subst prepare_loop.simps) (auto simp: prepare_rc_def split: prod.splits)
next
  case (Suc n)
  let ?w' = "snd (sq_prepare_v2 A db query (size_to_int (length query)) w)"
  have "prepare_rc A db query w = SQLITE_BUSY" using Suc.prems(1) by force
  then have "prepare_loop A db query w = prepare_loop A db query ?w'"
    by (subst prepare_loop.simps) (auto simp: prepare_rc_def split: prod.splits)
  moreover have "prepare_loop A db query ?w' =
      Some (sq_prepare_v2 A db query (size_to_int (length query)) (prepare_attempts A db query n ?w'))"
    using Suc.prems by (intro Suc.IH) auto
  ultimately show ?case by simp
qed

lemma make_SQLStatement_Inr:
  assumes "make_SQLStatement A db query w = Some (Inr st, w')"
  shows "prepare_loop A db query w = Some ((SQLITE_OK, Some st), w')"
  using assms by (auto simp: make_SQLStatement_def split: option.splits if_splits prod.splits)

lemma make_SQLStatement_Inl:
  assumes "make_SQLStatement A db query w = Some (Inl e, w')"
  obtains code msg where "e = SQLException code msg"
  using assms by (auto simp: make_SQLStatement_def split: option.splits if_splits prod.splits)

lemma make_SQLDatabase_Inl:
  assumes "make_SQLDatabase A path timeout w = Some (Inl e, w')"
  obtains code msg where "e = SQLException code msg"
  using assms by (auto simp: make_SQLDatabase_def split: if_splits prod.splits)

lemma make_SQLDatabase_not_None [simp]: "make_SQLDatabase A path timeout w \<noteq> None"
  by (auto simp: make_SQLDatabase_def split: if_splits prod.splits)

lemma next_row_eq:
  "sq_step A st w = (rc, w') \<Longrightarrow> next_row A st w =
     (if rc = SQLITE_ROW then Some (Inr True, w')
      else if rc = SQLITE_DONE then Some (Inr False, w')
      else Some (Inl (SQLException (sq_extended_errcode A (sq_db_handle A st w') w')
                        (sq_errmsg A (sq_db_handle A st w') w')), w'))"
  by (simp add: next_row_def Let_def)

lemma next_row_Inl:
  assumes "next_row A st w = Some (Inl e, w')"
  obtains code msg where "e = SQLException code msg"
  using assms by (auto simp: next_row_def Let_def split: if_splits prod.splits)

lemma next_row_not_None [simp]: "next_row A st w \<noteq> None"
  by (simp add: next_row_def Let_def split: prod.splits)

end
