(* ===== verification/Request_Handler.thy ===== *)
theory Request_Handler
  imports Server_Config Response Sql_Wrapper
begin

text \<open>
  \<^verbatim>\<open>RequestHandler.h\<close> and \<^verbatim>\<open>RequestHandler.cpp\<close>: one handler per connection parses a request,
  checks the password, dispatches the command and builds the response. Its state is the record
  \<open>handler\<close>; \<open>'w\<close> is the outside world (files, SQLite engine). A handler function is a \<open>prog\<close> over
  the pair of both; \<open>Inl\<close> is an exception that leaves \<^verbatim>\<open>handle_request\<close>.
\<close>

section \<open>State and error codes\<close>

record handler =
  m_databases :: "string \<rightharpoonup> nat"
  m_authenticated :: bool

definition new_RequestHandler :: handler where
  "new_RequestHandler = \<lparr>m_databases = Map.empty, m_authenticated = False\<rparr>"

datatype GenericErrorCode =
    INVALID_FORMAT
  | NO_COMMAND_SPECIFIED
  | UNKNOWN_COMMAND
  | NO_DATABASE_SPECIFIED
  | ERROR_READING_FROM_CLIENT

fun error_number :: "GenericErrorCode \<Rightarrow> nat" where
  "error_number INVALID_FORMAT = 0"
| "error_number NO_COMMAND_SPECIFIED = 1"
| "error_number UNKNOWN_COMMAND = 2"
| "error_number NO_DATABASE_SPECIFIED = 3"
| "error_number ERROR_READING_FROM_CLIENT = 4"

text \<open>The responses the handlers build.\<close>

definition generic_error :: "GenericErrorCode \<Rightarrow> json \<Rightarrow> json" where
  "generic_error code request =
     json_obj [(''generic_error'', JUInt (error_number code)), (''request'', request)]"

definition invalid_format :: "string \<Rightarrow> string \<Rightarrow> json" where
  "invalid_format what req =
     json_obj [(''generic_error'', JUInt (error_number INVALID_FORMAT)),
               (''message'', JStr (c_str what)), (''request'', JStr req)]"

definition result_json :: "string \<Rightarrow> json" where
  "result_json r = json_obj [(''result'', JStr r)]"

definition sql_error :: "int \<Rightarrow> string \<Rightarrow> json \<Rightarrow> json" where
  "sql_error code what j =
     json_obj [(''error_code'', JInt code), (''error_message'', JStr (c_str what)), (''query'', j)]"

definition query_result :: "string list \<Rightarrow> json list \<Rightarrow> json" where
  "query_result columns rows =
     json_obj [(''columns'', JArr (map JStr columns)), (''data'', JArr rows)]"

definition respond :: "'w platform \<Rightarrow> json \<Rightarrow> (exn, handler \<times> 'w, u8 list) prog" where
  "respond P j = lift_result (make_Response (json_dump P) j)"

section \<open>Database names\<close>

definition is_safe_database_name :: "'w platform \<Rightarrow> config \<Rightarrow> 'w \<Rightarrow> string \<Rightarrow> bool" where
  "is_safe_database_name P c w name =
     (if name = [] \<or> path_is_absolute P name then False
      else case weakly_canonical P (databases_folder c) w of
        None \<Rightarrow> False
      | Some base \<Rightarrow>
          (case weakly_canonical P (path_append P base name) w of
             None \<Rightarrow> False
           | Some full \<Rightarrow>
               let rel = lexically_relative P full base
               in rel \<noteq> [] \<and> rel \<noteq> ''.'' \<and>
                  (case path_elements P rel of [] \<Rightarrow> False | e # _ \<Rightarrow> e \<noteq> ''..'') \<and>
                  \<not> path_has_parent_path P rel))"

definition is_sqlite_sidecar_file :: "'w platform \<Rightarrow> string \<Rightarrow> bool" where
  "is_sqlite_sidecar_file P filename \<longleftrightarrow>
     ends_with P filename ''-wal'' \<or> ends_with P filename ''-shm'' \<or> ends_with P filename ''-journal''"

section \<open>Parsing a request\<close>

text \<open>The regular expression and the replacement of the repair step.\<close>

definition key_regex :: string where
  "key_regex = ''(['' @ [CHR 0x27, CHR 0x22] @ ''])?([a-zA-Z0-9]+)(['' @ [CHR 0x27, CHR 0x22] @ ''])?:''"

definition key_format :: string where
  "key_format = [CHR 0x22] @ ''$2'' @ [CHR 0x22] @ '':''"

text \<open>
  The first call of the parser is made without exceptions, so that every failure only discards the
  value; an exception of the second call leaves the function.
\<close>

definition parse_request :: "'w platform \<Rightarrow> string \<Rightarrow> exn + json" where
  "parse_request P req =
     (case json_parse P req of
        Inr j \<Rightarrow> Inr j
      | Inl _ \<Rightarrow>
          json_parse P (regex_replace P key_regex key_format req))"

section \<open>Running a query\<close>

text \<open>
  The lambda \<^verbatim>\<open>hexStr\<close>: \<^verbatim>\<open>data[j]\<close> is a signed \<^verbatim>\<open>char\<close> that is widened to \<^verbatim>\<open>int\<close> before the masks.
\<close>

definition hexmap :: string where
  "hexmap = ''0123456789abcdef''"

definition hex_byte :: "u8 \<Rightarrow> string" where
  "hex_byte b =
     (let d = (scast b :: u32)
      in [hexmap ! unat (drop_bit 4 (d AND 0xF0)), hexmap ! unat (d AND 0x0F)])"

definition hexStr :: "u8 list \<Rightarrow> nat \<Rightarrow> string" where
  "hexStr data len = concat (map (\<lambda>j. hex_byte (data ! j)) [0..<len])"

text \<open>
  The \<^verbatim>\<open>switch\<close> on the column type; \<open>None\<close> is the default branch, which logs and assigns nothing.
  A text value reaches the JSON library as a \<^verbatim>\<open>const char *\<close>.
\<close>

definition column_value :: "'w sqlite_api \<Rightarrow> nat \<Rightarrow> nat \<Rightarrow> 'w \<Rightarrow> json option" where
  "column_value A st i w =
     (let ty = sq_column_type A st i w
      in if ty = 1 then Some (JInt (sq_value_int64 A st i w))
         else if ty = 2 then Some (JFloat (sq_value_double A st i w))
         else if ty = 3 then Some (JStr (c_str (sq_value_text A st i w)))
         else if ty = 4 then
           Some (JStr (''X'' @ [CHR 0x27] @
                       hexStr (sq_value_blob A st i w) (sq_value_bytes A st i w) @ [CHR 0x27]))
         else if ty = 0 \<or> ty = 5 then Some JNull
         else None)"

definition add_column :: "'w sqlite_api \<Rightarrow> nat \<Rightarrow> 'w \<Rightarrow> nat \<Rightarrow> (string \<times> json) list \<Rightarrow> (string \<times> json) list"
  where
  "add_column A st w i row =
     (case column_value A st i w of
        Some v \<Rightarrow> alist_put (c_str (sq_column_name A st i w)) v row
      | None \<Rightarrow> row)"

definition row_data :: "'w sqlite_api \<Rightarrow> nat \<Rightarrow> nat \<Rightarrow> 'w \<Rightarrow> json" where
  "row_data A st columnCount w = JObj (fold (add_column A st w) [0..<columnCount] [])"

definition column_names :: "'w sqlite_api \<Rightarrow> nat \<Rightarrow> nat \<Rightarrow> 'w \<Rightarrow> string list" where
  "column_names A st columnCount w = map (\<lambda>i. c_str (sq_column_name A st i w)) [0..<columnCount]"

text \<open>The \<^verbatim>\<open>while (statement->next_row())\<close> loop, with the rows collected so far.\<close>

partial_function (option) fetch_rows ::
    "'w sqlite_api \<Rightarrow> nat \<Rightarrow> nat \<Rightarrow> json list \<Rightarrow> 'w \<Rightarrow> ((exn + json list) \<times> 'w) option" where
  "fetch_rows A st columnCount rows w =
     (case next_row A st w of
        None \<Rightarrow> None
      | Some (Inl e, w') \<Rightarrow> Some (Inl e, w')
      | Some (Inr got, w') \<Rightarrow>
          if got then fetch_rows A st columnCount (rows @ [row_data A st columnCount w']) w'
          else Some (Inr rows, w'))"

text \<open>
  The life of one statement: prepare it, read the column names, fetch the rows; the destructor
  runs when the scope is left either way.
\<close>

definition run_statement ::
    "'w sqlite_api \<Rightarrow> nat \<Rightarrow> (exn, 'w, string list \<times> json list) prog" where
  "run_statement A st =
     ensure
       (\<lambda>w. let n = sq_column_count A st w; names = column_names A st n w
            in sbind (fetch_rows A st n []) (\<lambda>rows. ret (names, rows)) w)
       (SQLStatement_dtor A st)"

definition run_query ::
    "'w sqlite_api \<Rightarrow> nat \<Rightarrow> string \<Rightarrow> (exn, 'w, string list \<times> json list) prog" where
  "run_query A db query = sbind (make_SQLStatement A db query) (run_statement A)"

text \<open>An operation on the world, seen as an operation on handler and world.\<close>

definition on_world :: "('e, 'w, 'a) prog \<Rightarrow> ('e, 'h \<times> 'w, 'a) prog" where
  "on_world m = (\<lambda>(h, w). map_option (\<lambda>(r, w'). (r, (h, w'))) (m w))"

definition get_database_connection ::
    "'w platform \<Rightarrow> 'w sqlite_api \<Rightarrow> config \<Rightarrow> string \<Rightarrow> (exn, handler \<times> 'w, nat) prog" where
  "get_database_connection P A c name = (\<lambda>(h, w).
     case m_databases h name of
       Some db \<Rightarrow> Some (Inr db, (h, w))
     | None \<Rightarrow>
         (case make_SQLDatabase A (c_str (path_append P (databases_folder c) name))
                 (sint (busy_timeout_ms c)) w of
            None \<Rightarrow> None
          | Some (Inl e, w') \<Rightarrow> Some (Inl e, (h, w'))
          | Some (Inr db, w') \<Rightarrow>
              Some (Inr db, (h\<lparr>m_databases := (m_databases h)(name \<mapsto> db)\<rparr>, w'))))"

text \<open>\<^verbatim>\<open>catch (const SQLException &e)\<close>: every other exception passes.\<close>

definition catch_sql ::
    "(exn, 's, 'a) prog \<Rightarrow> (int \<Rightarrow> string \<Rightarrow> (exn, 's, 'a) prog) \<Rightarrow> (exn, 's, 'a) prog" where
  "catch_sql m f s =
     (case m s of Some (Inl (SQLException code what), t) \<Rightarrow> f code what t | r \<Rightarrow> r)"

section \<open>The command handlers\<close>

definition handle_query ::
    "'w platform \<Rightarrow> 'w sqlite_api \<Rightarrow> config \<Rightarrow> json \<Rightarrow> (exn, handler \<times> 'w, u8 list) prog" where
  "handle_query P A c j =
     (case json_find j ''db'' of
        None \<Rightarrow> respond P (generic_error NO_DATABASE_SPECIFIED j)
      | Some db \<Rightarrow>
     (case json_find j ''query'' of
        None \<Rightarrow> respond P (generic_error ERROR_READING_FROM_CLIENT j)
      | Some q \<Rightarrow>
          sbind (lift_result (json_string db)) (\<lambda>database_name.
          sbind (lift_result (json_string q)) (\<lambda>query.
          (\<lambda>(h, w).
             if \<not> is_safe_database_name P c w database_name
             then respond P (generic_error NO_DATABASE_SPECIFIED j) (h, w)
             else catch_sql
               (sbind (get_database_connection P A c database_name) (\<lambda>database.
                sbind (on_world (run_query A database query)) (\<lambda>(names, rows).
                respond P (query_result names rows))))
               (\<lambda>code what. respond P (sql_error code what j)) (h, w))))))"

definition handle_list :: "'w platform \<Rightarrow> config \<Rightarrow> (exn, handler \<times> 'w, u8 list) prog" where
  "handle_list P c = (\<lambda>(h, w).
     if is_directory P (databases_folder c) w
     then (case list_directory P (databases_folder c) w of
             None \<Rightarrow> throw Filesystem_error (h, w)
           | Some names \<Rightarrow>
               respond P (json_obj [(''list'', JArr (map JStr
                 (filter (\<lambda>n. is_regular_file P (path_append P (databases_folder c) n) w \<and>
                              \<not> is_sqlite_sidecar_file P n) names)))]) (h, w))
     else respond P (json_obj [(''list'', JArr [])]) (h, w))"

text \<open>
  Dropping the last reference to a connection closes it; the handler holds the only lasting one.
\<close>

definition erase_database :: "'w sqlite_api \<Rightarrow> string \<Rightarrow> handler \<times> 'w \<Rightarrow> handler \<times> 'w" where
  "erase_database A name = (\<lambda>(h, w).
     case m_databases h name of
       None \<Rightarrow> (h, w)
     | Some db \<Rightarrow> (h\<lparr>m_databases := (m_databases h)(name := None)\<rparr>, SQLDatabase_dtor A db w))"

text \<open>
  The destructor of a handler closes every database it still holds. The names stand for the order
  in which the map is torn down, which the language leaves open.
\<close>

definition RequestHandler_dtor :: "'w sqlite_api \<Rightarrow> handler \<Rightarrow> string list \<Rightarrow> 'w \<Rightarrow> 'w" where
  "RequestHandler_dtor A h =
     fold (\<lambda>name w. case m_databases h name of Some db \<Rightarrow> SQLDatabase_dtor A db w | None \<Rightarrow> w)"

definition handle_delete_db ::
    "'w platform \<Rightarrow> 'w sqlite_api \<Rightarrow> config \<Rightarrow> json \<Rightarrow> (exn, handler \<times> 'w, u8 list) prog" where
  "handle_delete_db P A c j =
     (case json_find j ''db'' of
        None \<Rightarrow> respond P (generic_error NO_DATABASE_SPECIFIED j)
      | Some db \<Rightarrow>
          sbind (lift_result (json_string db)) (\<lambda>database_name.
          (\<lambda>(h, w).
             if \<not> is_safe_database_name P c w database_name
             then respond P (generic_error NO_DATABASE_SPECIFIED j) (h, w)
             else (case fs_remove P (path_append P (databases_folder c) database_name) w of
                     (None, w') \<Rightarrow> throw Filesystem_error (h, w')
                   | (Some removed, w') \<Rightarrow>
                       respond P (result_json (if removed then ''ok'' else ''error''))
                         (if removed then erase_database A database_name (h, w') else (h, w'))))))"

section \<open>Dispatch\<close>

definition dispatch ::
    "'w platform \<Rightarrow> 'w sqlite_api \<Rightarrow> config \<Rightarrow> string \<Rightarrow> json \<Rightarrow> (exn, handler \<times> 'w, u8 list) prog" where
  "dispatch P A c req j =
     (case json_find j ''cmd'' of
        None \<Rightarrow> respond P (generic_error NO_COMMAND_SPECIFIED (JStr req))
      | Some v \<Rightarrow>
          sbind (lift_result (json_string v)) (\<lambda>cmd.
            if iequals P cmd ''QUERY'' then handle_query P A c j
            else if iequals P cmd ''LIST'' then handle_list P c
            else if iequals P cmd ''DELETE_DB'' then handle_delete_db P A c j
            else respond P (generic_error UNKNOWN_COMMAND (JStr req))))"

text \<open>Does the request carry the configured password?\<close>

definition auth_matches :: "config \<Rightarrow> json \<Rightarrow> bool" where
  "auth_matches c j = (case json_find j ''auth'' of Some (JStr s) \<Rightarrow> s = auth c | _ \<Rightarrow> False)"

definition handle_request ::
    "'w platform \<Rightarrow> 'w sqlite_api \<Rightarrow> config \<Rightarrow> string \<Rightarrow> (exn, handler \<times> 'w, u8 list) prog" where
  "handle_request P A c req = (\<lambda>(h, w).
     case parse_request P req of
       Inl (Json_parse_error what) \<Rightarrow> respond P (invalid_format what req) (h, w)
     | Inl e \<Rightarrow> throw e (h, w)
     | Inr j \<Rightarrow>
         if auth c \<noteq> [] \<and> auth_matches c j
         then respond P (result_json ''ok'') (h\<lparr>m_authenticated := True\<rparr>, w)
         else if auth c \<noteq> [] \<and> \<not> m_authenticated h
         then respond P (result_json ''error'') (h, w)
         else dispatch P A c req j (h, w))"

section \<open>Basic facts\<close>

lemma respond_eq [handler_simps]: "respond P j s = Some (make_Response (json_dump P) j, s)"
  by (simp add: respond_def lift_result_def)

lemma on_world_eq [handler_simps]:
  "on_world m (h, w) = map_option (\<lambda>(r, w'). (r, (h, w'))) (m w)"
  by (simp add: on_world_def)

lemma catch_sql_eq [handler_simps]:
  "m s = Some (Inr x, t) \<Longrightarrow> catch_sql m f s = Some (Inr x, t)"
  "m s = Some (Inl (SQLException code what), t) \<Longrightarrow> catch_sql m f s = f code what t"
  by (simp_all add: catch_sql_def)

lemma sbind_respond: "sbind (\<lambda>s. Some (Inr x, g s)) f s = f x (g s)"
  by (simp add: sbind_def)

section \<open>Hexadecimal text of a blob\<close>

text \<open>The reference: two digits per byte, most significant first, and the reader's inverse.\<close>

definition hex_digit :: "char \<Rightarrow> nat option" where
  "hex_digit c =
     (let n = of_char c :: nat
      in if 48 \<le> n \<and> n \<le> 57 then Some (n - 48)
         else if 97 \<le> n \<and> n \<le> 102 then Some (n - 87) else None)"

fun unhex :: "string \<Rightarrow> u8 list option" where
  "unhex [] = Some []"
| "unhex [_] = None"
| "unhex (a # b # s) =
     (case (hex_digit a, hex_digit b, unhex s) of
        (Some x, Some y, Some bs) \<Rightarrow> Some (of_nat (16 * x + y) # bs)
      | _ \<Rightarrow> None)"

lemma all_less_16: "(\<forall>i < 16. Q i) \<longleftrightarrow> list_all Q [0..<16]" for Q :: "nat \<Rightarrow> bool"
  by (auto simp: list_all_iff)

lemma hex_digit_hexmap: "i < 16 \<Longrightarrow> hex_digit (hexmap ! i) = Some i"
proof -
  have "\<forall>i < 16. hex_digit (hexmap ! i) = Some i"
    unfolding all_less_16 by code_simp
  then show "i < 16 \<Longrightarrow> hex_digit (hexmap ! i) = Some i" by blast
qed

lemma nibbles:
  shows "unat (drop_bit 4 ((scast b :: u32) AND 0xF0)) = unat (b :: u8) div 16"
    and "unat ((scast b :: u32) AND 0x0F) = unat b mod 16"
proof -
  have hi: "drop_bit 4 ((scast b :: u32) AND 0xF0) = ucast (drop_bit 4 b)"
  proof (rule bit_word_eqI)
    fix n :: nat
    consider "n < 3" | "n = 3" | "n > 3" by linarith
    then show "bit (drop_bit 4 ((scast b :: u32) AND 0xF0)) n = bit (ucast (drop_bit 4 b) :: u32) n"
      by cases (auto simp: bit_simps dest: bit_imp_le_length)
  qed
  have lo: "(scast b :: u32) AND 0x0F = ucast (take_bit 4 b)"
    by (rule bit_word_eqI) (auto simp: bit_simps min_def)
  show "unat (drop_bit 4 ((scast b :: u32) AND 0xF0)) = unat b div 16"
    unfolding hi by (subst unat_ucast_up, simp, subst unat_drop_bit_div, simp)
  show "unat ((scast b :: u32) AND 0x0F) = unat b mod 16"
    unfolding lo by (subst unat_ucast_up, simp, simp add: take_bit_eq_mod unat_mod)
qed

lemma hex_byte_eq: "hex_byte b = [hexmap ! (unat b div 16), hexmap ! (unat b mod 16)]"
  unfolding hex_byte_def Let_def nibbles ..

lemma unhex_hex_byte: "unhex s = Some bs \<Longrightarrow> unhex (hex_byte b @ s) = Some (b # bs)"
proof -
  have "unat b div 16 < 16" using u8_lt [of b] by simp
  then show "unhex s = Some bs \<Longrightarrow> unhex (hex_byte b @ s) = Some (b # bs)"
    by (simp add: hex_byte_eq hex_digit_hexmap mult.commute)
qed

lemma hexStr_whole: "hexStr data (length data) = concat (map hex_byte data)"
  by (simp add: hexStr_def map_nth flip: map_map [unfolded comp_def])

lemma unhex_hexStr: "unhex (hexStr data (length data)) = Some data"
  unfolding hexStr_whole by (induction data) (auto simp: unhex_hex_byte)

section \<open>Rows\<close>

lemma fold_add_column_sorted:
  "key_sorted row \<Longrightarrow> key_sorted (fold (add_column A st w) is row)"
  by (induction "is" arbitrary: row) (auto simp: add_column_def split: option.splits)

lemma column_value_known: "column_value A st i w \<noteq> None \<longleftrightarrow> sq_column_type A st i w \<in> {0..5}"
  by (auto simp: column_value_def Let_def)

lemma row_data_missing:
  "json_find (row_data A st n w) name = None \<longleftrightarrow>
     (\<forall>i < n. c_str (sq_column_name A st i w) = name \<longrightarrow> sq_column_type A st i w \<notin> {0..5})"
proof (induction n)
  case (Suc n)
  then show ?case
    using column_value_known [of A st n w]
    by (auto simp: row_data_def add_column_def less_Suc_eq split: option.splits)
qed (simp add: row_data_def)

text \<open>The last column of a name whose type is known decides.\<close>

lemma row_data_last:
  assumes "i < n" "c_str (sq_column_name A st i w) = name" "sq_column_type A st i w \<in> {0..5}"
    and "\<forall>j < n. i < j \<and> c_str (sq_column_name A st j w) = name \<longrightarrow> sq_column_type A st j w \<notin> {0..5}"
  shows "json_find (row_data A st n w) name = column_value A st i w"
  using assms
proof (induction n)
  case (Suc n)
  show ?case
  proof (cases "i = n")
    case True
    with Suc.prems column_value_known [of A st n w] show ?thesis
      by (auto simp: row_data_def add_column_def split: option.splits)
  next
    case False
    then have "json_find (row_data A st n w) name = column_value A st i w"
      using Suc.prems by (intro Suc.IH) auto
    moreover have "c_str (sq_column_name A st n w) \<noteq> name \<or> column_value A st n w = None"
      using Suc.prems False column_value_known [of A st n w] by (auto simp: less_Suc_eq)
    ultimately show ?thesis by (auto simp: row_data_def add_column_def split: option.splits)
  qed
qed simp

text \<open>What the six known types of a column become.\<close>

lemma column_value_documented:
  assumes "sq_column_type A st i w \<in> {0..5}"
  shows "\<exists>v. column_value A st i w = Some v \<and>
     (sq_column_type A st i w = 1 \<longrightarrow> v = JInt (sq_value_int64 A st i w)) \<and>
     (sq_column_type A st i w = 2 \<longrightarrow> v = JFloat (sq_value_double A st i w)) \<and>
     (sq_column_type A st i w = 3 \<longrightarrow>
        v = JStr (takeWhile (\<lambda>c. c \<noteq> CHR 0x00) (sq_value_text A st i w))) \<and>
     (sq_column_type A st i w = 4 \<and> sq_value_bytes A st i w = length (sq_value_blob A st i w) \<longrightarrow>
        (\<exists>hex. v = JStr (''X'' @ [CHR 0x27] @ hex @ [CHR 0x27]) \<and>
           unhex hex = Some (sq_value_blob A st i w))) \<and>
     (sq_column_type A st i w \<in> {0, 5} \<longrightarrow> v = JNull)"
proof -
  have "sq_column_type A st i w \<in> {0, 1, 2, 3, 4, 5}" using assms by auto
  then show ?thesis
    by (elim insertE emptyE) (simp_all add: column_value_def c_str_def unhex_hexStr)
qed

lemma row_data_wf: "json_wf (row_data A st n w)"
proof -
  have "column_value A st i w = Some v \<Longrightarrow> json_wf v" for i v
    by (auto simp: column_value_def Let_def split: if_splits)
  then have vals: "\<forall>p \<in> set row. json_wf (snd p) \<Longrightarrow>
      \<forall>p \<in> set (fold (add_column A st w) is row). json_wf (snd p)" for "is" row
  proof (induction "is" arbitrary: row)
    case (Cons i "is")
    have "\<forall>p \<in> set (add_column A st w i row). json_wf (snd p)"
      using Cons.prems vals_alist_put [of "c_str (sq_column_name A st i w)" _ row]
      by (fastforce simp: add_column_def split: option.splits)
    with Cons show ?case by simp
  qed simp
  show ?thesis
    using vals [of "[]" "[0..<n]"] by (simp add: row_data_def fold_add_column_sorted)
qed

section \<open>Stepping a statement\<close>

text \<open>
  \<open>yields A st n w rows w'\<close>: from \<open>w\<close> the engine delivers exactly \<open>rows\<close> and then reports that the
  statement is done, in \<open>w'\<close>. \<open>fails\<close>: some rows, then an answer that is neither a row nor done.
\<close>

inductive yields :: "'w sqlite_api \<Rightarrow> nat \<Rightarrow> nat \<Rightarrow> 'w \<Rightarrow> json list \<Rightarrow> 'w \<Rightarrow> bool"
  for A st n where
  yields_done: "sq_step A st w = (SQLITE_DONE, w') \<Longrightarrow> yields A st n w [] w'"
| yields_row: "sq_step A st w = (SQLITE_ROW, w1) \<Longrightarrow> yields A st n w1 rows w' \<Longrightarrow>
     yields A st n w (row_data A st n w1 # rows) w'"

inductive fails :: "'w sqlite_api \<Rightarrow> nat \<Rightarrow> 'w \<Rightarrow> 'w \<Rightarrow> bool" for A st where
  fails_now: "sq_step A st w = (rc, w') \<Longrightarrow> rc \<noteq> SQLITE_ROW \<Longrightarrow> rc \<noteq> SQLITE_DONE \<Longrightarrow> fails A st w w'"
| fails_later: "sq_step A st w = (SQLITE_ROW, w1) \<Longrightarrow> fails A st w1 w' \<Longrightarrow> fails A st w w'"

definition step_error :: "'w sqlite_api \<Rightarrow> nat \<Rightarrow> 'w \<Rightarrow> exn" where
  "step_error A st w =
     SQLException (sq_extended_errcode A (sq_db_handle A st w) w)
       (sq_errmsg A (sq_db_handle A st w) w)"

lemma fetch_rows_yields:
  "yields A st n w rows w' \<Longrightarrow> fetch_rows A st n acc w = Some (Inr (acc @ rows), w')"
proof (induction arbitrary: acc rule: yields.induct)
  case (yields_done w w')
  then show ?case
    by (subst fetch_rows.simps) (simp add: next_row_eq sqlite_codes)
next
  case (yields_row w w1 rows w')
  then show ?case
    by (subst fetch_rows.simps) (simp add: next_row_eq sqlite_codes)
qed

lemma fetch_rows_fails:
  "fails A st w w' \<Longrightarrow> fetch_rows A st n acc w = Some (Inl (step_error A st w'), w')"
proof (induction arbitrary: acc rule: fails.induct)
  case (fails_now w rc w')
  then show ?case
    by (subst fetch_rows.simps) (simp add: next_row_eq step_error_def)
next
  case (fails_later w w1 w')
  then show ?case
    by (subst fetch_rows.simps) (simp add: next_row_eq)
qed

text \<open>What one call of the loop may come to.\<close>

definition fetch_outcome ::
    "'w sqlite_api \<Rightarrow> nat \<Rightarrow> nat \<Rightarrow> json list \<Rightarrow> 'w \<Rightarrow> (exn + json list) \<times> 'w \<Rightarrow> bool" where
  "fetch_outcome A st n acc w q \<longleftrightarrow>
     (\<exists>rows. fst q = Inr (acc @ rows) \<and> yields A st n w rows (snd q)) \<or>
     (fst q = Inl (step_error A st (snd q)) \<and> fails A st w (snd q))"

lemma fetch_rows_complete:
  assumes "fetch_rows A st n acc w = Some q"
  shows "fetch_outcome A st n acc w q"
proof (rule fetch_rows.raw_induct [where P = fetch_outcome, OF _ assms])
  fix f and A :: "'a sqlite_api" and st n acc w q
  assume IH: "\<And>A st n acc w q. f A st n acc w = Some q \<Longrightarrow> fetch_outcome A st n acc w q"
    and eq: "(case next_row A st w of None \<Rightarrow> None | Some (Inl e, w') \<Rightarrow> Some (Inl e, w')
       | Some (Inr got, w') \<Rightarrow>
           if got then f A st n (acc @ [row_data A st n w']) w' else Some (Inr acc, w')) = Some q"
  obtain rc w1 where step: "sq_step A st w = (rc, w1)" by fastforce
  consider (row) "rc = SQLITE_ROW" | (fin) "rc = SQLITE_DONE" | (err) "rc \<noteq> SQLITE_ROW" "rc \<noteq> SQLITE_DONE"
    by blast
  then show "fetch_outcome A st n acc w q"
  proof cases
    case row
    with eq step have "f A st n (acc @ [row_data A st n w1]) w1 = Some q"
      by (simp add: next_row_eq)
    then have "fetch_outcome A st n (acc @ [row_data A st n w1]) w1 q" by (rule IH)
    then show ?thesis
      using step row unfolding fetch_outcome_def by (auto intro: yields_row fails_later)
  next
    case fin
    with eq step have "q = (Inr acc, w1)" by (simp add: next_row_eq sqlite_codes)
    with step fin show ?thesis by (auto simp: fetch_outcome_def intro: yields_done)
  next
    case err
    with eq step have "q = (Inl (step_error A st w1), w1)"
      by (simp add: next_row_eq step_error_def)
    with step err show ?thesis by (auto simp: fetch_outcome_def intro: fails_now)
  qed
qed

section \<open>The life of a statement\<close>

lemma run_statement_yields:
  assumes "yields A st (sq_column_count A st w) w rows w'"
  shows "run_statement A st w =
     Some (Inr (column_names A st (sq_column_count A st w) w, rows), SQLStatement_dtor A st w')"
  using fetch_rows_yields [OF assms, of "[]"]
  by (simp add: run_statement_def ensure_def Let_def sbind_eq ret_def)

lemma run_statement_fails:
  assumes "fails A st w w'"
  shows "run_statement A st w = Some (Inl (step_error A st w'), SQLStatement_dtor A st w')"
  using fetch_rows_fails [OF assms, of "sq_column_count A st w" "[]"]
  by (simp add: run_statement_def ensure_def Let_def sbind_eq)

lemma run_statement_cases:
  assumes "run_statement A st w = Some (r, w'')"
  obtains (completed) rows w' where "yields A st (sq_column_count A st w) w rows w'"
      "r = Inr (column_names A st (sq_column_count A st w) w, rows)"
      "w'' = SQLStatement_dtor A st w'"
  | (failed) w' where "fails A st w w'" "r = Inl (step_error A st w')"
      "w'' = SQLStatement_dtor A st w'"
proof -
  let ?n = "sq_column_count A st w"
  from assms obtain q where q: "fetch_rows A st ?n [] w = Some q"
    by (auto simp: run_statement_def ensure_def Let_def sbind_def split: option.splits)
  from fetch_rows_complete [OF q] show thesis
    unfolding fetch_outcome_def
  proof (elim disjE exE conjE)
    fix rows assume "yields A st ?n w rows (snd q)"
    from this run_statement_yields [OF this] show thesis using assms by (intro completed) auto
  next
    assume "fails A st w (snd q)"
    from this run_statement_fails [OF this] show thesis using assms by (intro failed) auto
  qed
qed

lemma run_query_prepared:
  "make_SQLStatement A db query w = Some (Inr st, w') \<Longrightarrow> run_query A db query w = run_statement A st w'"
  by (simp add: run_query_def sbind_eq)

lemma run_query_rejected:
  "make_SQLStatement A db query w = Some (Inl e, w') \<Longrightarrow> run_query A db query w = Some (Inl e, w')"
  by (simp add: run_query_def sbind_eq)

lemma run_query_throws_sql:
  assumes "run_query A db query w = Some (Inl e, w')"
  obtains code what where "e = SQLException code what"
proof -
  from assms show thesis
    unfolding run_query_def
  proof (rule sbind_InlE)
    assume "make_SQLStatement A db query w = Some (Inl e, w')"
    then show thesis using that by (rule make_SQLStatement_Inl)
  next
    fix st w1 assume "run_statement A st w1 = Some (Inl e, w')"
    then show thesis by (cases rule: run_statement_cases) (auto simp: step_error_def intro: that)
  qed
qed

section \<open>Connections\<close>

lemma get_database_connection_cached:
  "m_databases h name = Some db \<Longrightarrow> get_database_connection P A c name (h, w) = Some (Inr db, (h, w))"
  by (simp add: get_database_connection_def)

lemma get_database_connection_Inr:
  assumes "get_database_connection P A c name (h, w) = Some (Inr db, (h', w'))"
  shows "m_databases h' name = Some db"
    and "m_authenticated h' = m_authenticated h"
    and "\<And>other. other \<noteq> name \<Longrightarrow> m_databases h' other = m_databases h other"
  using assms by (auto simp: get_database_connection_def split: option.splits sum.splits)

lemma get_database_connection_throws:
  assumes "get_database_connection P A c name (h, w) = Some (Inl e, s)"
  shows "fst s = h" and "\<exists>code what. e = SQLException code what"
proof -
  have "fst s = h \<and> (\<exists>code what. e = SQLException code what)"
    using assms
    by (auto simp: get_database_connection_def split: option.splits sum.splits)
       (metis make_SQLDatabase_Inl)
  then show "fst s = h" "\<exists>code what. e = SQLException code what" by auto
qed

section \<open>Queries\<close>

text \<open>What the body of \<^verbatim>\<open>handle_query\<close> does once the request is well formed and the name is safe.\<close>

lemma handle_query_body:
  assumes "json_find j ''db'' = Some (JStr name)" and "json_find j ''query'' = Some (JStr query)"
    and "is_safe_database_name P c w name"
  shows "handle_query P A c j (h, w) = catch_sql
       (sbind (get_database_connection P A c name) (\<lambda>database.
        sbind (on_world (run_query A database query)) (\<lambda>(names, rows).
        respond P (query_result names rows))))
       (\<lambda>code what. respond P (sql_error code what j)) (h, w)"
  using assms by (simp add: handle_query_def)

lemma handle_query_success:
  assumes "json_find j ''db'' = Some (JStr name)" and "json_find j ''query'' = Some (JStr query)"
    and "is_safe_database_name P c w name"
    and "get_database_connection P A c name (h, w) = Some (Inr db, (h1, w1))"
    and "run_query A db query w1 = Some (Inr (names, rows), w2)"
  shows "handle_query P A c j (h, w) =
     Some (make_Response (json_dump P) (query_result names rows), (h1, w2))"
  by (subst handle_query_body [OF assms(1-3)])
     (auto simp: assms(4,5) catch_sql_def sbind_eq on_world_eq respond_eq make_Response_def
       split: option.splits)

lemma handle_query_sql_error:
  assumes "json_find j ''db'' = Some (JStr name)" and "json_find j ''query'' = Some (JStr query)"
    and "is_safe_database_name P c w name"
    and "get_database_connection P A c name (h, w) = Some (Inr db, (h1, w1))"
    and "run_query A db query w1 = Some (Inl (SQLException code what), w2)"
  shows "handle_query P A c j (h, w) =
     Some (make_Response (json_dump P) (sql_error code what j), (h1, w2))"
  by (subst handle_query_body [OF assms(1-3)])
     (simp add: assms(4,5) catch_sql_def sbind_eq on_world_eq respond_eq)

lemma handle_query_open_error:
  assumes "json_find j ''db'' = Some (JStr name)" and "json_find j ''query'' = Some (JStr query)"
    and "is_safe_database_name P c w name"
    and "get_database_connection P A c name (h, w) = Some (Inl (SQLException code what), s)"
  shows "handle_query P A c j (h, w) = Some (make_Response (json_dump P) (sql_error code what j), s)"
  by (subst handle_query_body [OF assms(1-3)])
     (simp add: assms(4) catch_sql_def sbind_eq respond_eq)

section \<open>What the handlers keep\<close>

text \<open>
  A handler keeps finitely many connections, each opened under a relative, non-empty name.
\<close>

definition handler_inv :: "'w platform \<Rightarrow> handler \<Rightarrow> bool" where
  "handler_inv P h \<longleftrightarrow>
     finite (dom (m_databases h)) \<and>
     (\<forall>name \<in> dom (m_databases h). name \<noteq> [] \<and> \<not> path_is_absolute P name)"

lemma handler_inv_new [simp]: "handler_inv P new_RequestHandler"
  by (simp add: handler_inv_def new_RequestHandler_def)

lemma is_safe_relative: "is_safe_database_name P c w name \<Longrightarrow> name \<noteq> [] \<and> \<not> path_is_absolute P name"
  by (auto simp: is_safe_database_name_def split: if_splits)

lemma get_database_connection_inv:
  assumes "handler_inv P h" "name \<noteq> []" "\<not> path_is_absolute P name"
    and "get_database_connection P A c name (h, w) = Some (r, (h', w'))"
  shows "handler_inv P h'"
proof -
  have "dom (m_databases h') \<subseteq> insert name (dom (m_databases h))"
    using assms(4) by (auto simp: get_database_connection_def split: option.splits sum.splits if_splits)
  then show ?thesis
    using assms(1-3) finite_subset [of "dom (m_databases h')" "insert name (dom (m_databases h))"]
    unfolding handler_inv_def by blast
qed

lemma get_database_connection_auth:
  "get_database_connection P A c name (h, w) = Some (r, (h', w')) \<Longrightarrow>
     m_authenticated h' = m_authenticated h"
  by (auto simp: get_database_connection_def split: option.splits sum.splits)

lemma respond_state: "respond P j s = Some (r, s') \<Longrightarrow> s' = s"
  by (simp add: respond_eq)

lemma handle_query_state:
  assumes "handle_query P A c j (h, w) = Some (r, (h', w'))"
  shows "(h', w') = (h, w) \<or>
    (\<exists>name x w1. is_safe_database_name P c w name \<and>
       get_database_connection P A c name (h, w) = Some (x, (h', w1)))"
proof (cases "\<exists>name query. json_find j ''db'' = Some (JStr name) \<and>
    json_find j ''query'' = Some (JStr query) \<and> is_safe_database_name P c w name")
  case True
  then obtain name query where jn: "json_find j ''db'' = Some (JStr name)"
    "json_find j ''query'' = Some (JStr query)" and safe: "is_safe_database_name P c w name" by blast
  have "\<exists>x w1. get_database_connection P A c name (h, w) = Some (x, (h', w1))"
    using assms unfolding handle_query_body [OF jn safe]
    by (auto simp: catch_sql_def sbind_def on_world_eq respond_eq map_option_case
        split: option.splits sum.splits exn.splits prod.splits)
  with safe show ?thesis by blast
next
  case False
  show ?thesis
  proof (cases "\<exists>db q. json_find j ''db'' = Some db \<and> json_find j ''query'' = Some q")
    case True
    then obtain db q where jn: "json_find j ''db'' = Some db" "json_find j ''query'' = Some q" by blast
    show ?thesis
      using assms False jn
      by (cases "json_string db"; cases "json_string q")
         (auto simp: handle_query_def respond_eq throw_def)
  next
    case none: False
    with assms show ?thesis by (auto simp: handle_query_def respond_eq split: option.splits)
  qed
qed

lemma handle_list_state: "handle_list P c (h, w) = Some (r, s) \<Longrightarrow> s = (h, w)"
  by (auto simp: handle_list_def respond_eq throw_def split: if_splits option.splits)

lemma handle_delete_db_handler:
  assumes "handle_delete_db P A c j (h, w) = Some (r, (h', w'))"
  shows "m_authenticated h' = m_authenticated h" and "dom (m_databases h') \<subseteq> dom (m_databases h)"
proof -
  have "m_authenticated h' = m_authenticated h \<and> dom (m_databases h') \<subseteq> dom (m_databases h)"
  proof (cases "json_find j ''db''")
    case (Some db)
    then show ?thesis
      using assms
      by (cases db)
         (auto simp: handle_delete_db_def respond_eq throw_def erase_database_def
           split: if_splits option.splits prod.splits)
  qed (use assms in \<open>auto simp: handle_delete_db_def respond_eq\<close>)
  then show "m_authenticated h' = m_authenticated h" "dom (m_databases h') \<subseteq> dom (m_databases h)"
    by auto
qed

lemma dispatch_cases:
  assumes "dispatch P A c req j s = Some (r, s')"
  obtains "s' = s" | "handle_query P A c j s = Some (r, s')" | "handle_list P c s = Some (r, s')"
  | "handle_delete_db P A c j s = Some (r, s')"
proof (cases "json_find j ''cmd''")
  case None
  with assms show thesis by (auto simp: dispatch_def respond_eq intro: that)
next
  case (Some v)
  with assms show thesis
    by (cases "json_string v")
       (auto simp: dispatch_def respond_eq throw_def split: if_splits intro: that)
qed

lemma dispatch_keeps:
  assumes "dispatch P A c req j (h, w) = Some (r, (h', w'))"
  shows "m_authenticated h' = m_authenticated h" and "handler_inv P h \<Longrightarrow> handler_inv P h'"
proof -
  from assms have "m_authenticated h' = m_authenticated h \<and> (handler_inv P h \<longrightarrow> handler_inv P h')"
  proof (cases rule: dispatch_cases)
    case 2
    from handle_query_state [OF this] show ?thesis
      by (auto dest: get_database_connection_auth get_database_connection_inv is_safe_relative)
  next
    case 4
    from handle_delete_db_handler [OF this] show ?thesis
      by (auto simp: handler_inv_def intro: finite_subset)
  qed (auto dest: handle_list_state)
  then show "m_authenticated h' = m_authenticated h" "handler_inv P h \<Longrightarrow> handler_inv P h'" by auto
qed

lemma handle_request_keeps:
  assumes "handle_request P A c req (h, w) = Some (r, (h', w'))"
  shows "m_authenticated h \<Longrightarrow> m_authenticated h'" and "handler_inv P h \<Longrightarrow> handler_inv P h'"
proof -
  have "(m_authenticated h \<longrightarrow> m_authenticated h') \<and> (handler_inv P h \<longrightarrow> handler_inv P h')"
  proof (cases "parse_request P req")
    case (Inl e)
    with assms show ?thesis
      by (auto simp: handle_request_def respond_eq throw_def split: exn.splits)
  next
    case (Inr j)
    with assms show ?thesis
      by (auto simp: handle_request_def respond_eq handler_inv_def [of P "_\<lparr>m_authenticated := _\<rparr>"]
          split: if_splits dest: dispatch_keeps)
         (auto simp: handler_inv_def)
  qed
  then show "m_authenticated h \<Longrightarrow> m_authenticated h'" "handler_inv P h \<Longrightarrow> handler_inv P h'" by auto
qed

section \<open>Before authentication\<close>

definition carries_password :: "'w platform \<Rightarrow> config \<Rightarrow> string \<Rightarrow> bool" where
  "carries_password P c req = (case parse_request P req of Inr j \<Rightarrow> auth_matches c j | Inl _ \<Rightarrow> False)"

text \<open>
  The answer to such a request, or the exception it ends with: a format error that echoes the
  text, the exception of the parser that is not a parse error, or the refusal.
\<close>

definition refused :: "'w platform \<Rightarrow> string \<Rightarrow> exn + u8 list" where
  "refused P req =
     (case parse_request P req of
        Inl (Json_parse_error what) \<Rightarrow> make_Response (json_dump P) (invalid_format what req)
      | Inl e \<Rightarrow> Inl e
      | Inr _ \<Rightarrow> make_Response (json_dump P) (result_json ''error''))"

lemma handle_request_unauthenticated:
  assumes "auth c \<noteq> []" and "\<not> m_authenticated h" and "\<not> carries_password P c req"
  shows "handle_request P A c req (h, w) = Some (refused P req, (h, w))"
  using assms
  by (auto simp: handle_request_def refused_def respond_eq carries_password_def throw_def
      split: sum.splits exn.splits)

lemma handle_request_password:
  assumes "auth c \<noteq> []" and "carries_password P c req"
  shows "handle_request P A c req (h, w) =
     Some (make_Response (json_dump P) (result_json ''ok''), (h\<lparr>m_authenticated := True\<rparr>, w))"
  using assms by (auto simp: handle_request_def carries_password_def respond_eq split: sum.splits)

text \<open>No database is opened before the handler has seen the password.\<close>

definition auth_first :: "config \<Rightarrow> handler \<Rightarrow> bool" where
  "auth_first c h \<longleftrightarrow> auth c = [] \<or> m_authenticated h \<or> m_databases h = Map.empty"

lemma auth_first_new [simp]: "auth_first c new_RequestHandler"
  by (simp add: auth_first_def new_RequestHandler_def)

lemma handle_request_auth_first:
  assumes "auth_first c h" "handle_request P A c req (h, w) = Some (r, (h', w'))"
  shows "auth_first c h'"
proof (cases "auth c = [] \<or> m_authenticated h")
  case True
  with handle_request_keeps(1) [OF assms(2)] show ?thesis by (auto simp: auth_first_def)
next
  case False
  with assms handle_request_unauthenticated [of c h P req A w] handle_request_password [of c P req A h w]
  show ?thesis by (cases "carries_password P c req") (auto simp: auth_first_def)
qed

lemma RequestHandler_dtor_empty [simp]:
  "m_databases h = Map.empty \<Longrightarrow> RequestHandler_dtor A h names w = w"
  by (induction names arbitrary: w) (auto simp: RequestHandler_dtor_def)

end
