(* ===== verification/Sqlite_Socket.thy ===== *)
theory Sqlite_Socket
  imports Request_Handler
begin

text \<open>
  \<^verbatim>\<open>Socket.h\<close>, \<^verbatim>\<open>Socket.cpp\<close>, \<^verbatim>\<open>SQLiteSocket.h\<close>, \<^verbatim>\<open>SQLiteSocket.cpp\<close> and \<^verbatim>\<open>IRequestHandler.h\<close>: the
  connection. It alternates between reading a header and reading a body, hands the body to its
  request handler and queues the response; a completed write starts the next one. Completion
  handlers are the operations of a state machine. The state of the request handler is a type
  parameter \<open>'s\<close>, since the class only knows the interface \<^verbatim>\<open>IRequestHandler\<close>.
\<close>

section \<open>State\<close>

text \<open>Which asynchronous read the connection is waiting for.\<close>

datatype read_phase = AwaitHeader | AwaitBody | ReadStopped

text \<open>
  The members of the class, with what Asio knows of it: \<open>phase\<close>, whether the socket is open, the
  buffer of the write in flight. \<open>delivered\<close> records the buffers whose writes completed, and
  \<open>write_failed\<close> that a write ended with an error.
\<close>

record 's connection =
  m_packet_size :: u32
  m_request :: string
  m_handler :: 's
  m_out_packets :: "u8 list list"
  phase :: read_phase
  is_open :: bool
  in_flight :: "u8 list option"
  delivered :: "u8 list list"
  write_failed :: bool

definition new_SQLiteSocket :: "'s \<Rightarrow> 's connection" where
  "new_SQLiteSocket s =
     \<lparr>m_packet_size = 0, m_request = [], m_handler = s, m_out_packets = [], phase = ReadStopped,
      is_open = True, in_flight = None, delivered = [], write_failed = False\<rparr>"

section \<open>Operations\<close>

definition do_read :: "'s connection \<Rightarrow> 's connection" where
  "do_read k = k\<lparr>phase := AwaitHeader\<rparr>"

text \<open>
  The four header bytes are read straight into the member, so their meaning is the byte order of
  the machine.
\<close>

definition host_u32 :: "bool \<Rightarrow> u8 list \<Rightarrow> u32" where
  "host_u32 big_endian bs = (if big_endian then be_u32 bs else le_u32 bs)"

definition resize :: "nat \<Rightarrow> string \<Rightarrow> string" where
  "resize n s = take n s @ replicate (n - length s) (CHR 0x00)"

text \<open>The completion handler of the header read; \<open>ec\<close> tells whether it failed.\<close>

definition on_header :: "bool \<Rightarrow> config \<Rightarrow> bool \<Rightarrow> u8 list \<Rightarrow> 's connection \<Rightarrow> 's connection" where
  "on_header big_endian c ec bs k =
     (if ec then k\<lparr>phase := ReadStopped\<rparr>
      else let k = k\<lparr>m_packet_size := host_u32 big_endian bs\<rparr>
           in if m_packet_size k > client_max_packet_size c
              then k\<lparr>is_open := False, phase := ReadStopped\<rparr>
              else k\<lparr>m_request := resize (unat (m_packet_size k)) (m_request k), phase := AwaitBody\<rparr>)"

definition do_write :: "u8 list \<Rightarrow> 's connection \<Rightarrow> 's connection" where
  "do_write response k = k\<lparr>in_flight := Some response\<rparr>"

definition send_response :: "u8 list \<Rightarrow> 's connection \<Rightarrow> 's connection" where
  "send_response response k =
     (let write_in_progress = (m_out_packets k \<noteq> []);
          k = k\<lparr>m_out_packets := m_out_packets k @ [response]\<rparr>
      in if \<not> write_in_progress then do_write (hd (m_out_packets k)) k else k)"

text \<open>
  The completion handler of the body read: the request is answered and the next read starts. An
  exception of the request handler leaves the completion handler.
\<close>

definition on_body ::
    "(string \<Rightarrow> (exn, 's, u8 list) prog) \<Rightarrow> bool \<Rightarrow> string \<Rightarrow> (exn, 's connection, unit) prog" where
  "on_body handle ec body k =
     (if ec then Some (Inr (), k\<lparr>phase := ReadStopped\<rparr>)
      else let k = k\<lparr>m_request := body\<rparr>
           in case handle (m_request k) (m_handler k) of
                None \<Rightarrow> None
              | Some (Inl e, s) \<Rightarrow> Some (Inl e, k\<lparr>m_handler := s\<rparr>)
              | Some (Inr response, s) \<Rightarrow>
                  Some (Inr (), do_read (send_response response (k\<lparr>m_handler := s\<rparr>))))"

text \<open>
  The completion handler of a write. After an error it does nothing: the response stays at the
  front of the queue and no write is started any more.
\<close>

definition on_write :: "bool \<Rightarrow> 's connection \<Rightarrow> 's connection" where
  "on_write ec k =
     (if ec then k\<lparr>in_flight := None, write_failed := True\<rparr>
      else let k = k\<lparr>m_out_packets := tl (m_out_packets k), in_flight := None,
                     delivered := delivered k @ (case in_flight k of None \<Rightarrow> [] | Some b \<Rightarrow> [b])\<rparr>
           in if m_out_packets k \<noteq> [] then do_write (hd (m_out_packets k)) k else k)"

section \<open>The connection as a state machine\<close>

text \<open>
  One rule per completion that Asio may report, with or without an error, when the handlers of a
  connection run one after the other. The bytes a read delivers fill its buffer exactly. An
  exception that leaves the body handler ends the process, so that there is no step for it.
\<close>

inductive conn_step ::
    "bool \<Rightarrow> config \<Rightarrow> (string \<Rightarrow> (exn, 's, u8 list) prog) \<Rightarrow> 's connection \<Rightarrow> 's connection \<Rightarrow> bool"
  for big_endian c handle where
  recv_header: "phase k = AwaitHeader \<Longrightarrow> length bs = 4 \<Longrightarrow>
     conn_step big_endian c handle k (on_header big_endian c ec bs k)"
| recv_body: "phase k = AwaitBody \<Longrightarrow> length body = length (m_request k) \<Longrightarrow>
     on_body handle ec body k = Some (Inr (), k') \<Longrightarrow> conn_step big_endian c handle k k'"
| write_end: "in_flight k \<noteq> None \<Longrightarrow> conn_step big_endian c handle k (on_write ec k)"

inductive conn_reachable ::
    "bool \<Rightarrow> config \<Rightarrow> (string \<Rightarrow> (exn, 's, u8 list) prog) \<Rightarrow> 's \<Rightarrow> 's connection \<Rightarrow> bool"
  for big_endian c handle s0 where
  start: "conn_reachable big_endian c handle s0 (do_read (new_SQLiteSocket s0))"
| step: "conn_reachable big_endian c handle s0 k \<Longrightarrow> conn_step big_endian c handle k k' \<Longrightarrow>
     conn_reachable big_endian c handle s0 k'"

inductive_cases conn_stepE: "conn_step big_endian c handle k k'"

text \<open>
  The write side: the front of the queue, and nothing else, is being written, until a write fails;
  from then on nothing is written and the failed response stays in the queue. The read side: the
  request buffer never outgrows the configured limit.
\<close>

definition write_inv :: "'s connection \<Rightarrow> bool" where
  "write_inv k \<longleftrightarrow>
     (if write_failed k then in_flight k = None \<and> m_out_packets k \<noteq> []
      else in_flight k = (case m_out_packets k of [] \<Rightarrow> None | r # _ \<Rightarrow> Some r))"

definition read_inv :: "config \<Rightarrow> 's connection \<Rightarrow> bool" where
  "read_inv c k \<longleftrightarrow> length (m_request k) \<le> unat (client_max_packet_size c)"

definition conn_inv :: "config \<Rightarrow> 's connection \<Rightarrow> bool" where
  "conn_inv c k \<longleftrightarrow> write_inv k \<and> read_inv c k"

text \<open>Everything the connection was given to send, in order.\<close>

definition produced :: "'s connection \<Rightarrow> u8 list list" where
  "produced k = delivered k @ m_out_packets k"

lemma length_resize [simp]: "length (resize n s) = n"
  by (simp add: resize_def)

lemma do_read_simps [simp, step_simps]:
  "write_inv (do_read k) = write_inv k" "read_inv c (do_read k) = read_inv c k"
  "produced (do_read k) = produced k" "m_handler (do_read k) = m_handler k"
  "phase (do_read k) = AwaitHeader"
  by (simp_all add: do_read_def write_inv_def read_inv_def produced_def)

lemma send_response_inv: "write_inv k \<Longrightarrow> write_inv (send_response r k)"
  by (auto simp: send_response_def do_write_def write_inv_def Let_def split: list.splits)

lemma send_response_simps [simp, step_simps]:
  "produced (send_response r k) = produced k @ [r]"
  "m_request (send_response r k) = m_request k"
  "m_handler (send_response r k) = m_handler k"
  by (simp_all add: send_response_def do_write_def produced_def Let_def)

lemma on_header_inv: "conn_inv c k \<Longrightarrow> conn_inv c (on_header big_endian c ec bs k)"
  by (auto simp: on_header_def conn_inv_def write_inv_def read_inv_def Let_def word_le_nat_alt not_less
      split: list.splits)

lemma on_header_produced [simp]: "produced (on_header big_endian c ec bs k) = produced k"
  by (simp add: on_header_def produced_def Let_def)

lemma on_body_inv:
  assumes "conn_inv c k" "length body = length (m_request k)" "on_body handle ec body k = Some (r, k')"
  shows "conn_inv c k'"
  using assms
  by (auto simp: on_body_def conn_inv_def write_inv_def read_inv_def Let_def
      split: if_splits option.splits sum.splits list.splits
      dest!: send_response_inv [unfolded write_inv_def])
     (auto simp: send_response_def do_write_def Let_def do_read_def split: if_splits list.splits)

lemma on_write_inv:
  assumes "conn_inv c k" "in_flight k \<noteq> None"
  shows "conn_inv c (on_write ec k)" and "produced (on_write ec k) = produced k"
  using assms
  by (auto simp: on_write_def do_write_def conn_inv_def write_inv_def read_inv_def produced_def Let_def
      split: list.splits if_splits)

lemma conn_step_inv: "conn_step big_endian c handle k k' \<Longrightarrow> conn_inv c k \<Longrightarrow> conn_inv c k'"
  by (elim conn_stepE) (auto intro: on_header_inv on_body_inv on_write_inv)

lemma conn_inv_new: "conn_inv c (do_read (new_SQLiteSocket s))"
  by (simp add: conn_inv_def new_SQLiteSocket_def write_inv_def read_inv_def do_read_def)

lemma conn_reachable_inv: "conn_reachable big_endian c handle s0 k \<Longrightarrow> conn_inv c k"
  by (induction rule: conn_reachable.induct) (auto intro: conn_inv_new conn_step_inv)

text \<open>No step forgets or reorders a response: what was produced stays a prefix.\<close>

lemma conn_step_produced:
  assumes "conn_step big_endian c handle k k'" "conn_inv c k"
  shows "\<exists>new. produced k' = produced k @ new"
  using assms
proof (cases rule: conn_step.cases)
  case (recv_body b ec)
  then show ?thesis
    by (auto simp: on_body_def Let_def produced_def split: if_splits option.splits sum.splits)
       (auto simp: send_response_def do_write_def Let_def do_read_def)
next
  case (write_end ec)
  then show ?thesis using on_write_inv(2) [OF assms(2)] by simp
qed simp

section \<open>Sequential service\<close>

text \<open>
  The contract of a connection, without buffers and callbacks: the requests are answered one
  after the other; an exception ends the service.
\<close>

fun serve :: "(string \<Rightarrow> (exn, 's, u8 list) prog) \<Rightarrow> string list \<Rightarrow> (exn, 's, u8 list list) prog" where
  "serve handle [] s = Some (Inr [], s)"
| "serve handle (req # reqs) s =
     (case handle req s of
        None \<Rightarrow> None
      | Some (Inl e, t) \<Rightarrow> Some (Inl e, t)
      | Some (Inr resp, t) \<Rightarrow>
          (case serve handle reqs t of
             None \<Rightarrow> None
           | Some (Inl e, u) \<Rightarrow> Some (Inl e, u)
           | Some (Inr resps, u) \<Rightarrow> Some (Inr (resp # resps), u)))"

text \<open>
  What the network does to a connection: the header of a request arrives, then \<open>n\<close> writes
  complete, then its body arrives; or a write completes between two requests.
\<close>

datatype event = Request nat string | WriteDone

fun requests :: "event list \<Rightarrow> string list" where
  "requests [] = []"
| "requests (Request n req # es) = req # requests es"
| "requests (WriteDone # es) = requests es"

text \<open>Only a write that was started can complete.\<close>

definition write_done :: "'s connection \<Rightarrow> 's connection" where
  "write_done k = (if in_flight k = None then k else on_write False k)"

fun complete_writes :: "nat \<Rightarrow> 's connection \<Rightarrow> 's connection" where
  "complete_writes 0 k = k"
| "complete_writes (Suc n) k = complete_writes n (write_done k)"

text \<open>
  The connection under a sequence of events. The bytes of a request stay in the socket when no
  read of a header, or then no read of a body, is pending.
\<close>

fun feed ::
    "bool \<Rightarrow> config \<Rightarrow> (string \<Rightarrow> (exn, 's, u8 list) prog) \<Rightarrow> event list \<Rightarrow>
     (exn, 's connection, unit) prog" where
  "feed big_endian c handle [] k = Some (Inr (), k)"
| "feed big_endian c handle (WriteDone # es) k = feed big_endian c handle es (write_done k)"
| "feed big_endian c handle (Request n req # es) k =
     (if phase k \<noteq> AwaitHeader then feed big_endian c handle es k
      else let k1 = complete_writes n
                      (on_header big_endian c False (header_bytes (of_nat (length req))) k)
           in if phase k1 \<noteq> AwaitBody \<or> length req \<noteq> length (m_request k1)
              then feed big_endian c handle es k1
              else case on_body handle False req k1 of
                     None \<Rightarrow> None
                   | Some (Inl e, k2) \<Rightarrow> Some (Inl e, k2)
                   | Some (Inr _, k2) \<Rightarrow> feed big_endian c handle es k2)"

lemma on_header_accepts:
  assumes "length req \<le> unat (client_max_packet_size c)"
  shows "on_header False c False (header_bytes (of_nat (length req))) k =
     k\<lparr>m_packet_size := of_nat (length req), m_request := resize (length req) (m_request k),
       phase := AwaitBody\<rparr>"
proof -
  have "length req < 2 ^ LENGTH(32)" using assms u32_lt [of "client_max_packet_size c"] by simp
  then have "unat (of_nat (length req) :: u32) = length req" by (rule unat_of_nat_small)
  with assms show ?thesis
    by (simp add: on_header_def host_u32_def Let_def word_less_nat_alt)
qed

text \<open>The write side as a whole: no write failed, and the front of the queue is on its way.\<close>

definition writing :: "'s connection \<Rightarrow> bool" where
  "writing k \<longleftrightarrow> write_inv k \<and> \<not> write_failed k"

lemma write_done_simps [simp, step_simps]:
  "phase (write_done k) = phase k" "m_request (write_done k) = m_request k"
  "m_handler (write_done k) = m_handler k" "write_failed (write_done k) = write_failed k"
  by (simp_all add: write_done_def on_write_def do_write_def Let_def)

lemma write_done_writing:
  assumes "writing k"
  shows "writing (write_done k)" "produced (write_done k) = produced k"
    "m_out_packets (write_done k) = tl (m_out_packets k)"
  using assms
  by (auto simp: writing_def write_done_def on_write_def do_write_def write_inv_def produced_def Let_def
      split: list.splits)

lemma complete_writes_simps [simp, step_simps]:
  "phase (complete_writes n k) = phase k" "m_request (complete_writes n k) = m_request k"
  "m_handler (complete_writes n k) = m_handler k"
  by (induction n arbitrary: k) simp_all

lemma complete_writes_writing:
  assumes "writing k"
  shows "writing (complete_writes n k)" "produced (complete_writes n k) = produced k"
    "m_out_packets (complete_writes n k) = drop n (m_out_packets k)"
  using assms
  by (induction n arbitrary: k) (simp_all add: write_done_writing drop_Suc)

lemma feed_writes:
  "feed big_endian c handle (replicate n WriteDone) k = Some (Inr (), complete_writes n k)"
  by (induction n arbitrary: k) simp_all

text \<open>One completion per queued response empties the queue.\<close>

lemma complete_writes_drain:
  assumes "writing k"
  shows "m_out_packets (complete_writes (length (m_out_packets k)) k) = []"
    "delivered (complete_writes (length (m_out_packets k)) k) = produced k"
  using complete_writes_writing [OF assms, of "length (m_out_packets k)"] by (simp_all add: produced_def)

lemma send_response_writing: "writing k \<Longrightarrow> writing (send_response r k)"
  using send_response_inv [of k r] by (simp add: writing_def send_response_def do_write_def Let_def)

text \<open>What a whole request does to a connection that waits for one.\<close>

lemma request_step:
  fixes k :: "'s connection" and n :: nat and c :: config and req :: string
  defines "k1 \<equiv> complete_writes n (on_header False c False (header_bytes (of_nat (length req))) k)"
  assumes "writing k" "length req \<le> unat (client_max_packet_size c)"
    and "handle req (m_handler k) = Some (Inr resp, t)"
  obtains k2 where "phase k1 = AwaitBody" "length (m_request k1) = length req"
    "on_body handle False req k1 = Some (Inr (), k2)" "phase k2 = AwaitHeader" "writing k2"
    "m_handler k2 = t" "produced k2 = produced k @ [resp]"
proof -
  let ?h = "k\<lparr>m_packet_size := of_nat (length req), m_request := resize (length req) (m_request k),
       phase := AwaitBody\<rparr>"
  have k1: "k1 = complete_writes n ?h" unfolding k1_def on_header_accepts [OF assms(3)] ..
  have "writing ?h" "produced ?h = produced k"
    using assms(2) by (simp_all add: writing_def write_inv_def produced_def)
  note w = complete_writes_writing [OF this(1), of n, folded k1] this(2)
  let ?m = "k1\<lparr>m_request := req, m_handler := t\<rparr>"
  let ?k2 = "do_read (send_response resp ?m)"
  have "on_body handle False req k1 = Some (Inr (), ?k2)"
    using assms(4) by (simp add: k1 on_body_def Let_def)
  moreover have "writing ?m" "produced ?m = produced k"
    using w by (simp_all add: writing_def write_inv_def produced_def)
  moreover from this(1) have "writing ?k2"
    using send_response_writing [of ?m resp] by (simp add: writing_def do_read_def write_inv_def)
  ultimately show thesis by (intro that [of ?k2]) (simp_all add: k1)
qed

lemma feed_serve:
  assumes "\<forall>req \<in> set (requests es). length req \<le> unat (client_max_packet_size c)"
    and "serve handle (requests es) (m_handler k) = Some (Inr resps, s)"
    and "phase k = AwaitHeader" "writing k"
  shows "\<exists>k'. feed False c handle es k = Some (Inr (), k') \<and> phase k' = AwaitHeader \<and>
     writing k' \<and> m_handler k' = s \<and> produced k' = produced k @ resps"
  using assms
proof (induction es arbitrary: k resps)
  case (Cons e es)
  show ?case
  proof (cases e)
    case WriteDone
    with Cons.IH [of "write_done k" resps] Cons.prems show ?thesis by (auto simp: write_done_writing)
  next
    case (Request n req)
    from Cons.prems(2) obtain resp t resps' where
      h: "handle req (m_handler k) = Some (Inr resp, t)"
      and rest: "serve handle (requests es) t = Some (Inr resps', s)" and r: "resps = resp # resps'"
      by (auto simp: Request split: option.splits sum.splits)
    have len: "length req \<le> unat (client_max_packet_size c)" using Cons.prems(1) by (simp add: Request)
    obtain k2 where
      hd: "phase (complete_writes n (on_header False c False (header_bytes (of_nat (length req))) k)) = AwaitBody"
        "length (m_request (complete_writes n
           (on_header False c False (header_bytes (of_nat (length req))) k))) = length req"
      and body: "on_body handle False req (complete_writes n
           (on_header False c False (header_bytes (of_nat (length req))) k)) = Some (Inr (), k2)"
      and k2: "phase k2 = AwaitHeader" "writing k2" "m_handler k2 = t" "produced k2 = produced k @ [resp]"
      by (rule request_step [where n = n and k = k and handle = handle and req = req and c = c,
            OF Cons.prems(4) len h]) blast
    have "feed False c handle (e # es) k = feed False c handle es k2"
      unfolding Request feed.simps Let_def body using Cons.prems(3) hd by simp
    with Cons.IH [of k2 resps'] Cons.prems(1) rest k2 r show ?thesis by (auto simp: Request)
  qed
qed simp

text \<open>The events drive the connection through reachable states only.\<close>

lemma complete_writes_reachable:
  "conn_reachable big_endian c handle s0 k \<Longrightarrow> conn_reachable big_endian c handle s0 (complete_writes n k)"
proof (induction n arbitrary: k)
  case (Suc n)
  have "conn_reachable big_endian c handle s0 (write_done k)"
    using Suc.prems conn_reachable.step [OF Suc.prems write_end [where ec = False]]
    by (simp add: write_done_def)
  then show ?case using Suc.IH by simp
qed simp

lemma feed_reachable:
  assumes "conn_reachable big_endian c handle s0 k" "feed big_endian c handle es k = Some (Inr (), k')"
  shows "conn_reachable big_endian c handle s0 k'"
  using assms
proof (induction es arbitrary: k)
  case (Cons e es)
  show ?case
  proof (cases e)
    case WriteDone
    have "conn_reachable big_endian c handle s0 (write_done k)"
      using complete_writes_reachable [OF Cons.prems(1), of 1] by simp
    with Cons.IH Cons.prems(2) show ?thesis by (simp add: WriteDone)
  next
    case (Request n req)
    let ?k1 = "complete_writes n (on_header big_endian c False (header_bytes (of_nat (length req))) k)"
    show ?thesis
    proof (cases "phase k = AwaitHeader")
      case True
      have r1: "conn_reachable big_endian c handle s0 ?k1"
        by (intro complete_writes_reachable conn_reachable.step [OF Cons.prems(1)] recv_header)
           (simp_all add: True)
      show ?thesis
      proof (cases "phase ?k1 \<noteq> AwaitBody \<or> length req \<noteq> length (m_request ?k1)")
        case skip: True
        then show ?thesis using Cons.IH [OF r1] Cons.prems(2) True by (simp add: Request Let_def)
      next
        case False
        then obtain k2 where body: "on_body handle False req ?k1 = Some (Inr (), k2)"
          and rest: "feed big_endian c handle es k2 = Some (Inr (), k')"
          using Cons.prems(2) True by (auto simp: Request Let_def split: option.splits sum.splits)
        have "conn_reachable big_endian c handle s0 k2"
          by (rule conn_reachable.step [OF r1], rule recv_body [OF _ _ body]) (use False in auto)
        then show ?thesis using Cons.IH rest by blast
      qed
    qed (use Cons in \<open>simp add: Request\<close>)
  qed
qed simp

section \<open>The request handler behind the interface\<close>

text \<open>
  What the connection may rely on: a property of the handler's state that every request keeps.
\<close>

locale request_handler =
  fixes handle :: "string \<Rightarrow> (exn, 's, u8 list) prog" and I :: "'s \<Rightarrow> bool"
  assumes handle_keeps: "I s \<Longrightarrow> handle req s = Some (r, t) \<Longrightarrow> I t"
begin

lemma serve_keeps: "I s \<Longrightarrow> serve handle reqs s = Some (r, t) \<Longrightarrow> I t"
  by (induction reqs arbitrary: s r)
     (auto split: option.splits sum.splits, (blast intro: handle_keeps)+)

lemma on_body_keeps: "I (m_handler k) \<Longrightarrow> on_body handle ec body k = Some (r, k') \<Longrightarrow> I (m_handler k')"
  by (auto simp: on_body_def Let_def split: if_splits option.splits sum.splits)
     (blast intro: handle_keeps)+

lemma conn_step_keeps: "conn_step big_endian c handle k k' \<Longrightarrow> I (m_handler k) \<Longrightarrow> I (m_handler k')"
  by (elim conn_stepE)
     (auto simp: on_header_def on_write_def do_write_def Let_def dest: on_body_keeps)

lemma reachable_keeps: "conn_reachable big_endian c handle s0 k \<Longrightarrow> I s0 \<Longrightarrow> I (m_handler k)"
  by (induction rule: conn_reachable.induct) (auto simp: new_SQLiteSocket_def dest: conn_step_keeps)

end

interpretation names_kept: request_handler "handle_request P A c" "\<lambda>s. handler_inv P (fst s)"
  for P A c
  by unfold_locales (auto dest: handle_request_keeps)

interpretation auth_kept: request_handler "handle_request P A c" "\<lambda>s. m_authenticated (fst s)"
  for P A c
  by unfold_locales (auto dest: handle_request_keeps)

interpretation auth_first_kept: request_handler "handle_request P A c" "\<lambda>s. auth_first c (fst s)"
  for P A c
  by unfold_locales (auto dest: handle_request_auth_first)

text \<open>The answers up to the first exception.\<close>

fun collect_answers :: "(exn + u8 list) list \<Rightarrow> exn + u8 list list" where
  "collect_answers [] = Inr []"
| "collect_answers (Inl e # rs) = Inl e"
| "collect_answers (Inr a # rs) =
     (case collect_answers rs of Inl e \<Rightarrow> Inl e | Inr as \<Rightarrow> Inr (a # as))"

lemma serve_unauthenticated:
  assumes "auth c \<noteq> []" and "\<not> m_authenticated h" and "\<forall>req \<in> set reqs. \<not> carries_password P c req"
  shows "serve (handle_request P A c) reqs (h, w) =
     Some (collect_answers (map (refused P) reqs), (h, w))"
  using assms(3)
proof (induction reqs)
  case (Cons req reqs)
  then have h: "handle_request P A c req (h, w) = Some (refused P req, (h, w))"
    by (intro handle_request_unauthenticated [OF assms(1,2)]) simp
  show ?case using Cons by (cases "refused P req") (auto simp: h split: sum.splits)
qed simp

section \<open>Two handlers of one connection at the same time\<close>

text \<open>
  With several worker threads the completion handlers of the read and of the write side of one
  connection may overlap: nothing serialises them. The queue operations then interleave one by
  one. \<open>reader\<close> is where \<^verbatim>\<open>send_response\<close> stands (with the value of \<^verbatim>\<open>write_in_progress\<close>), \<open>writer\<close>
  where the completion handler of the write stands.
\<close>

datatype reader_pc = RIdle | RChecked bool "u8 list" | RPushed bool
datatype writer_pc = WIdle | WPopped

record race =
  queue :: "u8 list list"
  flight :: "u8 list option"
  reader :: reader_pc
  writer :: writer_pc

inductive race_step :: "race \<Rightarrow> race \<Rightarrow> bool" where
  race_check: "reader s = RIdle \<Longrightarrow> race_step s (s\<lparr>reader := RChecked (queue s \<noteq> []) resp\<rparr>)"
| race_push: "reader s = RChecked wip resp \<Longrightarrow>
     race_step s (s\<lparr>queue := queue s @ [resp], reader := RPushed wip\<rparr>)"
| race_start: "reader s = RPushed False \<Longrightarrow>
     race_step s (s\<lparr>flight := Some (hd (queue s)), reader := RIdle\<rparr>)"
| race_skip: "reader s = RPushed True \<Longrightarrow> race_step s (s\<lparr>reader := RIdle\<rparr>)"
| race_pop: "writer s = WIdle \<Longrightarrow> flight s \<noteq> None \<Longrightarrow>
     race_step s (s\<lparr>queue := tl (queue s), flight := None, writer := WPopped\<rparr>)"
| race_idle: "writer s = WPopped \<Longrightarrow> queue s = [] \<Longrightarrow> race_step s (s\<lparr>writer := WIdle\<rparr>)"
| race_continue: "writer s = WPopped \<Longrightarrow> queue s \<noteq> [] \<Longrightarrow>
     race_step s (s\<lparr>flight := Some (hd (queue s)), writer := WIdle\<rparr>)"

definition race_init :: race where
  "race_init = \<lparr>queue = [], flight = None, reader = RIdle, writer = WIdle\<rparr>"

text \<open>A response waits, both handlers are idle and no write is under way.\<close>

definition stranded :: "race \<Rightarrow> bool" where
  "stranded s \<longleftrightarrow> queue s \<noteq> [] \<and> flight s = None \<and> writer s = WIdle \<and>
     (reader s = RIdle \<or> (\<exists>r. reader s = RChecked True r) \<or> reader s = RPushed True)"

lemma stranded_step: "race_step s t \<Longrightarrow> stranded s \<Longrightarrow> stranded t"
  by (induction rule: race_step.induct) (auto simp: stranded_def)

lemma stranded_forever: "race_step\<^sup>*\<^sup>* s t \<Longrightarrow> stranded s \<Longrightarrow> stranded t"
  by (induction rule: rtranclp_induct) (auto intro: stranded_step)

lemma lost_wakeup: "\<exists>s. race_step\<^sup>*\<^sup>* race_init s \<and> stranded s \<and> queue s = [b]"
proof -
  let ?s = "\<lambda>q f r w. \<lparr>queue = q, flight = f, reader = r, writer = w\<rparr> :: race"
  have steps:
    "race_step (?s [] None RIdle WIdle) (?s [] None (RChecked False a) WIdle)"
    "race_step (?s [] None (RChecked False a) WIdle) (?s [a] None (RPushed False) WIdle)"
    "race_step (?s [a] None (RPushed False) WIdle) (?s [a] (Some a) RIdle WIdle)"
    "race_step (?s [a] (Some a) RIdle WIdle) (?s [a] (Some a) (RChecked True b) WIdle)"
    "race_step (?s [a] (Some a) (RChecked True b) WIdle) (?s [] None (RChecked True b) WPopped)"
    "race_step (?s [] None (RChecked True b) WPopped) (?s [] None (RChecked True b) WIdle)"
    "race_step (?s [] None (RChecked True b) WIdle) (?s [b] None (RPushed True) WIdle)"
    "race_step (?s [b] None (RPushed True) WIdle) (?s [b] None RIdle WIdle)" for a
    using race_step.intros(1) [of "?s [] None RIdle WIdle" a]
      race_step.intros(2) [of "?s [] None (RChecked False a) WIdle" False a]
      race_step.intros(3) [of "?s [a] None (RPushed False) WIdle"]
      race_step.intros(1) [of "?s [a] (Some a) RIdle WIdle" b]
      race_step.intros(5) [of "?s [a] (Some a) (RChecked True b) WIdle"]
      race_step.intros(6) [of "?s [] None (RChecked True b) WPopped"]
      race_step.intros(2) [of "?s [] None (RChecked True b) WIdle" True b]
      race_step.intros(4) [of "?s [b] None (RPushed True) WIdle"]
    by simp_all
  have "race_step\<^sup>*\<^sup>* (?s [] None RIdle WIdle) (?s [b] None RIdle WIdle)"
    using steps by (meson converse_rtranclp_into_rtranclp rtranclp.rtrancl_refl)
  then show ?thesis by (force simp: race_init_def stranded_def)
qed

end
