(* ===== verification/Server.thy ===== *)
theory Server
  imports Sqlite_Socket
begin

text \<open>
  \<^verbatim>\<open>ListenSocket.h\<close>, \<^verbatim>\<open>Network.h\<close> and \<^verbatim>\<open>main.cpp\<close>: accepting connections, the worker threads and the
  start of the process. The server's state is the list of its connections and the outside world
  they share.
\<close>

section \<open>Accepting\<close>

text \<open>
  \<open>peers\<close> records the address each connection was accepted from, \<open>rejected\<close> how many sockets were
  closed at accept time.
\<close>

record 'w server =
  acceptor_open :: bool
  accepting :: bool
  conns :: "handler connection list"
  peers :: "ip_address list"
  rejected :: nat
  world :: 'w

definition do_accept :: "'w server \<Rightarrow> 'w server" where
  "do_accept v = v\<lparr>accepting := True\<rparr>"

text \<open>\<^verbatim>\<open>ListenSocket\<close>'s constructor starts the first accept.\<close>

definition new_ListenSocket :: "'w \<Rightarrow> 'w server" where
  "new_ListenSocket w =
     do_accept \<lparr>acceptor_open = True, accepting = False, conns = [], peers = [], rejected = 0, world = w\<rparr>"

text \<open>
  The completion handler of an accept: \<open>ec\<close> is its error flag, \<open>remote\<close> the peer address or \<open>None\<close>
  when the socket does not know it any more.
\<close>

definition on_accept ::
    "'w platform \<Rightarrow> config \<Rightarrow> bool \<Rightarrow> ip_address option \<Rightarrow> 'w server \<Rightarrow> 'w server" where
  "on_accept P c ec remote v =
     (let v = v\<lparr>accepting := False\<rparr>
      in if \<not> acceptor_open v then v
         else do_accept
           (if ec then v
            else case remote of
                   Some address \<Rightarrow>
                     if is_ip_allowed P c address
                     then v\<lparr>conns := conns v @ [do_read (new_SQLiteSocket new_RequestHandler)],
                            peers := peers v @ [address]\<rparr>
                     else v\<lparr>rejected := Suc (rejected v)\<rparr>
                 | None \<Rightarrow> v\<lparr>rejected := Suc (rejected v)\<rparr>))"

section \<open>Connections that share the world\<close>

text \<open>A connection together with the world its handler works on, and back.\<close>

definition join_world :: "'w \<Rightarrow> handler connection \<Rightarrow> (handler \<times> 'w) connection" where
  "join_world w k =
     \<lparr>m_packet_size = m_packet_size k, m_request = m_request k, m_handler = (m_handler k, w),
      m_out_packets = m_out_packets k, phase = phase k, is_open = is_open k, in_flight = in_flight k,
      delivered = delivered k, write_failed = write_failed k\<rparr>"

definition drop_world :: "(handler \<times> 'w) connection \<Rightarrow> handler connection" where
  "drop_world k =
     \<lparr>m_packet_size = m_packet_size k, m_request = m_request k, m_handler = fst (m_handler k),
      m_out_packets = m_out_packets k, phase = phase k, is_open = is_open k, in_flight = in_flight k,
      delivered = delivered k, write_failed = write_failed k\<rparr>"

text \<open>
  The completion handlers own their connection: when no read and no write of it is pending any more,
  the socket and its request handler are destroyed, which closes the databases of the handler.
\<close>

definition unowned :: "'s connection \<Rightarrow> bool" where
  "unowned k \<longleftrightarrow> phase k = ReadStopped \<and> in_flight k = None"

definition remove_nth :: "nat \<Rightarrow> 'a list \<Rightarrow> 'a list" where
  "remove_nth i xs = take i xs @ drop (Suc i) xs"

definition SQLiteSocket_dtor :: "'w sqlite_api \<Rightarrow> nat \<Rightarrow> string list \<Rightarrow> 'w server \<Rightarrow> 'w server" where
  "SQLiteSocket_dtor A i names v =
     v\<lparr>conns := remove_nth i (conns v), peers := remove_nth i (peers v),
       world := RequestHandler_dtor A (m_handler (conns v ! i)) names (world v)\<rparr>"

text \<open>
  One step of the server: an accept, a step of one connection on the shared world, or the end of a
  connection nothing refers to any more.
\<close>

inductive server_step ::
    "bool \<Rightarrow> 'w platform \<Rightarrow> 'w sqlite_api \<Rightarrow> config \<Rightarrow> 'w server \<Rightarrow> 'w server \<Rightarrow> bool"
  for big_endian P A c where
  accept_step: "accepting v \<Longrightarrow> server_step big_endian P A c v (on_accept P c ec remote v)"
| conn_progress: "i < length (conns v) \<Longrightarrow>
     conn_step big_endian c (handle_request P A c) (join_world (world v) (conns v ! i)) k \<Longrightarrow>
     server_step big_endian P A c v
       (v\<lparr>conns := (conns v)[i := drop_world k], world := snd (m_handler k)\<rparr>)"
| conn_destroyed: "i < length (conns v) \<Longrightarrow> unowned (conns v ! i) \<Longrightarrow>
     distinct names \<Longrightarrow> set names = dom (m_databases (m_handler (conns v ! i))) \<Longrightarrow>
     server_step big_endian P A c v (SQLiteSocket_dtor A i names v)"

inductive server_reachable ::
    "bool \<Rightarrow> 'w platform \<Rightarrow> 'w sqlite_api \<Rightarrow> config \<Rightarrow> 'w \<Rightarrow> 'w server \<Rightarrow> bool"
  for big_endian P A c w0 where
  server_start: "server_reachable big_endian P A c w0 (new_ListenSocket w0)"
| server_next: "server_reachable big_endian P A c w0 v \<Longrightarrow> server_step big_endian P A c v v' \<Longrightarrow>
     server_reachable big_endian P A c w0 v'"

text \<open>A run of the server: the states it went through, the latest first.\<close>

inductive server_trace ::
    "bool \<Rightarrow> 'w platform \<Rightarrow> 'w sqlite_api \<Rightarrow> config \<Rightarrow> 'w \<Rightarrow> 'w server list \<Rightarrow> bool"
  for big_endian P A c w0 where
  trace_start: "server_trace big_endian P A c w0 [new_ListenSocket w0]"
| trace_next: "server_trace big_endian P A c w0 (v # vs) \<Longrightarrow> server_step big_endian P A c v v' \<Longrightarrow>
     server_trace big_endian P A c w0 (v' # v # vs)"

inductive_cases server_stepE: "server_step big_endian P A c v v'"
inductive_cases server_traceE: "server_trace big_endian P A c w0 (v # vs)"

section \<open>Worker threads\<close>

text \<open>\<^verbatim>\<open>NetworkWorker::run\<close>: the loop that creates the threads; all of them run the same \<^verbatim>\<open>io_context\<close>.\<close>

function start_threads :: "nat \<Rightarrow> u16 \<Rightarrow> nat list \<Rightarrow> nat list" where
  "start_threads i nworkers pool =
     (if i < unat nworkers then start_threads (Suc i) nworkers (pool @ [i]) else pool)"
  by pat_completeness auto
termination
  by (relation "measure (\<lambda>(i, n, pool). unat n - i)") auto

declare start_threads.simps [simp del]

text \<open>\<^verbatim>\<open>join_all\<close> returns at once when there is no thread to wait for.\<close>

datatype run_state = Serving nat | Finished

definition network_run :: "u16 \<Rightarrow> run_state" where
  "network_run nworkers =
     (let pool = start_threads 0 nworkers [] in if pool = [] then Finished else Serving (length pool))"

text \<open>\<^verbatim>\<open>shutdown\<close> and the signal handler stop the \<^verbatim>\<open>io_context\<close>: every thread returns.\<close>

definition shutdown :: "run_state \<Rightarrow> run_state" where
  "shutdown r = Finished"

section \<open>The start of the process\<close>

text \<open>The defaults of the command line; \<^verbatim>\<open>hardware_concurrency\<close> is cut to 16 bits.\<close>

definition default_options :: "'w platform \<Rightarrow> options" where
  "default_options P =
     \<lparr>opt_config = None, opt_ip = ''localhost'', opt_port = 3333, opt_auth = [],
      opt_ip_whitelist = [], opt_databases_folder = ''sqlite'',
      opt_workers = of_nat (hardware_concurrency P),
      opt_client_max_packet_size = 16 * 1024 * 1024, opt_busy_timeout = 5000\<rparr>"

text \<open>
  The result of the option parser: an error, or whether help or the version is asked for and the
  option values. The parser (Boost.Program\_options) is a parameter that gets the defaults.
\<close>

type_synonym option_parser = "options \<Rightarrow> string list \<Rightarrow> string + (bool \<times> bool \<times> options)"

datatype process_end =
    Exit_success
  | Exit_failure string
  | Terminated exn
  | Runs config run_state

definition process_program_options ::
    "'w platform \<Rightarrow> option_parser \<Rightarrow> string list \<Rightarrow> process_end + options" where
  "process_program_options P parser argv =
     (case parser (default_options P) argv of
        Inl what \<Rightarrow> Inl (Exit_failure what)
      | Inr (help, version, vm) \<Rightarrow>
          if help then Inl Exit_success else if version then Inl Exit_success else Inr vm)"

definition main :: "'w platform \<Rightarrow> option_parser \<Rightarrow> string list \<Rightarrow> 'w \<Rightarrow> process_end" where
  "main P parser argv w =
     (case process_program_options P parser argv of
        Inl e \<Rightarrow> e
      | Inr vm \<Rightarrow>
          (case config_init P vm w config_default of
             Inl (ConfigException what) \<Rightarrow> Exit_failure what
           | Inl e \<Rightarrow> Terminated e
           | Inr c \<Rightarrow> Runs c (network_run (workers c))))"

section \<open>Facts\<close>

lemma join_drop_simps [simp]:
  "m_handler (join_world w k) = (m_handler k, w)"
  "m_handler (drop_world q) = fst (m_handler q)"
  "conn_inv c (join_world w k) = conn_inv c k"
  "conn_inv c (drop_world q) = conn_inv c q"
  by (simp_all add: join_world_def drop_world_def conn_inv_def write_inv_def read_inv_def)

lemma on_accept_keeps [simp]: "world (on_accept P c ec remote v) = world v"
  by (simp add: on_accept_def do_accept_def Let_def split: option.splits)

lemma on_accept_conns:
  "conns (on_accept P c ec remote v) = conns v \<or>
   conns (on_accept P c ec remote v) = conns v @ [do_read (new_SQLiteSocket new_RequestHandler)]"
  by (auto simp: on_accept_def do_accept_def Let_def split: option.splits)

text \<open>
  The server's invariant: every connection came from an allowed address, keeps the connection
  invariant and the handler invariant.
\<close>

definition server_inv :: "'w platform \<Rightarrow> config \<Rightarrow> 'w server \<Rightarrow> bool" where
  "server_inv P c v \<longleftrightarrow>
     length (peers v) = length (conns v) \<and>
     (\<forall>a \<in> set (peers v). is_ip_allowed P c a) \<and>
     (\<forall>k \<in> set (conns v). conn_inv c k \<and> handler_inv P (m_handler k))"

lemma server_inv_new: "server_inv P c (new_ListenSocket w)"
  by (simp add: server_inv_def new_ListenSocket_def do_accept_def)

lemma server_inv_accept: "server_inv P c v \<Longrightarrow> server_inv P c (on_accept P c ec remote v)"
  using conn_inv_new [of c new_RequestHandler]
  by (auto simp: server_inv_def on_accept_def do_accept_def Let_def new_SQLiteSocket_def
      split: option.splits)

lemma server_inv_conn:
  assumes "server_inv P c v" "i < length (conns v)"
    and "conn_step big_endian c (handle_request P A c) (join_world (world v) (conns v ! i)) k"
  shows "server_inv P c (v\<lparr>conns := (conns v)[i := drop_world k], world := snd (m_handler k)\<rparr>)"
proof -
  have "conns v ! i \<in> set (conns v)" using assms(2) by simp
  then have old: "conn_inv c (join_world (world v) (conns v ! i))"
    "handler_inv P (fst (m_handler (join_world (world v) (conns v ! i))))"
    using assms(1) by (auto simp: server_inv_def)
  have "conn_inv c (drop_world k)" "handler_inv P (m_handler (drop_world k))"
    using conn_step_inv [OF assms(3) old(1)] names_kept.conn_step_keeps [OF assms(3) old(2)] by auto
  then show ?thesis
    using assms(1) set_update_subset_insert [of "conns v" i "drop_world k"]
    by (auto simp: server_inv_def)
qed

lemma set_remove_nth: "set (remove_nth i xs) \<subseteq> set xs"
  by (auto simp: remove_nth_def dest: in_set_takeD in_set_dropD)

lemma length_remove_nth: "i < length xs \<Longrightarrow> length (remove_nth i xs) = length xs - 1"
  by (simp add: remove_nth_def)

lemma server_inv_dtor:
  assumes "server_inv P c v" "i < length (conns v)"
  shows "server_inv P c (SQLiteSocket_dtor A i names v)"
  using assms set_remove_nth [of i "conns v"] set_remove_nth [of i "peers v"]
  unfolding server_inv_def SQLiteSocket_dtor_def
  by (simp add: length_remove_nth subset_iff)

text \<open>A connection that nothing refers to can always be torn down.\<close>

lemma unowned_is_destroyed:
  assumes "server_inv P c v" "i < length (conns v)" "unowned (conns v ! i)"
  shows "\<exists>names. server_step big_endian P A c v (SQLiteSocket_dtor A i names v)"
proof -
  have "finite (dom (m_databases (m_handler (conns v ! i))))"
    using assms(1) nth_mem [OF assms(2)] unfolding server_inv_def handler_inv_def by simp
  from finite_distinct_list [OF this] obtain names
    where names: "distinct names" "set names = dom (m_databases (m_handler (conns v ! i)))" by metis
  show ?thesis by (rule exI [of _ names], rule conn_destroyed [OF assms(2,3) names])
qed

lemma server_step_inv: "server_step big_endian P A c v v' \<Longrightarrow> server_inv P c v \<Longrightarrow> server_inv P c v'"
  by (elim server_stepE) (auto intro: server_inv_accept server_inv_conn server_inv_dtor)

lemma server_reachable_inv: "server_reachable big_endian P A c w0 v \<Longrightarrow> server_inv P c v"
  by (induction rule: server_reachable.induct) (auto intro: server_inv_new server_step_inv)

text \<open>What a connection can do alone, it can do on a server that accepted only this client.\<close>

lemma join_drop_world [simp]:
  "join_world (snd (m_handler k)) (drop_world k) = k" "drop_world (join_world w q) = q"
  by (simp_all add: join_world_def drop_world_def)

lemma conn_reachable_server:
  assumes "conn_reachable big_endian c (handle_request P A c) (new_RequestHandler, w0) k"
    and "is_ip_allowed P c a"
  shows "server_reachable big_endian P A c w0
     ((on_accept P c False (Some a) (new_ListenSocket w0))\<lparr>conns := [drop_world k], world := snd (m_handler k)\<rparr>)"
    (is "server_reachable _ _ _ _ _ (?v k)")
  using assms(1)
proof (induction rule: conn_reachable.induct)
  case start
  have "?v (do_read (new_SQLiteSocket (new_RequestHandler, w0))) =
      on_accept P c False (Some a) (new_ListenSocket w0)"
    using assms(2)
    by (simp add: on_accept_def new_ListenSocket_def do_accept_def Let_def do_read_def
        new_SQLiteSocket_def drop_world_def)
  moreover have "server_reachable big_endian P A c w0 (on_accept P c False (Some a) (new_ListenSocket w0))"
    by (rule server_next [OF server_start accept_step]) (simp add: new_ListenSocket_def do_accept_def)
  ultimately show ?case by simp
next
  case (step k k')
  then show ?case
    using server_next [OF step.IH conn_progress [of 0 "?v k" big_endian c P A k']] by simp
qed

text \<open>Only the body handler of an authenticated connection can touch the world.\<close>

lemma on_body_unauthenticated:
  assumes "auth c \<noteq> []" "\<not> m_authenticated (fst (m_handler k))"
    and "on_body (handle_request P A c) ec body k = Some (r, k')"
  shows "snd (m_handler k') = snd (m_handler k)"
proof -
  obtain h w where hw: "m_handler k = (h, w)" by fastforce
  have "snd s = w" if "handle_request P A c body (h, w) = Some (x, s)" for x s
    using that assms(1,2) hw handle_request_unauthenticated [of c h P body A w]
      handle_request_password [of c P body A h w]
    by (cases "carries_password P c body") auto
  then show ?thesis
    using assms(3) hw
    by (auto simp: on_body_def Let_def split: if_splits option.splits sum.splits)
qed

text \<open>A connection that has not authenticated has not opened a database either.\<close>

definition locked :: "config \<Rightarrow> 'w server \<Rightarrow> bool" where
  "locked c v \<longleftrightarrow> (\<forall>k \<in> set (conns v). auth_first c (m_handler k))"

definition all_unauthenticated :: "'w server \<Rightarrow> bool" where
  "all_unauthenticated v \<longleftrightarrow> (\<forall>k \<in> set (conns v). \<not> m_authenticated (m_handler k))"

lemma server_step_locked:
  assumes "server_step big_endian P A c v v'" "locked c v"
  shows "locked c v'"
  using assms(1)
proof (cases rule: server_step.cases)
  case (accept_step ec remote)
  then show ?thesis
    using assms(2) on_accept_conns [of P c ec remote v]
    by (auto simp: locked_def new_SQLiteSocket_def)
next
  case (conn_progress i k)
  have "auth_first c (m_handler (conns v ! i))" using assms(2) conn_progress(2) by (simp add: locked_def)
  then have "auth_first c (fst (m_handler k))"
    using auth_first_kept.conn_step_keeps [OF conn_progress(3)] by simp
  with conn_progress(1) assms(2) set_update_subset_insert [of "conns v" i "drop_world k"]
  show ?thesis by (auto simp: locked_def)
next
  case (conn_destroyed i names)
  with assms(2) set_remove_nth [of i "conns v"] show ?thesis
    by (auto simp: locked_def SQLiteSocket_dtor_def)
qed

lemma conn_step_unauthenticated:
  assumes "conn_step big_endian c (handle_request P A c) k k'"
    and "auth c \<noteq> []" "\<not> m_authenticated (fst (m_handler k))"
  shows "snd (m_handler k') = snd (m_handler k)"
  using assms(1)
proof (cases rule: conn_step.cases)
  case (recv_body body ec)
  then show ?thesis using on_body_unauthenticated [OF assms(2,3) recv_body(3)] by simp
qed (auto simp: on_header_def on_write_def do_write_def Let_def)

text \<open>No step of a server without authenticated connections changes the world.\<close>

lemma server_step_world:
  assumes "server_step big_endian P A c v v'" "auth c \<noteq> []" "locked c v" "all_unauthenticated v"
  shows "world v' = world v"
  using assms(1)
proof (cases rule: server_step.cases)
  case (conn_progress i k)
  then show ?thesis
    using conn_step_unauthenticated [OF conn_progress(3) assms(2)] assms(4)
    by (auto simp: all_unauthenticated_def)
next
  case (conn_destroyed i names)
  have "m_databases (m_handler (conns v ! i)) = Map.empty"
    using assms(2-4) conn_destroyed(2) nth_mem [of i "conns v"]
    by (auto simp: locked_def all_unauthenticated_def auth_first_def)
  with conn_destroyed(1) show ?thesis by (simp add: SQLiteSocket_dtor_def)
qed simp

lemma server_trace_locked: "server_trace big_endian P A c w0 vs \<Longrightarrow> locked c (hd vs)"
proof (induction rule: server_trace.induct)
  case trace_start
  show ?case by (simp add: locked_def new_ListenSocket_def do_accept_def)
next
  case (trace_next v vs v')
  then show ?case using server_step_locked [OF trace_next.hyps(2)] by simp
qed

lemma server_trace_reachable:
  "server_trace big_endian P A c w0 vs \<Longrightarrow> server_reachable big_endian P A c w0 (hd vs)"
  by (induction rule: server_trace.induct) (auto intro: server_start server_next)

lemma unauthenticated_world:
  assumes "auth c \<noteq> []"
  shows "server_trace big_endian P A c w0 vs \<Longrightarrow> \<forall>u \<in> set (tl vs). all_unauthenticated u \<Longrightarrow>
     world (hd vs) = w0"
proof (induction rule: server_trace.induct)
  case trace_start
  then show ?case by (simp add: new_ListenSocket_def do_accept_def)
next
  case (trace_next v vs v')
  have "locked c v" using server_trace_locked [OF trace_next.hyps(1)] by simp
  then have "world v' = world v"
    using server_step_world [OF trace_next.hyps(2) assms] trace_next.prems by simp
  then show ?case using trace_next.IH trace_next.prems by simp
qed

lemma start_threads_eq: "i \<le> unat n \<Longrightarrow> start_threads i n pool = pool @ [i..<unat n]"
proof (induction i n pool rule: start_threads.induct)
  case (1 i n pool)
  then show ?case
    by (subst start_threads.simps) (auto simp: upt_conv_Cons)
qed

lemma network_run_eq: "network_run n = (if n = 0 then Finished else Serving (unat n))"
  by (auto simp: network_run_def start_threads_eq Let_def unat_eq_0)

end
