(* ===== verification/Demo_Platform.thy ===== *)
theory Demo_Platform
  imports Request_Handler
begin

text \<open>
  A small concrete platform and a small concrete engine, on which the hypotheses of the theorems
  about the server are shown to hold together. The world is a number: how many rows the engine
  still has to deliver. Paths are split at slashes; one JSON text per kind of request is known.
\<close>

section \<open>Paths\<close>

definition demo_elements :: "string \<Rightarrow> string list" where
  "demo_elements p = (if p = [] then [] else split_on CHR ''/'' p)"

fun demo_join :: "string list \<Rightarrow> string" where
  "demo_join [] = []"
| "demo_join [e] = e"
| "demo_join (e # es) = e @ CHR ''/'' # demo_join es"

definition demo_is_absolute :: "string \<Rightarrow> bool" where
  "demo_is_absolute p = (case p of [] \<Rightarrow> False | x # _ \<Rightarrow> x = CHR ''/'')"

definition demo_relative :: "string \<Rightarrow> string \<Rightarrow> string" where
  "demo_relative p b = demo_join (relative_elements (demo_elements p) (demo_elements b))"

lemma split_on_no_sep: "e \<in> set (split_on d xs) \<Longrightarrow> d \<notin> set e"
  by (induction xs arbitrary: e) (auto split: if_splits list.splits)

lemma split_on_plain: "d \<notin> set e \<Longrightarrow> split_on d e = [e]"
  by (induction e) auto

lemma split_on_sep: "d \<notin> set e \<Longrightarrow> split_on d (e @ d # r) = e # split_on d r"
  by (induction e) auto

lemma split_on_join:
  "es \<noteq> [] \<Longrightarrow> \<forall>e \<in> set es. CHR ''/'' \<notin> set e \<Longrightarrow> split_on CHR ''/'' (demo_join es) = es"
  by (induction es rule: demo_join.induct) (auto simp: split_on_plain split_on_sep)

lemma demo_join_split: "demo_join (split_on CHR ''/'' p) = p"
proof (induction p)
  case (Cons x xs)
  then show ?case
    by (cases "split_on CHR ''/'' xs" rule: demo_join.cases) (auto split: if_splits)
qed simp

lemma demo_elements_no_sep: "e \<in> set (demo_elements p) \<Longrightarrow> CHR ''/'' \<notin> set e"
  by (auto simp: demo_elements_def split: if_splits dest: split_on_no_sep)

text \<open>A relative path starts with an element that is not empty.\<close>

lemma relative_elements_hd:
  "relative_elements p b = [] \<or> hd (relative_elements p b) \<noteq> []"
  by (auto simp: relative_elements_def Let_def hd_append split: prod.splits)

lemma relative_elements_no_sep:
  assumes "e \<in> set (relative_elements (demo_elements p) (demo_elements b))"
  shows "CHR ''/'' \<notin> set e"
proof -
  obtain a b' where ab: "strip_common (demo_elements p) (demo_elements b) = (a, b')" by fastforce
  then obtain c where "demo_elements p = c @ a" using strip_common_split by blast
  then have "\<forall>e \<in> set a. CHR ''/'' \<notin> set e" using demo_elements_no_sep [of _ p] by auto
  with assms ab show ?thesis
    by (auto simp: relative_elements_def Let_def split: if_splits)
qed

lemma demo_join_nonempty: "es \<noteq> [] \<Longrightarrow> hd es \<noteq> [] \<Longrightarrow> demo_join es \<noteq> []"
  by (cases es rule: demo_join.cases) auto

lemma demo_elements_relative:
  "demo_elements (demo_relative p b) = relative_elements (demo_elements p) (demo_elements b)"
proof (cases "relative_elements (demo_elements p) (demo_elements b) = []")
  case False
  let ?es = "relative_elements (demo_elements p) (demo_elements b)"
  have "hd ?es \<noteq> []" using False relative_elements_hd by blast
  then have "demo_join ?es \<noteq> []" using False demo_join_nonempty by blast
  moreover have "split_on CHR ''/'' (demo_join ?es) = ?es"
    using False relative_elements_no_sep by (intro split_on_join) blast+
  ultimately show ?thesis unfolding demo_relative_def demo_elements_def [of "demo_join ?es"] by simp
qed (simp add: demo_relative_def demo_elements_def [of "[]"])

lemma demo_relative_not_absolute: "\<not> demo_is_absolute (demo_relative p b)"
proof -
  let ?es = "relative_elements (demo_elements p) (demo_elements b)"
  have "\<not> demo_is_absolute (demo_join ?es)"
  proof (cases "?es = []")
    case True
    then show ?thesis by (simp add: demo_is_absolute_def)
  next
    case False
    then obtain e es where es: "?es = e # es" by (cases ?es) auto
    then have "e \<noteq> []" using relative_elements_hd [of "demo_elements p" "demo_elements b"] by simp
    moreover have "CHR ''/'' \<notin> set e" using relative_elements_no_sep es by (metis list.set_intros(1))
    ultimately show ?thesis
      unfolding es by (cases es; cases e) (auto simp: demo_is_absolute_def)
  qed
  then show ?thesis by (simp add: demo_relative_def)
qed

section \<open>The platform\<close>

definition demo_query :: json where
  "demo_query = json_obj [(''cmd'', JStr ''query''), (''db'', JStr ''d''), (''query'', JStr ''SELECT'')]"

definition demo_escape :: json where
  "demo_escape = json_obj [(''cmd'', JStr ''QUERY''), (''db'', JStr ''../x''), (''query'', JStr ''SELECT'')]"

definition demo_delete :: json where
  "demo_delete = json_obj [(''cmd'', JStr ''Delete_Db''), (''db'', JStr ''d'')]"

definition demo_parse :: "string \<Rightarrow> exn + json" where
  "demo_parse s =
     (if s = ''query'' then Inr demo_query
      else if s = ''escape'' then Inr demo_escape
      else if s = ''delete'' then Inr demo_delete
      else if s = ''list'' then Inr (json_obj [(''cmd'', JStr ''LIST'')])
      else if s = ''auth'' then Inr (json_obj [(''auth'', JStr ''secret'')])
      else if s = ''number'' then Inr (json_obj [(''cmd'', JUInt 1)])
      else if s = ''config'' then Inr (json_obj
        [(''client_max_packet_size'', JUInt 1024), (''workers'', JUInt 4),
         (''listen_ip'', JStr ''localhost''), (''listen_port'', JUInt 3333),
         (''databases_folder'', JStr ''/data''), (''ip_whitelist'', JArr [JStr ''10.0.0.0/8''])])
      else if s = ''1e999'' then Inl (Json_out_of_range 406)
      else Inl (Json_parse_error ''unexpected character''))"

definition demo_platform :: "nat platform" where
  "demo_platform =
     \<lparr>json_parse = demo_parse,
      json_dump = (\<lambda>j. case j of JStr s \<Rightarrow> None | _ \<Rightarrow> Some ''{}''),
      json_to_uint = (\<lambda>w j. case j of JUInt n \<Rightarrow> Some (n mod 2 ^ w) | _ \<Rightarrow> None),
      regex_replace = (\<lambda>regex fmt s. s),
      iequals = (\<lambda>s t. map ascii_upper s = map ascii_upper t),
      ends_with = (\<lambda>s t. length t \<le> length s \<and> drop (length s - length t) s = t),
      str_trim = (\<lambda>s. dropWhile (\<lambda>c. c = CHR '' '') (rev (dropWhile (\<lambda>c. c = CHR '' '') (rev s)))),
      path_append = (\<lambda>p q. p @ CHR ''/'' # q),
      path_is_absolute = demo_is_absolute,
      path_elements = demo_elements,
      path_has_parent_path = (\<lambda>p. 1 < length (demo_elements p)),
      lexically_relative = demo_relative,
      weakly_canonical = (\<lambda>p w. if p = ''/data/../x'' then Some ''/x'' else Some p),
      system_complete = (\<lambda>p w. p),
      fs_exists = (\<lambda>p w. p = ''/data'' \<or> p = ''config''),
      is_directory = (\<lambda>p w. p = ''/data''),
      list_directory = (\<lambda>p w. Some [''d'', ''d-wal'', ''e'']),
      is_regular_file = (\<lambda>p w. True),
      fs_remove = (\<lambda>p w. (Some (p = ''/data/d''), w)),
      read_file = (\<lambda>p w. p),
      make_network_v4 = (\<lambda>s. if s = ''10.0.0.0/8'' then Some (0x0A000000, 8) else None),
      make_address_v4 = (\<lambda>s. if s = ''127.0.0.1'' then Some 0x7F000001 else None),
      make_network_v6 = (\<lambda>s. None),
      make_address_v6 = (\<lambda>s. if s = ''::1'' then Some 1 else None),
      canonical_v4 = (\<lambda>(a, p). (clear_host_bits a p, p)),
      canonical_v6 = (\<lambda>(a, p). (clear_host_bits a p, p)),
      network_v4_to_string = (\<lambda>_. ''v4''),
      network_v6_to_string = (\<lambda>_. ''v6''),
      make_address = (\<lambda>s. V4 0x7F000001),
      dns_resolve = (\<lambda>ip port. if ip = ''localhost'' then Some [(V6 1, 3333), (V4 0x7F000001, 3333)]
                               else if ip = ''::1'' then Some [(V6 1, 4000)] else None),
      hardware_concurrency = 8\<rparr>"

lemma demo_fields:
  "json_parse demo_platform = demo_parse"
  "json_dump demo_platform = (\<lambda>j. case j of JStr s \<Rightarrow> None | _ \<Rightarrow> Some ''{}'')"
  "json_to_uint demo_platform = (\<lambda>w j. case j of JUInt n \<Rightarrow> Some (n mod 2 ^ w) | _ \<Rightarrow> None)"
  "regex_replace demo_platform = (\<lambda>regex fmt s. s)"
  "iequals demo_platform = (\<lambda>s t. map ascii_upper s = map ascii_upper t)"
  "ends_with demo_platform = (\<lambda>s t. length t \<le> length s \<and> drop (length s - length t) s = t)"
  "str_trim demo_platform = (\<lambda>s. dropWhile (\<lambda>c. c = CHR '' '') (rev (dropWhile (\<lambda>c. c = CHR '' '') (rev s))))"
  "path_append demo_platform = (\<lambda>p q. p @ CHR ''/'' # q)"
  "path_is_absolute demo_platform = demo_is_absolute"
  "path_elements demo_platform = demo_elements"
  "path_has_parent_path demo_platform = (\<lambda>p. 1 < length (demo_elements p))"
  "lexically_relative demo_platform = demo_relative"
  "weakly_canonical demo_platform = (\<lambda>p w. if p = ''/data/../x'' then Some ''/x'' else Some p)"
  "system_complete demo_platform = (\<lambda>p w. p)"
  "fs_exists demo_platform = (\<lambda>p w. p = ''/data'' \<or> p = ''config'')"
  "is_directory demo_platform = (\<lambda>p w. p = ''/data'')"
  "list_directory demo_platform = (\<lambda>p w. Some [''d'', ''d-wal'', ''e''])"
  "is_regular_file demo_platform = (\<lambda>p w. True)"
  "fs_remove demo_platform = (\<lambda>p w. (Some (p = ''/data/d''), w))"
  "read_file demo_platform = (\<lambda>p w. p)"
  "make_network_v4 demo_platform = (\<lambda>s. if s = ''10.0.0.0/8'' then Some (0x0A000000, 8) else None)"
  "make_address_v4 demo_platform = (\<lambda>s. if s = ''127.0.0.1'' then Some 0x7F000001 else None)"
  "make_network_v6 demo_platform = (\<lambda>s. None)"
  "make_address_v6 demo_platform = (\<lambda>s. if s = ''::1'' then Some 1 else None)"
  "canonical_v4 demo_platform = (\<lambda>(a, p). (clear_host_bits a p, p))"
  "canonical_v6 demo_platform = (\<lambda>(a, p). (clear_host_bits a p, p))"
  "network_v4_to_string demo_platform = (\<lambda>_. ''v4'')"
  "network_v6_to_string demo_platform = (\<lambda>_. ''v6'')"
  "make_address demo_platform = (\<lambda>s. V4 0x7F000001)"
  "dns_resolve demo_platform = (\<lambda>ip port. if ip = ''localhost'' then Some [(V6 1, 3333), (V4 0x7F000001, 3333)] else if ip = ''::1'' then Some [(V6 1, 4000)] else None)"
  "hardware_concurrency demo_platform = 8"
  by (simp_all add: demo_platform_def)

lemma demo_string_laws: "string_laws demo_platform"
proof -
  have "length t \<le> length s \<and> drop (length s - length t) s = t \<longleftrightarrow> (\<exists>r. s = r @ t)"
    for s t :: string
    by (metis append_eq_append_conv append_take_drop_id diff_diff_cancel le_add2 length_append
        length_drop)
  then show ?thesis by (simp add: string_laws_def demo_fields)
qed

lemma demo_elements_dot: "demo_elements p = [''.''] \<longleftrightarrow> p = ''.''"
proof
  assume "demo_elements p = [''.'']"
  then have "split_on CHR ''/'' p = [''.'']" by (simp add: demo_elements_def split: if_splits)
  then show "p = ''.''" using demo_join_split [of p] by simp
qed (simp add: demo_elements_def)

lemma demo_path_laws: "path_laws demo_platform"
proof -
  have "demo_elements p = [] \<longleftrightarrow> p = []" for p by (simp add: demo_elements_def)
  then show ?thesis
    by (simp add: path_laws_def demo_fields demo_elements_relative demo_relative_not_absolute
        demo_elements_dot)
qed

lemma demo_network_laws: "network_laws demo_platform"
  by (simp add: network_laws_def demo_fields)

lemma demo_conversion_laws: "conversion_laws demo_platform"
  by (auto simp: conversion_laws_def demo_fields split: json.splits)

section \<open>The engine\<close>

text \<open>One integer column named \<^verbatim>\<open>n\<close>; \<open>w\<close> rows, counting down; one statement, number 7.\<close>

definition demo_api :: "nat sqlite_api" where
  "demo_api =
     \<lparr>sq_open = (\<lambda>path w. ((SQLITE_OK, 1), w)),
      sq_errcode = (\<lambda>db w. 1),
      sq_extended_errcode = (\<lambda>db w. 1555),
      sq_errmsg = (\<lambda>db w. ''constraint''),
      sq_close = (\<lambda>db w. w),
      sq_busy_timeout = (\<lambda>db t w. w),
      sq_prepare_v2 = (\<lambda>db q n w. ((SQLITE_OK, Some 7), w)),
      sq_step = (\<lambda>st w. if w = 0 then (SQLITE_DONE, 0) else if 100 \<le> w then (19, w)
                        else (SQLITE_ROW, w - 1)),
      sq_db_handle = (\<lambda>st w. 1),
      sq_column_count = (\<lambda>st w. 1),
      sq_column_name = (\<lambda>st i w. ''n''),
      sq_column_type = (\<lambda>st i w. 1),
      sq_value_int64 = (\<lambda>st i w. int w),
      sq_value_double = (\<lambda>st i w. 0),
      sq_value_text = (\<lambda>st i w. []),
      sq_value_blob = (\<lambda>st i w. []),
      sq_value_bytes = (\<lambda>st i w. 0),
      sq_clear_bindings = (\<lambda>st w. w),
      sq_finalize = (\<lambda>st w. w)\<rparr>"

lemma demo_api_fields:
  "sq_open demo_api = (\<lambda>path w. ((SQLITE_OK, 1), w))"
  "sq_errcode demo_api = (\<lambda>db w. 1)"
  "sq_extended_errcode demo_api = (\<lambda>db w. 1555)"
  "sq_errmsg demo_api = (\<lambda>db w. ''constraint'')"
  "sq_close demo_api = (\<lambda>db w. w)"
  "sq_busy_timeout demo_api = (\<lambda>db t w. w)"
  "sq_prepare_v2 demo_api = (\<lambda>db q n w. ((SQLITE_OK, Some 7), w))"
  "sq_step demo_api = (\<lambda>st w. if w = 0 then (SQLITE_DONE, 0) else if 100 \<le> w then (19, w) else (SQLITE_ROW, w - 1))"
  "sq_db_handle demo_api = (\<lambda>st w. 1)"
  "sq_column_count demo_api = (\<lambda>st w. 1)"
  "sq_column_name demo_api = (\<lambda>st i w. ''n'')"
  "sq_column_type demo_api = (\<lambda>st i w. 1)"
  "sq_value_int64 demo_api = (\<lambda>st i w. int w)"
  "sq_value_double demo_api = (\<lambda>st i w. 0)"
  "sq_value_text demo_api = (\<lambda>st i w. [])"
  "sq_value_blob demo_api = (\<lambda>st i w. [])"
  "sq_value_bytes demo_api = (\<lambda>st i w. 0)"
  "sq_clear_bindings demo_api = (\<lambda>st w. w)"
  "sq_finalize demo_api = (\<lambda>st w. w)"
  by (simp_all add: demo_api_def)

definition demo_config :: config where
  "demo_config = config_default\<lparr>databases_folder := ''/data'', client_max_packet_size := 1024\<rparr>"

end
