(* ===== verification/Demo_Runs.thy ===== *)
theory Demo_Runs
  imports Server Demo_Platform
begin

text \<open>
  Concrete runs of the server on the platform of \<^verbatim>\<open>Demo_Platform\<close>: a client that is dropped and one
  that stops taking answers. They show that the hypotheses of the theorems about runs can be met.
\<close>

lemma demo_allowed: "is_ip_allowed demo_platform demo_config a"
  by (cases a) (simp_all add: is_ip_allowed.simps demo_config_def config_default_def)

text \<open>A client that connects, announces a request that is too long and is dropped.\<close>

definition demo_accepted :: "nat server" where
  "demo_accepted = on_accept demo_platform (demo_config\<lparr>auth := ''secret''\<rparr>) False (Some (V4 0))
     (new_ListenSocket 5)"

definition demo_dropped :: "nat server" where
  "demo_dropped = demo_accepted\<lparr>conns :=
     [on_header False (demo_config\<lparr>auth := ''secret''\<rparr>) False [0, 0, 1, 0]
        (do_read (new_SQLiteSocket new_RequestHandler))], world := 5\<rparr>"

lemma demo_run:
  "server_step False demo_platform demo_api (demo_config\<lparr>auth := ''secret''\<rparr>)
     (new_ListenSocket 5) demo_accepted"
  "server_step False demo_platform demo_api (demo_config\<lparr>auth := ''secret''\<rparr>) demo_accepted demo_dropped"
  "server_step False demo_platform demo_api (demo_config\<lparr>auth := ''secret''\<rparr>) demo_dropped
     (SQLiteSocket_dtor demo_api 0 [] demo_dropped)"
proof -
  let ?c = "demo_config\<lparr>auth := ''secret''\<rparr>" and ?k = "do_read (new_SQLiteSocket new_RequestHandler)"
  show "server_step False demo_platform demo_api ?c (new_ListenSocket 5) demo_accepted"
    unfolding demo_accepted_def by (rule accept_step) (simp add: new_ListenSocket_def do_accept_def)
  have acc: "conns demo_accepted = [?k]" "world demo_accepted = 5"
    by (simp_all add: demo_accepted_def on_accept_def new_ListenSocket_def do_accept_def Let_def
        is_ip_allowed.simps demo_config_def config_default_def)
  have "conn_step False ?c (handle_request demo_platform demo_api ?c)
      (join_world (world demo_accepted) (conns demo_accepted ! 0))
      (on_header False ?c False [0, 0, 1, 0] (join_world 5 ?k))"
    unfolding acc nth_Cons_0 by (rule recv_header) (simp_all add: join_world_def do_read_def)
  from conn_progress [OF _ this]
  show "server_step False demo_platform demo_api ?c demo_accepted demo_dropped"
    by (simp add: acc demo_dropped_def on_header_def join_world_def drop_world_def Let_def)
       (simp add: acc demo_dropped_def on_header_def join_world_def drop_world_def Let_def
         do_read_def new_SQLiteSocket_def split: if_splits)
  show "server_step False demo_platform demo_api ?c demo_dropped (SQLiteSocket_dtor demo_api 0 [] demo_dropped)"
    by (rule conn_destroyed)
       (simp_all add: demo_dropped_def unowned_def on_header_def Let_def host_u32_def le_u32_def
         demo_config_def do_read_def new_SQLiteSocket_def new_RequestHandler_def)
qed

text \<open>A client whose request of one byte is refused and who does not take the answer.\<close>

definition demo_stuck :: "handler connection" where
  "demo_stuck =
     \<lparr>m_packet_size = 1, m_request = ''x'', m_handler = new_RequestHandler,
      m_out_packets = [response_data ''{}''], phase = AwaitHeader, is_open = True, in_flight = None,
      delivered = [], write_failed = True\<rparr>"

lemma demo_stuck_reachable:
  "conn_reachable False demo_config (handle_request demo_platform demo_api demo_config)
     (new_RequestHandler, 5::nat) (join_world 5 demo_stuck)"
proof -
  let ?h = "handle_request demo_platform demo_api demo_config"
  let ?k = "do_read (new_SQLiteSocket (new_RequestHandler, 5::nat))"
  have req: "?h ''x'' (new_RequestHandler, 5) = Some (Inr (response_data ''{}''), (new_RequestHandler, 5))"
    by (simp add: handle_request_def parse_request_def demo_fields demo_parse_def respond_eq
        make_Response_def invalid_format_def json_obj_def)
  have h: "on_header False demo_config False (header_bytes 1) ?k =
      ?k\<lparr>m_packet_size := 1, m_request := [CHR 0x00], phase := AwaitBody\<rparr>"
    using on_header_accepts [of "''x''" demo_config ?k]
    by (simp add: demo_config_def resize_def new_SQLiteSocket_def do_read_def)
  have f: "feed False demo_config ?h [Request 0 ''x''] ?k =
      Some (Inr (), (join_world 5 demo_stuck)\<lparr>in_flight := Some (response_data ''{}''), write_failed := False\<rparr>)"
    using h
    by (simp add: req on_body_def do_read_def send_response_def do_write_def new_SQLiteSocket_def
        demo_stuck_def join_world_def Let_def)
  have "conn_reachable False demo_config ?h (new_RequestHandler, 5)
      (on_write True ((join_world 5 demo_stuck)\<lparr>in_flight := Some (response_data ''{}''), write_failed := False\<rparr>))"
    by (rule conn_reachable.step [OF feed_reachable [OF conn_reachable.start f] write_end]) simp
  then show ?thesis by (simp add: on_write_def demo_stuck_def join_world_def)
qed

end
