(* ===== verification/Server_Properties.thy ===== *)
theory Server_Properties
  imports Demo_Runs
begin

text \<open>
  The properties of the server's components, each with a witness on the concrete platform of
  \<^verbatim>\<open>Demo_Platform\<close> where it has hypotheses.
\<close>

section \<open>Access control\<close>

text \<open>
  C6: While a password is configured and none of the requests of a connection carries it, every
  request is answered by a refusal, or by the format error for a text that is not JSON, or ends the
  service with the exception its text makes the JSON library throw; in every case neither the
  handler nor the files and databases behind it change.
\<close>

theorem unauthenticated_requests_have_no_effect:
  assumes "auth c \<noteq> []" and "\<not> m_authenticated h"
    and "\<forall>req \<in> set reqs. \<not> carries_password P c req"
  shows "serve (handle_request P A c) reqs (h, w) =
     Some (collect_answers (map (refused P) reqs), (h, w))"
  using assms by (rule serve_unauthenticated)

theorem unauthenticated_requests_have_no_effect_witness:
  "serve (handle_request demo_platform demo_api (demo_config\<lparr>auth := ''secret''\<rparr>))
     [''query'', ''junk''] (new_RequestHandler, 3) =
   Some (Inr [response_data ''{}'', response_data ''{}''], (new_RequestHandler, 3)) \<and>
   serve (handle_request demo_platform demo_api (demo_config\<lparr>auth := ''secret''\<rparr>))
     [''query'', ''1e999'', ''query''] (new_RequestHandler, 3) =
   Some (Inl (Json_out_of_range 406), (new_RequestHandler, 3))"
proof -
  have r: "refused demo_platform ''query'' = Inr (response_data ''{}'')"
    "refused demo_platform ''junk'' = Inr (response_data ''{}'')"
    "refused demo_platform ''1e999'' = Inl (Json_out_of_range 406)"
    by (simp_all add: refused_def parse_request_def demo_fields demo_parse_def make_Response_def
        invalid_format_def result_json_def json_obj_def)
  have p: "\<not> carries_password demo_platform (demo_config\<lparr>auth := ''secret''\<rparr>) req"
    if "req = ''query'' \<or> req = ''junk'' \<or> req = ''1e999''" for req
    using that by (auto simp: carries_password_def parse_request_def demo_fields demo_parse_def
        auth_matches_def demo_query_def)
  have s: "serve (handle_request demo_platform demo_api (demo_config\<lparr>auth := ''secret''\<rparr>)) reqs
      (new_RequestHandler, 3) = Some (collect_answers (map (refused demo_platform) reqs), (new_RequestHandler, 3))"
    if "\<forall>req \<in> set reqs. req = ''query'' \<or> req = ''junk'' \<or> req = ''1e999''" for reqs
    by (rule unauthenticated_requests_have_no_effect) (use that p in \<open>auto simp: new_RequestHandler_def\<close>)
  show ?thesis using s [of "[''query'', ''junk'']"] s [of "[''query'', ''1e999'', ''query'']"]
    by (simp add: r)
qed

text \<open>
  C2: Whatever the interleaving of accepts, of the connections' reads and writes, failed or not, and
  of their ends, when a password is configured and no connection had authenticated in any earlier
  state of a run, the files and databases are as they were when the server started.
\<close>

theorem world_untouched_before_authentication:
  assumes "auth c \<noteq> []" and "server_trace big_endian P A c w0 (v # vs)"
    and "\<forall>u \<in> set vs. \<forall>k \<in> set (conns u). \<not> m_authenticated (m_handler k)"
  shows "world v = w0"
  using unauthenticated_world [OF assms(1,2)] assms(3) by (simp add: all_unauthenticated_def)

theorem world_untouched_before_authentication_witness:
  "conns demo_dropped \<noteq> [] \<and> conns (SQLiteSocket_dtor demo_api 0 [] demo_dropped) = [] \<and>
   world (SQLiteSocket_dtor demo_api 0 [] demo_dropped) = 5"
proof -
  let ?c = "demo_config\<lparr>auth := ''secret''\<rparr>"
  have "server_trace False demo_platform demo_api ?c 5
     [SQLiteSocket_dtor demo_api 0 [] demo_dropped, demo_dropped, demo_accepted, new_ListenSocket 5]"
    by (intro trace_next trace_start demo_run)
  from world_untouched_before_authentication [OF _ this]
  have "world (SQLiteSocket_dtor demo_api 0 [] demo_dropped) = 5"
    by (auto simp: demo_dropped_def demo_accepted_def on_accept_def on_header_def new_ListenSocket_def
        do_accept_def Let_def do_read_def new_SQLiteSocket_def new_RequestHandler_def)
  then show ?thesis by (simp add: demo_dropped_def SQLiteSocket_dtor_def remove_nth_def)
qed



text \<open>
  C9: After the configuration is loaded, an address may connect exactly when no whitelist is
  configured or when it agrees with one of the configured networks of its family on the bits of
  the network's prefix.
\<close>

theorem whitelist_admits_by_prefix:
  assumes "network_laws P" and "config_init P vm w config_default = Inr c"
  shows "is_ip_allowed P c address \<longleftrightarrow>
     ip_whitelist_v4 c = [] \<and> ip_whitelist_v6 c = [] \<or>
     (case address of
        V4 a \<Rightarrow> \<exists>net \<in> set (ip_whitelist_v4 c). same_prefix (snd net) a (fst net)
      | V6 a \<Rightarrow> \<exists>net \<in> set (ip_whitelist_v6 c). same_prefix (snd net) a (fst net))"
  using is_ip_allowed_iff [OF assms(1) config_init_wf [OF assms(1) whitelist_wf_default assms(2)]] .

theorem whitelist_admits_by_prefix_witness:
  "\<exists>c. config_init demo_platform
        ((default_options demo_platform)\<lparr>opt_databases_folder := ''/data'',
           opt_ip_whitelist := ''10.0.0.0/8, 127.0.0.1''\<rparr>) 0 config_default = Inr c \<and>
     (is_ip_allowed demo_platform c (V4 0x0A010203) \<longleftrightarrow>
        ip_whitelist_v4 c = [] \<and> ip_whitelist_v6 c = [] \<or>
        (\<exists>net \<in> set (ip_whitelist_v4 c). same_prefix (snd net) 0x0A010203 (fst net)))"
proof -
  let ?vm = "(default_options demo_platform)\<lparr>opt_databases_folder := ''/data'',
           opt_ip_whitelist := ''10.0.0.0/8, 127.0.0.1''\<rparr>"
  have csv: "split_csv demo_platform ''10.0.0.0/8, 127.0.0.1'' = [''10.0.0.0/8'', ''127.0.0.1'']"
    by (simp add: split_csv_def split_csv_loop.simps demo_fields Let_def)
  have res: "resolve_endpoint demo_platform ''localhost'' 3333 = Inr (V4 0x7F000001, 3333)"
    by (simp add: resolve_endpoint_def demo_fields)
  obtain c where c: "config_init demo_platform ?vm 0 config_default = Inr c"
    by (simp add: config_init_def default_options_def init_from_options_def csv res
        resolve_database_path_def add_whitelist_entry_def demo_fields)
  from whitelist_admits_by_prefix [OF demo_network_laws c, of "V4 0x0A010203"] c
  show ?thesis by auto
qed

text \<open>
  The endpoint the server listens on is always an IPv4 endpoint: an address that resolves to
  IPv6 only is replaced by the fallback 127.0.0.1 port 3333, whatever port was configured.
\<close>

theorem listens_on_ipv4_only:
  assumes "make_address P ''127.0.0.1'' = V4 0x7F000001"
    and "config_init P vm w c = Inr c'"
  shows "is_v4 (fst (listen_endpoint c')) \<and>
    (\<forall>ip port eps. dns_resolve P ip (to_string (unat port)) = Some eps \<and> (\<forall>e \<in> set eps. \<not> is_v4 (fst e)) \<longrightarrow>
       resolve_endpoint P ip port = Inr (V4 0x7F000001, 3333))"
proof
  have v4: "is_v4 (make_address P ''127.0.0.1'')" using assms(1) by simp
  from assms(2) show "is_v4 (fst (listen_endpoint c'))"
  proof (cases rule: config_init_InrE)
    case 1
    then show ?thesis
      by (rule init_from_options_InrE)
         (auto dest!: add_whitelist_entries_frame resolve_endpoint_v4 [OF v4])
  next
    case (2 j)
    then show ?thesis
      by (rule init_from_json_InrE)
         (auto dest!: init_whitelist_frame resolve_endpoint_v4 [OF v4])
  qed
  show "\<forall>ip port eps. dns_resolve P ip (to_string (unat port)) = Some eps \<and> (\<forall>e \<in> set eps. \<not> is_v4 (fst e)) \<longrightarrow>
       resolve_endpoint P ip port = Inr (V4 0x7F000001, 3333)"
    using assms(1)
    by (auto simp: resolve_endpoint_def find_None_iff find_Some_iff split: option.splits)
qed

theorem listens_on_ipv4_only_witness:
  "resolve_endpoint demo_platform ''::1'' 4000 = Inr (V4 0x7F000001, 3333)"
proof -
  have m: "make_address demo_platform ''127.0.0.1'' = V4 0x7F000001" by (simp add: demo_fields)
  have res: "resolve_endpoint demo_platform ''localhost'' 3333 = Inr (V4 0x7F000001, 3333)"
    by (simp add: resolve_endpoint_def demo_fields)
  obtain c where c: "config_init demo_platform
      ((default_options demo_platform)\<lparr>opt_databases_folder := ''/data''\<rparr>) 0 config_default = Inr c"
    by (simp add: config_init_def default_options_def init_from_options_def res split_csv_def
        split_csv_loop.simps resolve_database_path_def demo_fields)
  have "dns_resolve demo_platform ''::1'' (to_string (unat (4000::u16))) = Some [(V6 1, 4000)]"
    by (simp add: demo_fields)
  with listens_on_ipv4_only [OF m c] show ?thesis by fastforce
qed

text \<open>
  The comma separated whitelist of the command line is cut into the non-empty trimmed pieces
  between the commas.
\<close>

theorem command_line_whitelist_pieces:
  assumes "string_laws P"
  shows "split_csv P s = filter (\<lambda>x. x \<noteq> []) (map (str_trim P) (split_on CHR '','' s))"
  using assms split_csv_loop_eq [of "str_trim P" s "[]"]
  by (simp add: split_csv_def string_laws_def)

theorem command_line_whitelist_pieces_witness:
  "split_csv demo_platform ''a, b'' = filter (\<lambda>x. x \<noteq> []) (map (str_trim demo_platform) [''a'', '' b''])"
  using command_line_whitelist_pieces [OF demo_string_laws, of "''a, b''"] by simp

text \<open>
  A whitelist entry on the command line that is neither an address nor a network ends the
  start of the process with a configuration error that names an offending entry.
\<close>

theorem invalid_whitelist_entry_is_fatal:
  assumes "e \<in> set (split_csv P (opt_ip_whitelist vm))"
    and "make_network_v4 P e = None" "make_address_v4 P e = None"
    and "make_network_v6 P e = None" "make_address_v6 P e = None"
    and "resolve_endpoint P (opt_ip vm) (opt_port vm) = Inr endpoint"
    and "resolve_database_path P (opt_databases_folder vm) w = Inr folder" "opt_config vm = None"
    and "parser (default_options P) argv = Inr (False, False, vm)"
  shows "\<exists>e' \<in> set (split_csv P (opt_ip_whitelist vm)).
     main P parser argv w = Exit_failure (''Invalid ip_whitelist entry: '' @ e')"
proof -
  have "add_whitelist_entry P e c = Inl (invalid_entry e)" for c
    using assms(2-5) by (simp add: add_whitelist_entry_def Let_def)
  from config_init_invalid_entry [OF assms(1) this assms(6-8), of config_default] show ?thesis
    using assms(9) by (auto simp: main_def process_program_options_def)
qed

theorem invalid_whitelist_entry_is_fatal_witness:
  "\<exists>e' \<in> set (split_csv demo_platform ''10.0.0.0/8, nonsense'').
     main demo_platform (\<lambda>vm argv. Inr (False, False,
       vm\<lparr>opt_databases_folder := ''/data'', opt_ip_whitelist := ''10.0.0.0/8, nonsense''\<rparr>)) [] 0 =
     Exit_failure (''Invalid ip_whitelist entry: '' @ e')"
proof -
  let ?vm = "(default_options demo_platform)\<lparr>opt_databases_folder := ''/data'',
      opt_ip_whitelist := ''10.0.0.0/8, nonsense''\<rparr>"
  have csv: "split_csv demo_platform ''10.0.0.0/8, nonsense'' = [''10.0.0.0/8'', ''nonsense'']"
    by (simp add: split_csv_def split_csv_loop.simps demo_fields Let_def)
  have "\<exists>e' \<in> set (split_csv demo_platform (opt_ip_whitelist ?vm)).
     main demo_platform (\<lambda>vm argv. Inr (False, False,
       vm\<lparr>opt_databases_folder := ''/data'', opt_ip_whitelist := ''10.0.0.0/8, nonsense''\<rparr>)) [] 0 =
     Exit_failure (''Invalid ip_whitelist entry: '' @ e')"
    by (rule invalid_whitelist_entry_is_fatal [where e = "''nonsense''"
          and endpoint = "(V4 0x7F000001, 3333)" and folder = "''/data''"])
       (simp_all add: csv default_options_def resolve_endpoint_def resolve_database_path_def demo_fields)
  then show ?thesis by simp
qed

section \<open>Database names\<close>

text \<open>
  C3: A database name that passes the check resolves to a direct child of the databases folder: the
  canonical path is the canonical folder with exactly one more element, which is not a dot entry.
\<close>

theorem safe_database_name_contained:
  assumes "path_laws P" and "is_safe_database_name P c w name"
    and "weakly_canonical P (databases_folder c) w = Some base"
    and "path_is_absolute P base" and "path_elements P base \<noteq> []"
    and "plain_elements (tl (path_elements P base))"
  shows "\<exists>full e. weakly_canonical P (path_append P base name) w = Some full \<and>
     path_elements P full = path_elements P base @ [e] \<and> e \<noteq> ''.'' \<and> e \<noteq> ''..''"
proof -
  obtain full where full: "weakly_canonical P (path_append P base name) w = Some full"
    using assms(2,3) by (auto simp: is_safe_database_name_def split: if_splits option.splits)
  let ?rel = "lexically_relative P full base"
  have safe: "?rel \<noteq> []" "?rel \<noteq> ''.''" "\<not> path_has_parent_path P ?rel"
    "\<exists>e es. path_elements P ?rel = e # es \<and> e \<noteq> ''..''"
    using assms(2,3) full
    by (auto simp: is_safe_database_name_def Let_def split: if_splits list.splits)
  have "length (path_elements P ?rel) \<le> 1"
    using path_lawsD(4) [OF assms(1) path_lawsD(5) [OF assms(1,4)]] safe(3) by (simp add: not_less)
  then obtain e where e: "path_elements P ?rel = [e]" "e \<noteq> ''..''"
    using safe(4) by auto
  have "e \<noteq> ''.''" using e(1) safe(2) path_lawsD(2) [OF assms(1), of ?rel] by auto
  moreover have "relative_elements (path_elements P full) (path_elements P base) = [e]"
    using e(1) path_lawsD(3) [OF assms(1)] by simp
  ultimately have "path_elements P full = path_elements P base @ [e]"
    using e(2) assms(5,6) by (intro relative_elements_single) auto
  with full e \<open>e \<noteq> ''.''\<close> show ?thesis by blast
qed

theorem safe_database_name_contained_witness:
  "\<exists>full e. weakly_canonical demo_platform (path_append demo_platform ''/data'' ''d'') 0 = Some full \<and>
     path_elements demo_platform full = path_elements demo_platform ''/data'' @ [e] \<and>
     e \<noteq> ''.'' \<and> e \<noteq> ''..''"
proof (rule safe_database_name_contained [where c = demo_config, OF demo_path_laws])
  show "is_safe_database_name demo_platform demo_config 0 ''d''"
    by (simp add: is_safe_database_name_def demo_fields demo_config_def demo_is_absolute_def
        demo_relative_def demo_elements_def relative_elements_def climbs_def)
qed (simp_all add: demo_fields demo_config_def demo_is_absolute_def demo_elements_def
      plain_elements_def)

text \<open>
  C7: A name that fails the check never reaches the engine or the file system. The delete command
  answers with the code for a missing database; so does a query with a query text, and a query
  without one is answered, or ended by the exception for a member that is no text, before the name is
  looked at. Handler and world stay as they are in every case.
\<close>

theorem unsafe_database_name_rejected:
  assumes "json_find j ''db'' = Some (JStr name)" and "\<not> is_safe_database_name P c w name"
  shows "handle_delete_db P A c j (h, w) =
       Some (make_Response (json_dump P) (generic_error NO_DATABASE_SPECIFIED j), (h, w)) \<and>
     handle_query P A c j (h, w) =
       Some (case json_find j ''query'' of
               None \<Rightarrow> make_Response (json_dump P) (generic_error ERROR_READING_FROM_CLIENT j)
             | Some (JStr _) \<Rightarrow> make_Response (json_dump P) (generic_error NO_DATABASE_SPECIFIED j)
             | Some _ \<Rightarrow> Inl (Json_type_error 302), (h, w))"
  using assms
  by (simp add: handle_query_def handle_delete_db_def respond_eq throw_def split: option.splits json.splits)

theorem unsafe_database_name_rejected_witness:
  "handle_delete_db demo_platform demo_api demo_config (json_obj [(''db'', JStr ''../x'')]) (new_RequestHandler, 2) =
       Some (make_Response (json_dump demo_platform)
         (generic_error NO_DATABASE_SPECIFIED (json_obj [(''db'', JStr ''../x'')])), (new_RequestHandler, 2)) \<and>
   handle_query demo_platform demo_api demo_config demo_escape (new_RequestHandler, 2) =
       Some (make_Response (json_dump demo_platform) (generic_error NO_DATABASE_SPECIFIED demo_escape),
         (new_RequestHandler, 2))"
proof -
  have unsafe: "\<not> is_safe_database_name demo_platform demo_config 2 ''../x''"
    by (simp add: is_safe_database_name_def demo_fields demo_config_def demo_is_absolute_def
        demo_relative_def demo_elements_def relative_elements_def climbs_def plain_elements_def)
  have "json_find (json_obj [(''db'', JStr ''../x'')]) ''db'' = Some (JStr ''../x'')"
    "json_find demo_escape ''db'' = Some (JStr ''../x'')"
    "json_find demo_escape ''query'' = Some (JStr ''SELECT'')"
    by (simp_all add: demo_escape_def)
  note this(3) and unsafe_database_name_rejected [OF this(1) unsafe, of demo_api new_RequestHandler]
    and unsafe_database_name_rejected [OF this(2) unsafe, of demo_api new_RequestHandler]
  then show ?thesis by simp
qed

section \<open>Queries\<close>

text \<open>
  C1: A query is reported as successful exactly when its statement was prepared and the engine then
  delivered rows until it said done: the rows reported are all the rows delivered, in order, and
  the statement has been finalized. Any other end of the stepping is not a success.
\<close>

theorem query_succeeds_iff_completed:
  "run_query A db query w = Some (Inr (names, rows), w') \<longleftrightarrow>
     (\<exists>st w1 w2. make_SQLStatement A db query w = Some (Inr st, w1) \<and>
        yields A st (sq_column_count A st w1) w1 rows w2 \<and>
        names = column_names A st (sq_column_count A st w1) w1 \<and>
        w' = SQLStatement_dtor A st w2)"
proof
  assume "run_query A db query w = Some (Inr (names, rows), w')"
  then obtain st w1 where st: "make_SQLStatement A db query w = Some (Inr st, w1)"
    "run_statement A st w1 = Some (Inr (names, rows), w')"
    unfolding run_query_def by (rule sbind_InrE)
  from st(2) show "\<exists>st w1 w2. make_SQLStatement A db query w = Some (Inr st, w1) \<and>
        yields A st (sq_column_count A st w1) w1 rows w2 \<and>
        names = column_names A st (sq_column_count A st w1) w1 \<and> w' = SQLStatement_dtor A st w2"
    by (cases rule: run_statement_cases) (use st(1) in auto)
next
  assume "\<exists>st w1 w2. make_SQLStatement A db query w = Some (Inr st, w1) \<and>
        yields A st (sq_column_count A st w1) w1 rows w2 \<and>
        names = column_names A st (sq_column_count A st w1) w1 \<and> w' = SQLStatement_dtor A st w2"
  then show "run_query A db query w = Some (Inr (names, rows), w')"
    by (auto simp: run_query_prepared run_statement_yields)
qed

text \<open>
  C4: A statement that fails while it runs (busy after the timeout, a constraint, an I/O error) is
  answered with the extended error code and message of the engine, after the statement was
  finalized; the rows delivered before the failure are not reported.
\<close>

theorem runtime_error_is_reported:
  assumes "json_find j ''db'' = Some (JStr name)" and "json_find j ''query'' = Some (JStr query)"
    and "is_safe_database_name P c w name"
    and "get_database_connection P A c name (h, w) = Some (Inr db, (h1, w1))"
    and "make_SQLStatement A db query w1 = Some (Inr st, w2)" and "fails A st w2 w3"
  shows "handle_query P A c j (h, w) =
     Some (make_Response (json_dump P)
             (sql_error (sq_extended_errcode A (sq_db_handle A st w3) w3)
                (sq_errmsg A (sq_db_handle A st w3) w3) j),
           (h1, SQLStatement_dtor A st w3))"
  by (rule handle_query_sql_error [OF assms(1-4)])
     (simp add: run_query_prepared [OF assms(5)] run_statement_fails [OF assms(6)] step_error_def)

theorem runtime_error_is_reported_witness:
  "handle_query demo_platform demo_api demo_config demo_query (new_RequestHandler, 100) =
     Some (make_Response (json_dump demo_platform)
             (sql_error (sq_extended_errcode demo_api (sq_db_handle demo_api 7 100) 100)
                (sq_errmsg demo_api (sq_db_handle demo_api 7 100) 100) demo_query),
           (new_RequestHandler\<lparr>m_databases := [''d'' \<mapsto> 1]\<rparr>, SQLStatement_dtor demo_api 7 100))"
proof (rule runtime_error_is_reported)
  show "json_find demo_query ''db'' = Some (JStr ''d'')"
    "json_find demo_query ''query'' = Some (JStr ''SELECT'')" by (simp_all add: demo_query_def)
  show "is_safe_database_name demo_platform demo_config 100 ''d''"
    by (simp add: is_safe_database_name_def demo_fields demo_config_def demo_is_absolute_def
        demo_relative_def demo_elements_def relative_elements_def climbs_def)
  show "get_database_connection demo_platform demo_api demo_config ''d'' (new_RequestHandler, 100) =
      Some (Inr 1, (new_RequestHandler\<lparr>m_databases := [''d'' \<mapsto> 1]\<rparr>, 100))"
    by (simp add: get_database_connection_def make_SQLDatabase_def demo_api_fields new_RequestHandler_def)
  show "make_SQLStatement demo_api 1 ''SELECT'' 100 = Some (Inr 7, 100)"
    by (simp add: make_SQLStatement_def prepare_loop.simps demo_api_fields sqlite_codes)
  show "fails demo_api 7 100 100"
    by (rule fails_now [of _ _ _ 19]) (simp_all add: demo_api_fields sqlite_codes)
qed

text \<open>
  A query whose statement delivers \<open>rows\<close> and is then done is answered with the column names in
  statement order and with exactly these rows.
\<close>

theorem completed_query_is_answered:
  assumes "json_find j ''db'' = Some (JStr name)" and "json_find j ''query'' = Some (JStr query)"
    and "is_safe_database_name P c w name"
    and "get_database_connection P A c name (h, w) = Some (Inr db, (h1, w1))"
    and "make_SQLStatement A db query w1 = Some (Inr st, w2)"
    and "yields A st (sq_column_count A st w2) w2 rows w3"
  shows "handle_query P A c j (h, w) =
     Some (make_Response (json_dump P)
             (query_result (column_names A st (sq_column_count A st w2) w2) rows),
           (h1, SQLStatement_dtor A st w3))"
  by (rule handle_query_success [OF assms(1-4)])
     (simp add: run_query_prepared [OF assms(5)] run_statement_yields [OF assms(6)])

theorem completed_query_is_answered_witness:
  "handle_query demo_platform demo_api demo_config demo_query (new_RequestHandler, 1) =
     Some (make_Response (json_dump demo_platform)
             (query_result (column_names demo_api 7 (sq_column_count demo_api 7 1) 1)
                [row_data demo_api 7 (sq_column_count demo_api 7 1) 0]),
           (new_RequestHandler\<lparr>m_databases := [''d'' \<mapsto> 1]\<rparr>, SQLStatement_dtor demo_api 7 0))"
proof (rule completed_query_is_answered)
  show "json_find demo_query ''db'' = Some (JStr ''d'')"
    "json_find demo_query ''query'' = Some (JStr ''SELECT'')" by (simp_all add: demo_query_def)
  show "is_safe_database_name demo_platform demo_config 1 ''d''"
    by (simp add: is_safe_database_name_def demo_fields demo_config_def demo_is_absolute_def
        demo_relative_def demo_elements_def relative_elements_def climbs_def)
  show "get_database_connection demo_platform demo_api demo_config ''d'' (new_RequestHandler, 1) =
      Some (Inr 1, (new_RequestHandler\<lparr>m_databases := [''d'' \<mapsto> 1]\<rparr>, 1))"
    by (simp add: get_database_connection_def make_SQLDatabase_def demo_api_fields new_RequestHandler_def)
  show "make_SQLStatement demo_api 1 ''SELECT'' 1 = Some (Inr 7, 1)"
    by (simp add: make_SQLStatement_def prepare_loop.simps demo_api_fields sqlite_codes)
  show "yields demo_api 7 (sq_column_count demo_api 7 1) 1
      [row_data demo_api 7 (sq_column_count demo_api 7 1) 0] 0"
    by (intro yields_row yields_done) (simp_all add: demo_api_fields)
qed

text \<open>
  C13: A row object has its keys in increasing order, without duplicates. A name is missing exactly
  when no column of that name has one of the six known types; otherwise it holds the value of the
  last such column: an integer, the bits of a double, a text cut at its first NUL, a blob as
  quoted hexadecimal digits that read back as its bytes, or null.
\<close>

theorem row_object_contents:
  "json_wf (row_data A st n w) \<and>
   (json_find (row_data A st n w) name = None \<longleftrightarrow>
      (\<forall>i < n. c_str (sq_column_name A st i w) = name \<longrightarrow> sq_column_type A st i w \<notin> {0..5})) \<and>
   (\<forall>i < n. c_str (sq_column_name A st i w) = name \<and> sq_column_type A st i w \<in> {0..5} \<and>
      (\<forall>j < n. i < j \<and> c_str (sq_column_name A st j w) = name \<longrightarrow> sq_column_type A st j w \<notin> {0..5}) \<longrightarrow>
      (\<exists>v. json_find (row_data A st n w) name = Some v \<and>
         (sq_column_type A st i w = 1 \<longrightarrow> v = JInt (sq_value_int64 A st i w)) \<and>
         (sq_column_type A st i w = 2 \<longrightarrow> v = JFloat (sq_value_double A st i w)) \<and>
         (sq_column_type A st i w = 3 \<longrightarrow>
            v = JStr (takeWhile (\<lambda>c. c \<noteq> CHR 0x00) (sq_value_text A st i w))) \<and>
         (sq_column_type A st i w = 4 \<and> sq_value_bytes A st i w = length (sq_value_blob A st i w) \<longrightarrow>
            (\<exists>hex. v = JStr (''X'' @ [CHR 0x27] @ hex @ [CHR 0x27]) \<and>
               unhex hex = Some (sq_value_blob A st i w))) \<and>
         (sq_column_type A st i w \<in> {0, 5} \<longrightarrow> v = JNull)))"
proof (intro conjI allI impI)
  fix i
  assume "i < n" and last: "c_str (sq_column_name A st i w) = name \<and> sq_column_type A st i w \<in> {0..5} \<and>
      (\<forall>j < n. i < j \<and> c_str (sq_column_name A st j w) = name \<longrightarrow> sq_column_type A st j w \<notin> {0..5})"
  then have "json_find (row_data A st n w) name = column_value A st i w"
    by (intro row_data_last) simp_all
  with column_value_documented [of A st i w] last
  show "\<exists>v. json_find (row_data A st n w) name = Some v \<and>
         (sq_column_type A st i w = 1 \<longrightarrow> v = JInt (sq_value_int64 A st i w)) \<and>
         (sq_column_type A st i w = 2 \<longrightarrow> v = JFloat (sq_value_double A st i w)) \<and>
         (sq_column_type A st i w = 3 \<longrightarrow>
            v = JStr (takeWhile (\<lambda>c. c \<noteq> CHR 0x00) (sq_value_text A st i w))) \<and>
         (sq_column_type A st i w = 4 \<and> sq_value_bytes A st i w = length (sq_value_blob A st i w) \<longrightarrow>
            (\<exists>hex. v = JStr (''X'' @ [CHR 0x27] @ hex @ [CHR 0x27]) \<and>
               unhex hex = Some (sq_value_blob A st i w))) \<and>
         (sq_column_type A st i w \<in> {0, 5} \<longrightarrow> v = JNull)"
    by simp
qed (simp_all add: row_data_wf row_data_missing)

theorem row_object_contents_witness:
  "\<exists>hex. json_find (row_data (demo_api\<lparr>sq_column_type := (\<lambda>st i w. 4),
        sq_value_blob := (\<lambda>st i w. [0xAB, 0]), sq_value_bytes := (\<lambda>st i w. 2)\<rparr>) 7 1 0) ''n'' =
       Some (JStr (''X'' @ [CHR 0x27] @ hex @ [CHR 0x27])) \<and> unhex hex = Some [0xAB, 0]"
proof -
  let ?A = "demo_api\<lparr>sq_column_type := (\<lambda>st i w. 4),
        sq_value_blob := (\<lambda>st i w. [0xAB, 0]), sq_value_bytes := (\<lambda>st i w. 2)\<rparr>"
  from row_object_contents [of ?A 7 1 0 "''n''", THEN conjunct2, THEN conjunct2, rule_format, of 0]
  show ?thesis by (auto simp: demo_api_fields c_str_def)
qed

text \<open>
  C14: The hexadecimal text of a blob has two lowercase digits per byte and reads back as exactly the
  bytes of the blob.
\<close>

theorem blob_text_roundtrip:
  "unhex (hexStr data (length data)) = Some data \<and>
   length (hexStr data (length data)) = 2 * length data \<and>
   set (hexStr data (length data)) \<subseteq> set ''0123456789abcdef''"
proof (intro conjI)
  show "unhex (hexStr data (length data)) = Some data" by (rule unhex_hexStr)
  show "length (hexStr data (length data)) = 2 * length data"
    unfolding hexStr_whole by (induction data) (auto simp: hex_byte_eq)
  have "hexmap ! i \<in> set hexmap" if "i < 16" for i
    using that by (intro nth_mem) (simp add: hexmap_def)
  moreover have "unat b div 16 < 16" for b :: u8 using u8_lt [of b] by simp
  ultimately have "set (hex_byte b) \<subseteq> set hexmap" for b
    by (simp add: hex_byte_eq)
  then show "set (hexStr data (length data)) \<subseteq> set ''0123456789abcdef''"
    unfolding hexStr_whole hexmap_def [symmetric] by auto
qed

section \<open>The other commands\<close>

text \<open>
  The list command answers with the regular files of the databases folder whose names do not end
  in one of the three sidecar suffixes, in directory order, and changes nothing.
\<close>

theorem list_answers_databases:
  assumes "string_laws P" and "is_directory P (databases_folder c) w"
    and "list_directory P (databases_folder c) w = Some names"
  shows "handle_list P c (h, w) =
     Some (make_Response (json_dump P) (json_obj [(''list'', JArr (map JStr
       (filter (\<lambda>n. is_regular_file P (path_append P (databases_folder c) n) w \<and>
          \<not> (\<exists>r. n = r @ ''-wal'' \<or> n = r @ ''-shm'' \<or> n = r @ ''-journal'')) names)))]), (h, w))"
proof -
  have "is_sqlite_sidecar_file P n \<longleftrightarrow>
      (\<exists>r. n = r @ ''-wal'' \<or> n = r @ ''-shm'' \<or> n = r @ ''-journal'')" for n
    using assms(1) unfolding string_laws_def is_sqlite_sidecar_file_def by blast
  then show ?thesis using assms(2,3) by (simp add: handle_list_def respond_eq)
qed

theorem list_answers_databases_witness:
  "handle_list demo_platform demo_config (new_RequestHandler, 0) =
     Some (make_Response (json_dump demo_platform) (json_obj [(''list'', JArr (map JStr
       (filter (\<lambda>n. is_regular_file demo_platform (path_append demo_platform (databases_folder demo_config) n) 0 \<and>
          \<not> (\<exists>r. n = r @ ''-wal'' \<or> n = r @ ''-shm'' \<or> n = r @ ''-journal'')) [''d'', ''d-wal'', ''e''])))]),
       (new_RequestHandler, 0))"
  by (rule list_answers_databases [OF demo_string_laws])
     (simp_all add: demo_fields demo_config_def)

text \<open>
  C12: Deleting a database under a safe name removes the file of that name, answers ok exactly when a
  file was removed, and then forgets and closes the handler's own connection to it, so that the
  next query of this handler opens the database anew; connections under other names stay.
\<close>

theorem delete_forgets_connection:
  assumes "json_find j ''db'' = Some (JStr name)" and "is_safe_database_name P c w name"
    and "fs_remove P (path_append P (databases_folder c) name) w = (Some removed, w1)"
  shows "handle_delete_db P A c j (h, w) =
     Some (make_Response (json_dump P) (result_json (if removed then ''ok'' else ''error'')),
           (if removed then h\<lparr>m_databases := (m_databases h)(name := None)\<rparr> else h,
            case m_databases h name of
              Some db \<Rightarrow> if removed then sq_close A db w1 else w1
            | None \<Rightarrow> w1))"
  using assms
  by (auto simp: handle_delete_db_def respond_eq erase_database_def SQLDatabase_dtor_def fun_upd_idem
      split: option.splits)

theorem delete_forgets_connection_witness:
  "handle_delete_db demo_platform demo_api demo_config demo_delete
     (new_RequestHandler\<lparr>m_databases := [''d'' \<mapsto> 1]\<rparr>, 4) =
     Some (make_Response (json_dump demo_platform) (result_json ''ok''), (new_RequestHandler, 4))"
proof -
  have "json_find demo_delete ''db'' = Some (JStr ''d'')" by (simp add: demo_delete_def)
  moreover have "is_safe_database_name demo_platform demo_config 4 ''d''"
    by (simp add: is_safe_database_name_def demo_fields demo_config_def demo_is_absolute_def
        demo_relative_def demo_elements_def relative_elements_def climbs_def)
  moreover have "fs_remove demo_platform (path_append demo_platform (databases_folder demo_config) ''d'') 4 =
      (Some True, 4)"
    by (simp add: demo_fields demo_config_def)
  ultimately show ?thesis
    by (subst delete_forgets_connection)
       (assumption | simp add: demo_api_fields new_RequestHandler_def)+
qed

text \<open>
  A handler opens a database once: after a successful connection the same name gives the same
  connection without touching the engine again, until the name is deleted.
\<close>

theorem connection_is_reused:
  assumes "get_database_connection P A c name (h, w) = Some (Inr db, (h', w'))"
  shows "get_database_connection P A c name (h', w'') = Some (Inr db, (h', w''))"
  using get_database_connection_Inr(1) [OF assms] by (rule get_database_connection_cached)

theorem connection_is_reused_witness:
  "get_database_connection demo_platform demo_api demo_config ''d''
     (new_RequestHandler\<lparr>m_databases := [''d'' \<mapsto> 1]\<rparr>, 9) =
   Some (Inr 1, (new_RequestHandler\<lparr>m_databases := [''d'' \<mapsto> 1]\<rparr>, 9))"
proof (rule connection_is_reused)
  show "get_database_connection demo_platform demo_api demo_config ''d'' (new_RequestHandler, 3) =
      Some (Inr 1, (new_RequestHandler\<lparr>m_databases := [''d'' \<mapsto> 1]\<rparr>, 3))"
    by (simp add: get_database_connection_def make_SQLDatabase_def demo_api_fields new_RequestHandler_def)
qed

section \<open>Exceptions that leave the handler\<close>

text \<open>
  C15: A request whose command is not a JSON string makes the conversion to a string throw; nothing
  between the handler and the worker thread catches this, so the completion handler of the body
  read ends with the exception.
\<close>

theorem non_string_command_escapes:
  assumes "parse_request P req = Inr j" and "json_find j ''cmd'' = Some v" and "\<forall>t. v \<noteq> JStr t"
    and "auth c = [] \<or> m_authenticated h \<and> \<not> auth_matches c j" and "m_handler k = (h, w)"
  shows "handle_request P A c req (h, w) = Some (Inl (Json_type_error 302), (h, w)) \<and>
     (\<exists>k'. on_body (handle_request P A c) False req k = Some (Inl (Json_type_error 302), k'))"
proof -
  have "json_string v = Inl (Json_type_error 302)" using assms(3) by (cases v) auto
  then have "dispatch P A c req j (h, w) = Some (Inl (Json_type_error 302), (h, w))"
    using assms(2) by (simp add: dispatch_def throw_def)
  then have "handle_request P A c req (h, w) = Some (Inl (Json_type_error 302), (h, w))"
    using assms(1,4) by (auto simp: handle_request_def)
  with assms(5) show ?thesis by (simp add: on_body_def Let_def)
qed

theorem non_string_command_escapes_witness:
  "handle_request demo_platform demo_api demo_config ''number'' (new_RequestHandler, 0) =
     Some (Inl (Json_type_error 302), (new_RequestHandler, 0)) \<and>
   (\<exists>k'. on_body (handle_request demo_platform demo_api demo_config) False ''number''
       (new_SQLiteSocket (new_RequestHandler, 0)) = Some (Inl (Json_type_error 302), k'))"
  by (rule non_string_command_escapes [where j = "json_obj [(''cmd'', JUInt 1)]" and v = "JUInt 1"])
     (simp_all add: parse_request_def demo_fields demo_parse_def demo_config_def config_default_def
       new_SQLiteSocket_def)

text \<open>
  C16: A request that cannot be parsed is echoed in the error response; if the library refuses to
  print that response (the text is not UTF-8), the exception leaves the handler, before and
  without any authentication.
\<close>

theorem unprintable_request_escapes:
  assumes "parse_request P req = Inl (Json_parse_error what)"
    and "json_dump P (invalid_format what req) = None"
  shows "handle_request P A c req (h, w) = Some (Inl (Json_type_error 316), (h, w))"
  using assms by (simp add: handle_request_def respond_eq make_Response_def)

theorem unprintable_request_escapes_witness:
  "handle_request (demo_platform\<lparr>json_dump := (\<lambda>_. None)\<rparr>) demo_api demo_config [CHR 0xFF]
     (new_RequestHandler, 0) = Some (Inl (Json_type_error 316), (new_RequestHandler, 0))"
  by (rule unprintable_request_escapes [where what = "''unexpected character''"])
     (simp_all add: parse_request_def demo_fields demo_parse_def)

text \<open>
  A request whose text holds a number too large for a double makes the JSON library throw an
  exception that is no parse error: it is not caught, and it ends the completion handler of the
  body read, before and without any authentication.
\<close>

theorem number_overflow_escapes:
  assumes "parse_request P req = Inl (Json_out_of_range n)" and "m_handler k = (h, w)"
  shows "handle_request P A c req (h, w) = Some (Inl (Json_out_of_range n), (h, w)) \<and>
     (\<exists>k'. on_body (handle_request P A c) False req k = Some (Inl (Json_out_of_range n), k'))"
  using assms by (simp add: handle_request_def throw_def on_body_def Let_def)

theorem number_overflow_escapes_witness:
  "handle_request demo_platform demo_api (demo_config\<lparr>auth := ''secret''\<rparr>) ''1e999'' (new_RequestHandler, 0) =
     Some (Inl (Json_out_of_range 406), (new_RequestHandler, 0)) \<and>
   (\<exists>k'. on_body (handle_request demo_platform demo_api (demo_config\<lparr>auth := ''secret''\<rparr>)) False ''1e999''
       (new_SQLiteSocket (new_RequestHandler, 0)) = Some (Inl (Json_out_of_range 406), k'))"
  by (rule number_overflow_escapes)
     (simp_all add: parse_request_def demo_fields demo_parse_def new_SQLiteSocket_def)

section \<open>The connection\<close>

text \<open>
  C11: A stream that holds complete response messages one after the other is taken apart by the
  documented framing into exactly the printed texts, as long as each is shorter than 4 GiB.
\<close>

theorem response_stream_roundtrip:
  assumes "\<forall>t \<in> set texts. length t < 2 ^ 32"
  shows "take_frames (concat (map response_data texts)) = texts"
  using assms by (rule response_frame.dec_all_stream_whole)

theorem response_stream_roundtrip_witness:
  "take_frames (concat (map response_data [''{}'', ''[1]''])) = [''{}'', ''[1]'']"
  by (rule response_stream_roundtrip) simp



text \<open>
  When the completion handlers of a connection run one after the other, in every reachable state
  the front of the response queue is the buffer being written whenever a response waits, nothing
  is written otherwise, and the request buffer stays within the packet limit. A failed write ends
  all writing: the response stays in the queue for good.
\<close>

theorem connection_invariant:
  assumes "conn_reachable big_endian c handle s0 k"
  shows "(if write_failed k then in_flight k = None \<and> m_out_packets k \<noteq> []
      else in_flight k = (case m_out_packets k of [] \<Rightarrow> None | r # _ \<Rightarrow> Some r)) \<and>
     length (m_request k) \<le> unat (client_max_packet_size c)"
  using conn_reachable_inv [OF assms] by (simp add: conn_inv_def write_inv_def read_inv_def)

theorem connection_invariant_witness:
  "in_flight (join_world (5::nat) demo_stuck) = None \<and>
   length (m_request (join_world (5::nat) demo_stuck)) \<le> unat (client_max_packet_size demo_config)"
  using connection_invariant [OF demo_stuck_reachable] by (simp add: demo_stuck_def join_world_def)

text \<open>
  C10: When the completion handlers of the two directions of one connection overlap, as several
  worker threads allow, there is an interleaving after which a queued response waits while both
  handlers are idle and no write is under way, and no later step of the connection changes that:
  the response and all that follow are never sent.
\<close>

theorem overlapping_handlers_lose_responses:
  "\<exists>s. race_step\<^sup>*\<^sup>* race_init s \<and> queue s = [response] \<and>
     (\<forall>t. race_step\<^sup>*\<^sup>* s t \<longrightarrow> queue t \<noteq> [] \<and> flight t = None)"
proof -
  obtain s where s: "race_step\<^sup>*\<^sup>* race_init s" "stranded s" "queue s = [response]"
    using lost_wakeup by blast
  then have "queue t \<noteq> [] \<and> flight t = None" if "race_step\<^sup>*\<^sup>* s t" for t
    using stranded_forever [OF that s(2)] by (simp add: stranded_def)
  with s show ?thesis by blast
qed

theorem overlapping_handlers_lose_responses_witness:
  "\<exists>s. race_step\<^sup>*\<^sup>* race_init s \<and> queue s = [response_data ''{}''] \<and>
     (\<forall>t. race_step\<^sup>*\<^sup>* s t \<longrightarrow> queue t \<noteq> [] \<and> flight t = None)"
  by (rule overlapping_handlers_lose_responses)

text \<open>
  On a little-endian machine the server reads back the length that the documented header
  encodes; on a big-endian machine it reads the four bytes in the opposite order, so that a
  request of one byte announces 16777216 bytes.
\<close>

theorem request_header_byte_order:
  "host_u32 False (header_bytes n) = n \<and> host_u32 True (header_bytes 1) = 16777216"
proof
  show "host_u32 False (header_bytes n) = n" by (simp add: host_u32_def)
  show "host_u32 True (header_bytes 1) = 16777216"
    by (simp add: host_u32_def be_u32_def header_bytes_unfold)
qed

section \<open>The start of the process\<close>

text \<open>
  With at least one worker the process serves with exactly that many threads; with none it loads
  its configuration and returns at once without serving anybody, which is also what happens by
  default on a machine that does not report its number of processors.
\<close>

theorem zero_workers_serve_nobody:
  assumes "parser (default_options P) argv = Inr (False, False, vm)"
    and "config_init P vm w config_default = Inr c"
  shows "main P parser argv w =
      Runs c (if workers c = 0 then Finished else Serving (unat (workers c))) \<and>
    (hardware_concurrency P = 0 \<longrightarrow> opt_workers (default_options P) = 0)"
  using assms by (simp add: main_def process_program_options_def network_run_eq default_options_def)

theorem zero_workers_serve_nobody_witness:
  "\<exists>c. workers c = 0 \<and>
     main (demo_platform\<lparr>hardware_concurrency := 0\<rparr>)
       (\<lambda>vm argv. Inr (False, False, vm\<lparr>opt_databases_folder := ''/data''\<rparr>)) [] 0 = Runs c Finished"
proof -
  let ?P = "demo_platform\<lparr>hardware_concurrency := 0\<rparr>"
  let ?vm = "(default_options ?P)\<lparr>opt_databases_folder := ''/data''\<rparr>"
  obtain c where c: "config_init ?P ?vm 0 config_default = Inr c" "workers c = 0"
    by (simp add: config_init_def default_options_def init_from_options_def resolve_endpoint_def
        split_csv_def split_csv_loop.simps resolve_database_path_def demo_fields)
  from zero_workers_serve_nobody [where P = ?P and w = 0 and c = c and vm = ?vm and argv = "[]" and
      parser = "\<lambda>vm argv. Inr (False, False, vm\<lparr>opt_databases_folder := ''/data''\<rparr>)", OF refl c(1)]
  show ?thesis using c(2) by auto
qed

end
