(* ===== verification/Sqlite_Busy.thy ===== *)
theory Sqlite_Busy
  imports Prelude
begin

text \<open>
  The busy handler of the bundled SQLite (\<^verbatim>\<open>main.c\<close> in \<^verbatim>\<open>sqlite3/sqlite3.c\<close>): what a statement does
  when it finds the database locked, and what the wrapper's \<^verbatim>\<open>sqlite3_busy_timeout\<close> call installs.
  Sleeping is recorded as the number of milliseconds slept. The arithmetic of the callback is that
  of a 32-bit signed \<^verbatim>\<open>int\<close>: an overflow is undefined behaviour, for which the operations give \<open>None\<close>.
\<close>

section \<open>State\<close>

text \<open>
  The fields of \<^verbatim>\<open>sqlite3\<close> and of its \<^verbatim>\<open>BusyHandler\<close>: \<open>xBusyHandler\<close> tells whether the default
  callback is installed, \<open>nBusy\<close> counts the calls (-1 after it gave up).
\<close>

record busy =
  xBusyHandler :: bool
  nBusy :: int
  busyTimeout :: int

section \<open>Operations\<close>

definition delays :: "int list" where
  "delays = [1, 2, 5, 10, 15, 20, 25, 25, 25, 50, 50, 100]"

definition totals :: "int list" where
  "totals = [0, 1, 3, 8, 18, 33, 53, 78, 103, 128, 178, 228]"

definition c_int :: "int \<Rightarrow> int option" where
  "c_int x = (if - (2 ^ 31) \<le> x \<and> x < 2 ^ 31 then Some x else None)"

text \<open>
  \<open>busy_delay\<close> and \<open>busy_prior\<close> are the two branches of the table lookup for the \<open>count\<close>-th call.
\<close>

definition busy_delay :: "nat \<Rightarrow> int" where
  "busy_delay count = (if count < length delays then delays ! count else delays ! (length delays - 1))"

definition busy_prior :: "nat \<Rightarrow> int option" where
  "busy_prior count =
     (if count < length delays then Some (totals ! count)
      else case c_int (delays ! (length delays - 1) * (int count - int (length delays - 1))) of
             None \<Rightarrow> None
           | Some later \<Rightarrow> c_int (totals ! (length delays - 1) + later))"

text \<open>
  The callback returns whether to retry, and how long it slept (in milliseconds) before.
\<close>

definition sqliteDefaultBusyCallback :: "int \<Rightarrow> nat \<Rightarrow> (bool \<times> int) option" where
  "sqliteDefaultBusyCallback tmout count =
     (let delay = busy_delay count
      in case busy_prior count of
           None \<Rightarrow> None
         | Some prior \<Rightarrow>
             (case c_int (prior + delay) of
                None \<Rightarrow> None
              | Some after \<Rightarrow>
                  if after > tmout
                  then (case c_int (tmout - prior) of
                          None \<Rightarrow> None
                        | Some delay \<Rightarrow> Some (if delay \<le> 0 then (False, 0) else (True, delay)))
                  else Some (True, delay)))"

definition sqlite3InvokeBusyHandler :: "busy \<Rightarrow> ((bool \<times> int) \<times> busy) option" where
  "sqlite3InvokeBusyHandler p =
     (if \<not> xBusyHandler p \<or> nBusy p < 0 then Some ((False, 0), p)
      else case sqliteDefaultBusyCallback (busyTimeout p) (nat (nBusy p)) of
             None \<Rightarrow> None
           | Some (retry, slept) \<Rightarrow>
               Some ((retry, slept), p\<lparr>nBusy := (if retry then nBusy p + 1 else -1)\<rparr>))"

definition sqlite3_busy_handler :: "bool \<Rightarrow> busy \<Rightarrow> busy" where
  "sqlite3_busy_handler x db = db\<lparr>xBusyHandler := x, nBusy := 0, busyTimeout := 0\<rparr>"

definition sqlite3_busy_timeout :: "int \<Rightarrow> busy \<Rightarrow> busy" where
  "sqlite3_busy_timeout ms db =
     (if ms > 0 then (sqlite3_busy_handler True db)\<lparr>busyTimeout := ms\<rparr>
      else sqlite3_busy_handler False db)"

text \<open>
  A statement that keeps finding the lock taken: it asks the handler again and again until the
  handler gives up. \<open>fuel\<close> bounds the number of calls.
\<close>

datatype wait_result =
    Gave_up int busy
  | Overflowed
  | Out_of_fuel

fun wait_for_lock :: "nat \<Rightarrow> busy \<Rightarrow> int \<Rightarrow> wait_result" where
  "wait_for_lock 0 db slept = Out_of_fuel"
| "wait_for_lock (Suc fuel) db slept =
     (case sqlite3InvokeBusyHandler db of
        None \<Rightarrow> Overflowed
      | Some ((False, _), db') \<Rightarrow> Gave_up slept db'
      | Some ((True, ms), db') \<Rightarrow> wait_for_lock fuel db' (slept + ms))"

section \<open>Facts\<close>

lemma busy_tables: "length delays = 12" "length totals = 12"
  by (simp_all add: delays_def totals_def)

text \<open>A statement about the first twelve calls is checked call by call.\<close>

lemma all_less_12: "(\<forall>i < 12. Q i) \<longleftrightarrow> list_all Q [0..<12]"
  by (auto simp: list_all_iff)

text \<open>The time slept before the \<open>n\<close>-th call, as a mathematical number.\<close>

definition slept_before :: "nat \<Rightarrow> int" where
  "slept_before n = (if n < 12 then totals ! n else 228 + 100 * (int n - 11))"

lemma busy_delay_late: "12 \<le> n \<Longrightarrow> busy_delay n = 100"
  by (simp add: busy_delay_def delays_def)

lemma slept_before_Suc: "slept_before (Suc n) = slept_before n + busy_delay n"
proof (cases "n < 12")
  case True
  have "\<forall>i < 12. slept_before (Suc i) = slept_before i + busy_delay i"
    unfolding all_less_12 by code_simp
  with True show ?thesis by blast
qed (simp add: slept_before_def busy_delay_late)

lemma slept_before_0 [simp]: "slept_before 0 = 0"
  by (simp add: slept_before_def totals_def)

lemma busy_delay_bounds: "1 \<le> busy_delay n \<and> busy_delay n \<le> 100"
proof (cases "n < 12")
  case True
  have "\<forall>i < 12. 1 \<le> busy_delay i \<and> busy_delay i \<le> 100"
    unfolding all_less_12 by code_simp
  with True show ?thesis by blast
qed (simp add: busy_delay_late)

lemmas busy_delay_pos = busy_delay_bounds [THEN conjunct1]

lemma slept_before_nonneg: "0 \<le> slept_before n"
proof (induction n)
  case (Suc n)
  then show ?case using busy_delay_pos [of n] by (simp add: slept_before_Suc)
qed simp

lemma slept_before_early: "n < 12 \<Longrightarrow> slept_before n \<le> 228"
proof -
  have "\<forall>i < 12. slept_before i \<le> 228" unfolding all_less_12 by code_simp
  then show "n < 12 \<Longrightarrow> slept_before n \<le> 228" by blast
qed

text \<open>The source's sum is that number as long as it fits into an \<^verbatim>\<open>int\<close>.\<close>

lemma busy_prior_eq: "slept_before n < 2 ^ 31 \<Longrightarrow> busy_prior n = Some (slept_before n)"
  by (cases "n < 12") (auto simp: busy_prior_def slept_before_def c_int_def delays_def totals_def)

lemma callback_eq:
  assumes "slept_before n + busy_delay n < 2 ^ 31" "0 < tmout" "tmout < 2 ^ 31"
  shows "sqliteDefaultBusyCallback tmout n =
     Some (if tmout \<le> slept_before n then (False, 0)
           else (True, min (busy_delay n) (tmout - slept_before n)))"
  using assms slept_before_nonneg [of n] busy_delay_pos [of n] busy_prior_eq [of n]
  by (auto simp: sqliteDefaultBusyCallback_def Let_def c_int_def min_def)

lemma callback_overflows:
  assumes "slept_before n < 2 ^ 31" "2 ^ 31 \<le> slept_before n + busy_delay n"
  shows "sqliteDefaultBusyCallback tmout n = None"
  using assms by (simp add: sqliteDefaultBusyCallback_def busy_prior_eq c_int_def)

text \<open>
  The last partial sum that can still be followed by a whole delay and one more call without
  overflow is 2147483528, before call number 21474844.
\<close>

lemma slept_before_last: "slept_before 21474844 = 2147483528" "slept_before 21474845 = 2147483628"
  by (simp_all add: slept_before_def)

lemma slept_before_step:
  assumes "slept_before n < 2147483528"
  shows "slept_before (Suc n) + busy_delay (Suc n) < 2 ^ 31"
proof (cases "n < 12")
  case True
  then show ?thesis
    using slept_before_early [OF True] busy_delay_bounds [of n] busy_delay_bounds [of "Suc n"]
    by (simp add: slept_before_Suc)
qed (use assms in \<open>simp add: slept_before_def busy_delay_late\<close>)

lemma slept_before_reached:
  assumes "n \<le> 21474844"
  shows "slept_before n \<le> 2147483528" "slept_before n + busy_delay n < 2 ^ 31"
proof -
  show le: "slept_before n \<le> 2147483528"
    using assms slept_before_early [of n] by (cases "n < 12") (auto simp: slept_before_def)
  then show "slept_before n + busy_delay n < 2 ^ 31" using busy_delay_bounds [of n] by simp
qed

lemma wait_for_lock_total:
  assumes "0 < t" "t \<le> 2147483528" "slept_before n + busy_delay n < 2 ^ 31"
    and "slept = min (slept_before n) t" "max 0 (t - slept_before n) < int fuel"
  shows "\<exists>db'. wait_for_lock fuel \<lparr>xBusyHandler = True, nBusy = int n, busyTimeout = t\<rparr> slept =
     Gave_up t db' \<and> nBusy db' = -1"
  using assms
proof (induction fuel arbitrary: n slept)
  case (Suc fuel)
  have cb: "sqliteDefaultBusyCallback t n =
     Some (if t \<le> slept_before n then (False, 0) else (True, min (busy_delay n) (t - slept_before n)))"
    using Suc.prems by (intro callback_eq) simp_all
  show ?case
  proof (cases "t \<le> slept_before n")
    case True
    with cb Suc.prems(4) show ?thesis by (simp add: sqlite3InvokeBusyHandler_def)
  next
    case False
    let ?ms = "min (busy_delay n) (t - slept_before n)"
    have "slept_before (Suc n) + busy_delay (Suc n) < 2 ^ 31"
      using False Suc.prems(2) by (intro slept_before_step) simp
    moreover have "slept + ?ms = min (slept_before (Suc n)) t"
      using Suc.prems(4) False by (simp add: slept_before_Suc min_def)
    moreover have "max 0 (t - slept_before (Suc n)) < int fuel"
      using Suc.prems(5) False busy_delay_pos [of n] by (simp add: slept_before_Suc)
    ultimately obtain db' where
      "wait_for_lock fuel \<lparr>xBusyHandler = True, nBusy = int (Suc n), busyTimeout = t\<rparr> (slept + ?ms) =
        Gave_up t db' \<and> nBusy db' = -1"
      using Suc.IH [of "Suc n"] Suc.prems(1,2) by blast
    with cb False show ?thesis by (simp add: sqlite3InvokeBusyHandler_def add.commute)
  qed
qed simp

lemma wait_for_lock_overflows:
  assumes "2147483528 < t" "t < 2 ^ 31" "n \<le> 21474845" "21474845 - n < fuel"
  shows "wait_for_lock fuel \<lparr>xBusyHandler = True, nBusy = int n, busyTimeout = t\<rparr> slept = Overflowed"
  using assms(3,4)
proof (induction fuel arbitrary: n slept)
  case (Suc fuel)
  show ?case
  proof (cases "n = 21474845")
    case True
    have "sqliteDefaultBusyCallback t n = None"
      unfolding True
      by (rule callback_overflows) (simp_all only: slept_before_last busy_delay_late, simp_all)
    then show ?thesis by (simp add: sqlite3InvokeBusyHandler_def)
  next
    case False
    then have le: "n \<le> 21474844" using Suc.prems(1) by simp
    have "sqliteDefaultBusyCallback t n = Some (True, min (busy_delay n) (t - slept_before n))"
      using callback_eq [of n t] slept_before_reached [OF le] assms(1,2) by simp
    with Suc.IH [of "Suc n" "slept + min (busy_delay n) (t - slept_before n)"] le Suc.prems(2)
    show ?thesis by (simp add: sqlite3InvokeBusyHandler_def add.commute)
  qed
qed simp

text \<open>An unsigned 32-bit number seen as a signed one.\<close>

lemma int_bit_top: "0 \<le> u \<Longrightarrow> u < 4294967296 \<Longrightarrow> bit (u::int) 31 \<longleftrightarrow> 2147483648 \<le> u"
  unfolding bit_iff_odd
  by (cases "u < 2147483648") (auto simp: div_pos_pos_trivial div_pos_geq)

lemma sint_u32_cases:
  "sint (x :: u32) = (if unat x < 2 ^ 31 then int (unat x) else int (unat x) - 2 ^ 32)"
proof -
  define u where "u = int (unat x)"
  have "uint x < 2 ^ LENGTH(32)" by (rule unsigned_less)
  then have u: "0 \<le> u" "u < 4294967296" by (simp_all add: u_def)
  have "sint x = take_bit 32 u - 4294967296 * of_bool (bit u 31)"
    by (simp add: sint_uint signed_take_bit_eq_take_bit_minus u_def)
  moreover have "take_bit 32 u = u" using u by (simp add: take_bit_eq_mod)
  moreover have "unat x < 2 ^ 31 \<longleftrightarrow> u < 2147483648" 
    using of_nat_less_iff [of "unat x" "2 ^ 31", where 'a = int] by (simp add: u_def)
  ultimately show ?thesis using int_bit_top [OF u] unfolding u_def [symmetric] by simp
qed

end
