(* ===== verification/Sqlite_Chars.thy ===== *)
theory Sqlite_Chars
  imports Prelude
begin

text \<open>
  Character tables and zero-terminated strings of the bundled SQLite (\<^verbatim>\<open>global.c\<close> and \<^verbatim>\<open>util.c\<close> in
  \<^verbatim>\<open>sqlite3/sqlite3.c\<close>): case folding, character classes, case-insensitive comparison and
  hashing, removal of quotes. The comparison is shown to decide equality of the folded strings.

  A zero-terminated string is the list of its bytes; reading at or behind the end of the list
  gives the terminator. A zero byte inside the list ends the string as well.
\<close>

section \<open>Tables\<close>

definition sqlite3UpperToLower :: "nat list" where
  "sqlite3UpperToLower =
     [0, 1, 2, 3, 4, 5, 6, 7, 8, 9, 10, 11, 12, 13, 14, 15,
      16, 17, 18, 19, 20, 21, 22, 23, 24, 25, 26, 27, 28, 29, 30, 31,
      32, 33, 34, 35, 36, 37, 38, 39, 40, 41, 42, 43, 44, 45, 46, 47,
      48, 49, 50, 51, 52, 53, 54, 55, 56, 57, 58, 59, 60, 61, 62, 63,
      64, 97, 98, 99, 100, 101, 102, 103, 104, 105, 106, 107, 108, 109, 110, 111,
      112, 113, 114, 115, 116, 117, 118, 119, 120, 121, 122, 91, 92, 93, 94, 95,
      96, 97, 98, 99, 100, 101, 102, 103, 104, 105, 106, 107, 108, 109, 110, 111,
      112, 113, 114, 115, 116, 117, 118, 119, 120, 121, 122, 123, 124, 125, 126, 127,
      128, 129, 130, 131, 132, 133, 134, 135, 136, 137, 138, 139, 140, 141, 142, 143,
      144, 145, 146, 147, 148, 149, 150, 151, 152, 153, 154, 155, 156, 157, 158, 159,
      160, 161, 162, 163, 164, 165, 166, 167, 168, 169, 170, 171, 172, 173, 174, 175,
      176, 177, 178, 179, 180, 181, 182, 183, 184, 185, 186, 187, 188, 189, 190, 191,
      192, 193, 194, 195, 196, 197, 198, 199, 200, 201, 202, 203, 204, 205, 206, 207,
      208, 209, 210, 211, 212, 213, 214, 215, 216, 217, 218, 219, 220, 221, 222, 223,
      224, 225, 226, 227, 228, 229, 230, 231, 232, 233, 234, 235, 236, 237, 238, 239,
      240, 241, 242, 243, 244, 245, 246, 247, 248, 249, 250, 251, 252, 253, 254, 255,
      1, 0, 0, 1, 1, 0,
      0, 1, 0, 1, 0, 1,
      1, 0, 1, 0, 0, 1]"

definition sqlite3CtypeMap :: "nat list" where
  "sqlite3CtypeMap =
     [0x00, 0x00, 0x00, 0x00, 0x00, 0x00, 0x00, 0x00, 0x00, 0x01, 0x01, 0x01, 0x01, 0x01, 0x00, 0x00,
      0x00, 0x00, 0x00, 0x00, 0x00, 0x00, 0x00, 0x00, 0x00, 0x00, 0x00, 0x00, 0x00, 0x00, 0x00, 0x00,
      0x01, 0x00, 0x80, 0x00, 0x40, 0x00, 0x00, 0x80, 0x00, 0x00, 0x00, 0x00, 0x00, 0x00, 0x00, 0x00,
      0x0c, 0x0c, 0x0c, 0x0c, 0x0c, 0x0c, 0x0c, 0x0c, 0x0c, 0x0c, 0x00, 0x00, 0x00, 0x00, 0x00, 0x00,
      0x00, 0x0a, 0x0a, 0x0a, 0x0a, 0x0a, 0x0a, 0x02, 0x02, 0x02, 0x02, 0x02, 0x02, 0x02, 0x02, 0x02,
      0x02, 0x02, 0x02, 0x02, 0x02, 0x02, 0x02, 0x02, 0x02, 0x02, 0x02, 0x80, 0x00, 0x00, 0x00, 0x40,
      0x80, 0x2a, 0x2a, 0x2a, 0x2a, 0x2a, 0x2a, 0x22, 0x22, 0x22, 0x22, 0x22, 0x22, 0x22, 0x22, 0x22,
      0x22, 0x22, 0x22, 0x22, 0x22, 0x22, 0x22, 0x22, 0x22, 0x22, 0x22, 0x00, 0x00, 0x00, 0x00, 0x00,
      0x40, 0x40, 0x40, 0x40, 0x40, 0x40, 0x40, 0x40, 0x40, 0x40, 0x40, 0x40, 0x40, 0x40, 0x40, 0x40,
      0x40, 0x40, 0x40, 0x40, 0x40, 0x40, 0x40, 0x40, 0x40, 0x40, 0x40, 0x40, 0x40, 0x40, 0x40, 0x40,
      0x40, 0x40, 0x40, 0x40, 0x40, 0x40, 0x40, 0x40, 0x40, 0x40, 0x40, 0x40, 0x40, 0x40, 0x40, 0x40,
      0x40, 0x40, 0x40, 0x40, 0x40, 0x40, 0x40, 0x40, 0x40, 0x40, 0x40, 0x40, 0x40, 0x40, 0x40, 0x40,
      0x40, 0x40, 0x40, 0x40, 0x40, 0x40, 0x40, 0x40, 0x40, 0x40, 0x40, 0x40, 0x40, 0x40, 0x40, 0x40,
      0x40, 0x40, 0x40, 0x40, 0x40, 0x40, 0x40, 0x40, 0x40, 0x40, 0x40, 0x40, 0x40, 0x40, 0x40, 0x40,
      0x40, 0x40, 0x40, 0x40, 0x40, 0x40, 0x40, 0x40, 0x40, 0x40, 0x40, 0x40, 0x40, 0x40, 0x40, 0x40,
      0x40, 0x40, 0x40, 0x40, 0x40, 0x40, 0x40, 0x40, 0x40, 0x40, 0x40, 0x40, 0x40, 0x40, 0x40, 0x40]"

definition UpperToLower :: "u8 \<Rightarrow> u8" where
  "UpperToLower b = of_nat (sqlite3UpperToLower ! unat b)"

definition ctype :: "u8 \<Rightarrow> u8" where
  "ctype b = of_nat (sqlite3CtypeMap ! unat b)"

text \<open>The character class macros of \<^verbatim>\<open>sqliteInt.h\<close>.\<close>

definition sqlite3Toupper :: "u8 \<Rightarrow> u8" where
  "sqlite3Toupper x = x AND NOT (ctype x AND 0x20)"

definition sqlite3Isspace :: "u8 \<Rightarrow> bool" where
  "sqlite3Isspace x \<longleftrightarrow> ctype x AND 0x01 \<noteq> 0"

definition sqlite3Isalnum :: "u8 \<Rightarrow> bool" where
  "sqlite3Isalnum x \<longleftrightarrow> ctype x AND 0x06 \<noteq> 0"

definition sqlite3Isalpha :: "u8 \<Rightarrow> bool" where
  "sqlite3Isalpha x \<longleftrightarrow> ctype x AND 0x02 \<noteq> 0"

definition sqlite3Isdigit :: "u8 \<Rightarrow> bool" where
  "sqlite3Isdigit x \<longleftrightarrow> ctype x AND 0x04 \<noteq> 0"

definition sqlite3Isxdigit :: "u8 \<Rightarrow> bool" where
  "sqlite3Isxdigit x \<longleftrightarrow> ctype x AND 0x08 \<noteq> 0"

definition sqlite3Isquote :: "u8 \<Rightarrow> bool" where
  "sqlite3Isquote x \<longleftrightarrow> ctype x AND 0x80 \<noteq> 0"

definition IdChar :: "u8 \<Rightarrow> bool" where
  "IdChar x \<longleftrightarrow> ctype x AND 0x46 \<noteq> 0"

section \<open>Zero-terminated strings\<close>

text \<open>\<open>at z i\<close> is \<^verbatim>\<open>z[i]\<close>, \<open>c_bytes\<close> the bytes before the terminator.\<close>

definition at :: "u8 list \<Rightarrow> nat \<Rightarrow> u8" where
  "at z i = (if i < length z then z ! i else 0)"

definition c_bytes :: "u8 list \<Rightarrow> u8 list" where
  "c_bytes z = takeWhile (\<lambda>b. b \<noteq> 0) z"

definition bytes_of :: "string \<Rightarrow> u8 list" where
  "bytes_of s = map byte_of s"

lemma at_Nil [simp]: "at [] i = 0"
  by (simp add: at_def)

lemma at_0_Cons [simp]: "at (b # z) 0 = b"
  by (simp add: at_def)

lemma at_Suc_Cons [simp]: "at (b # z) (Suc i) = at z i"
  by (simp add: at_def)

lemma at_nonzero_less: "at z i \<noteq> 0 \<Longrightarrow> i < length z"
  by (simp add: at_def split: if_splits)

lemma at_0_nonzero: "at z 0 \<noteq> 0 \<Longrightarrow> z = at z 0 # tl z"
  by (cases z) auto

lemma at_eq_nth [simp]: "i < length z \<Longrightarrow> at z i = z ! i"
  by (simp add: at_def)

lemma at_drop [simp]: "at (drop n z) i = at z (n + i)"
  by (auto simp: at_def)

lemma c_bytes_Nil [simp]: "c_bytes [] = []"
  by (simp add: c_bytes_def)

lemma c_bytes_Cons: "c_bytes (b # z) = (if b = 0 then [] else b # c_bytes z)"
  by (simp add: c_bytes_def)

lemma c_bytes_at: "c_bytes z = (if at z 0 = 0 then [] else at z 0 # c_bytes (tl z))"
  by (cases z) (auto simp: c_bytes_Cons)

lemma strings_shrink:
  "at a 0 \<noteq> 0 \<Longrightarrow> length (tl a) < length a"
  "at a 0 \<noteq> at b 0 \<Longrightarrow> length (tl a) + length (tl b) < length a + length b"
  "at a 0 \<noteq> 0 \<Longrightarrow> at b 0 \<noteq> 0 \<Longrightarrow> length (tl a) + length (tl b) < length a + length b"
  by (cases a; cases b; simp)+

section \<open>Operations\<close>

function sqlite3StrICmp :: "u8 list \<Rightarrow> u8 list \<Rightarrow> int" where
  "sqlite3StrICmp a b =
     (let c = at a 0; x = at b 0
      in if c = x then (if c = 0 then 0 else sqlite3StrICmp (tl a) (tl b))
         else let d = uint (UpperToLower c) - uint (UpperToLower x)
              in if d \<noteq> 0 then d else sqlite3StrICmp (tl a) (tl b))"
  by pat_completeness auto
termination
  by (relation "measure (\<lambda>(a, b). length a + length b)") (auto simp: strings_shrink simp del: length_tl)

declare sqlite3StrICmp.simps [simp del]

text \<open>The API entry point also takes null pointers.\<close>

definition sqlite3_stricmp :: "u8 list option \<Rightarrow> u8 list option \<Rightarrow> int" where
  "sqlite3_stricmp zLeft zRight =
     (case zLeft of
        None \<Rightarrow> (case zRight of None \<Rightarrow> 0 | Some _ \<Rightarrow> -1)
      | Some l \<Rightarrow> (case zRight of None \<Rightarrow> 1 | Some r \<Rightarrow> sqlite3StrICmp l r))"

text \<open>
  \<^verbatim>\<open>N\<close> is decremented by each evaluation of the loop condition; \<open>strnicmp_loop n a b\<close> is the loop
  with \<open>n\<close> bytes left to compare, and returns the value of the final \<^verbatim>\<open>return\<close>.
\<close>

fun strnicmp_loop :: "nat \<Rightarrow> u8 list \<Rightarrow> u8 list \<Rightarrow> int" where
  "strnicmp_loop 0 a b = 0"
| "strnicmp_loop (Suc n) a b =
     (if at a 0 \<noteq> 0 \<and> UpperToLower (at a 0) = UpperToLower (at b 0)
      then strnicmp_loop n (tl a) (tl b)
      else uint (UpperToLower (at a 0)) - uint (UpperToLower (at b 0)))"

definition sqlite3_strnicmp :: "u8 list option \<Rightarrow> u8 list option \<Rightarrow> int \<Rightarrow> int" where
  "sqlite3_strnicmp zLeft zRight N =
     (case zLeft of
        None \<Rightarrow> (case zRight of None \<Rightarrow> 0 | Some _ \<Rightarrow> -1)
      | Some l \<Rightarrow> (case zRight of None \<Rightarrow> 1 | Some r \<Rightarrow> strnicmp_loop (nat N) l r))"

fun strIHash_loop :: "u8 list \<Rightarrow> u8 \<Rightarrow> u8" where
  "strIHash_loop [] h = h"
| "strIHash_loop (c # z) h = (if c = 0 then h else strIHash_loop z (h + UpperToLower c))"

definition sqlite3StrIHash :: "u8 list option \<Rightarrow> u8" where
  "sqlite3StrIHash z = (case z of None \<Rightarrow> 0 | Some z \<Rightarrow> strIHash_loop z 0)"

text \<open>
  Quote removal works in place; its model returns the new contents. \<open>None\<close> is the failing
  assertion (the terminator is reached inside the quotes), after which the code would read
  behind the end.
\<close>

function dequote_loop :: "u8 \<Rightarrow> u8 list \<Rightarrow> u8 list option" where
  "dequote_loop quote z =
     (if at z 0 = 0 then None
      else if at z 0 = quote
           then (if at z 1 = quote then map_option (Cons quote) (dequote_loop quote (drop 2 z))
                 else Some [])
           else map_option (Cons (at z 0)) (dequote_loop quote (tl z)))"
  by pat_completeness auto
termination
  by (relation "measure (\<lambda>(q, z). length z)") (auto simp: strings_shrink simp del: length_tl dest: at_nonzero_less)

declare dequote_loop.simps [simp del]

definition sqlite3Dequote :: "u8 list \<Rightarrow> u8 list option" where
  "sqlite3Dequote z =
     (let quote = at z 0
      in if \<not> sqlite3Isquote quote then Some z
         else dequote_loop (if quote = 0x5B then 0x5D else quote) (tl z))"

section \<open>Facts about the tables\<close>

definition fold_nat :: "nat \<Rightarrow> nat" where
  "fold_nat n = (if 65 \<le> n \<and> n \<le> 90 then n + 32 else n)"

definition ctype_nat :: "nat \<Rightarrow> nat" where
  "ctype_nat n =
     (if n \<in> {9, 10, 11, 12, 13, 32} then 0x01
      else if 48 \<le> n \<and> n \<le> 57 then 0x0c
      else if 65 \<le> n \<and> n \<le> 70 then 0x0a
      else if 71 \<le> n \<and> n \<le> 90 then 0x02
      else if 97 \<le> n \<and> n \<le> 102 then 0x2a
      else if 103 \<le> n \<and> n \<le> 122 then 0x22
      else if n \<in> {34, 39, 91, 96} then 0x80
      else if n = 36 \<or> n = 95 \<or> 128 \<le> n then 0x40
      else 0)"

lemma upt_256: "[0..<256] = 0 # 1 # [2..<256]"
  using upt_conv_Cons [of 0 256] upt_conv_Cons [of 1 256] by (simp only: One_nat_def numeral_2_eq_2)

lemma fold_table: "take 256 sqlite3UpperToLower = map fold_nat [0..<256]"
  by (simp add: sqlite3UpperToLower_def fold_nat_def upt_256)

lemma ctype_table: "sqlite3CtypeMap = map ctype_nat [0..<256]"
  by (simp add: sqlite3CtypeMap_def ctype_nat_def upt_256)

lemma sqlite3UpperToLower_nth: "n < 256 \<Longrightarrow> sqlite3UpperToLower ! n = fold_nat n"
  using arg_cong [OF fold_table, of "\<lambda>xs. xs ! n"] by simp

lemma UpperToLower_eq: "UpperToLower b = (if 0x41 \<le> b \<and> b \<le> 0x5A then b + 0x20 else b)"
proof -
  have "UpperToLower b = of_nat (fold_nat (unat b))"
    using u8_lt [of b] by (simp add: UpperToLower_def sqlite3UpperToLower_nth)
  then show ?thesis
    by (simp add: fold_nat_def word_le_nat_alt)
qed

lemma ctype_eq: "ctype b = of_nat (ctype_nat (unat b))"
  using u8_lt [of b] by (simp add: ctype_def ctype_table)

lemma sqlite3Isdigit_iff: "sqlite3Isdigit b \<longleftrightarrow> 0x30 \<le> b \<and> b \<le> 0x39"
  unfolding sqlite3Isdigit_def ctype_eq ctype_nat_def word_le_nat_alt by simp

lemma sqlite3Isspace_iff: "sqlite3Isspace b \<longleftrightarrow> b \<in> {0x09, 0x0A, 0x0B, 0x0C, 0x0D, 0x20}"
  unfolding sqlite3Isspace_def ctype_eq ctype_nat_def by (auto simp: word_unat_eq_iff)

lemma sqlite3Isalpha_iff:
  "sqlite3Isalpha b \<longleftrightarrow> 0x41 \<le> b \<and> b \<le> 0x5A \<or> 0x61 \<le> b \<and> b \<le> 0x7A"
  unfolding sqlite3Isalpha_def ctype_eq ctype_nat_def word_le_nat_alt by simp presburger

lemma sqlite3Isxdigit_iff:
  "sqlite3Isxdigit b \<longleftrightarrow>
     0x30 \<le> b \<and> b \<le> 0x39 \<or> 0x41 \<le> b \<and> b \<le> 0x46 \<or> 0x61 \<le> b \<and> b \<le> 0x66"
  unfolding sqlite3Isxdigit_def ctype_eq ctype_nat_def word_le_nat_alt by auto

lemma sqlite3Isquote_iff: "sqlite3Isquote b \<longleftrightarrow> b \<in> {0x22, 0x27, 0x5B, 0x60}"
  unfolding sqlite3Isquote_def ctype_eq ctype_nat_def by (auto simp: word_unat_eq_iff)

lemma IdChar_iff:
  "IdChar b \<longleftrightarrow> sqlite3Isalpha b \<or> sqlite3Isdigit b \<or> b = 0x24 \<or> b = 0x5F \<or> 0x80 \<le> b"
  unfolding IdChar_def sqlite3Isalpha_iff sqlite3Isdigit_iff ctype_eq ctype_nat_def word_le_nat_alt
  by (simp add: word_unat_eq_iff) presburger

section \<open>Comparison\<close>

text \<open>The case-folded contents of a zero-terminated string.\<close>

definition folded :: "u8 list \<Rightarrow> u8 list" where
  "folded z = map UpperToLower (c_bytes z)"

lemma UpperToLower_eq_0 [simp]: "UpperToLower b = 0 \<longleftrightarrow> b = 0"
proof -
  have "unat (b + 0x20) = unat b + 0x20" if "unat b \<le> 90"
    using that by (simp add: unat_word_ariths)
  then show ?thesis
    by (auto simp: UpperToLower_eq word_unat_eq_iff word_le_nat_alt)
qed

lemma UpperToLower_0 [simp]: "UpperToLower 0 = 0"
  by simp

lemmas uint_injective = word_uint_eq_iff [symmetric] uint_0_iff

lemma folded_Nil [simp]: "folded [] = []"
  by (simp add: folded_def)

lemma folded_at:
  "folded z = (if at z 0 = 0 then [] else UpperToLower (at z 0) # folded (tl z))"
  by (subst folded_def, subst c_bytes_at) (simp add: folded_def)

lemma sqlite3StrICmp_eq_0: "sqlite3StrICmp a b = 0 \<longleftrightarrow> folded a = folded b"
proof (induction a b rule: sqlite3StrICmp.induct)
  case (1 a b)
  show ?case
    by (subst sqlite3StrICmp.simps, subst (1 2) folded_at)
       (use 1 in \<open>auto simp: Let_def uint_injective\<close>)
qed

lemma sqlite3StrICmp_less: "sqlite3StrICmp a b < 0 \<longleftrightarrow> folded a < folded b"
proof (induction a b rule: sqlite3StrICmp.induct)
  case (1 a b)
  have pos: "0 < UpperToLower c" if "c \<noteq> 0" for c using that by (simp add: word_gt_0)
  show ?case
    by (subst sqlite3StrICmp.simps, subst (1 2) folded_at)
       (use 1 pos in \<open>auto simp: Let_def uint_injective word_less_def\<close>)
qed

lemma strnicmp_loop_eq_0:
  "strnicmp_loop n a b = 0 \<longleftrightarrow> take n (folded a) = take n (folded b)"
proof (induction n arbitrary: a b)
  case (Suc n)
  show ?case
    by (subst (1 2) folded_at) (auto simp: Suc.IH uint_injective)
qed simp

lemma strIHash_loop_folded: "strIHash_loop z h = h + sum_list (folded z)"
  by (induction z h rule: strIHash_loop.induct) (auto simp: folded_def c_bytes_Cons)

section \<open>Quotes\<close>

text \<open>A quoted token: every closing quote inside the text is written twice.\<close>

definition closing :: "u8 \<Rightarrow> u8" where
  "closing q = (if q = 0x5B then 0x5D else q)"

definition enquote :: "u8 \<Rightarrow> u8 list \<Rightarrow> u8 list" where
  "enquote q s = q # concat (map (\<lambda>b. if b = closing q then [b, b] else [b]) s) @ [closing q]"

lemma dequote_loop_enquoted:
  assumes "q \<noteq> 0" "0 \<notin> set s"
  shows "dequote_loop q (concat (map (\<lambda>b. if b = q then [b, b] else [b]) s) @ [q]) = Some s"
  using assms(2)
proof (induction s)
  case Nil
  show ?case by (subst dequote_loop.simps) (simp add: assms(1) at_def)
next
  case (Cons b s)
  then show ?case
    by (subst dequote_loop.simps) (simp add: assms(1) at_def)
qed

lemma closing_nonzero: "sqlite3Isquote q \<Longrightarrow> closing q \<noteq> 0"
  by (auto simp: closing_def sqlite3Isquote_iff)

lemma dequote_enquote:
  assumes "sqlite3Isquote q" "0 \<notin> set s"
  shows "sqlite3Dequote (enquote q s) = Some s"
  using dequote_loop_enquoted [OF closing_nonzero [OF assms(1)] assms(2)] assms(1)
  by (simp add: sqlite3Dequote_def enquote_def closing_def Let_def)

end
