(* ===== verification/Sqlite_Varint.thy ===== *)
theory Sqlite_Varint
  imports Sqlite_Chars
begin

text \<open>
  Variable-length and big-endian integers of the bundled SQLite (\<^verbatim>\<open>util.c\<close> in
  \<^verbatim>\<open>sqlite3/sqlite3.c\<close>), the encoding of every integer in a database file. The decoder with its
  two interleaved 32-bit accumulators is shown to compute a seven-bits-per-byte reference
  definition, and to invert the encoder on every 64-bit value.

  A buffer that is read is the list of its bytes, one that is written the list of bytes written.
\<close>

section \<open>Operations\<close>

text \<open>\<open>put_high\<close> is the loop for the eight leading bytes of a nine-byte encoding.\<close>

fun put_high :: "nat \<Rightarrow> u64 \<Rightarrow> u8 list \<Rightarrow> u8 list" where
  "put_high 0 v p = p"
| "put_high (Suc i) v p = put_high i (drop_bit 7 v) (ucast ((v AND 0x7f) OR 0x80) # p)"

text \<open>\<open>put_groups\<close> is the loop that fills \<^verbatim>\<open>buf\<close>, least significant group first.\<close>

function put_groups :: "u64 \<Rightarrow> u8 list" where
  "put_groups v =
     ucast ((v AND 0x7f) OR 0x80) #
     (let v = drop_bit 7 v in if v \<noteq> 0 then put_groups v else [])"
  by pat_completeness auto
termination
  by (relation "measure unat") (auto simp: unat_drop_bit_less)

declare put_groups.simps [simp del]

definition putVarint64 :: "u64 \<Rightarrow> u8 list" where
  "putVarint64 v =
     (if v AND push_bit 32 0xff000000 \<noteq> 0
      then put_high 8 (drop_bit 8 v) [ucast v]
      else let buf = put_groups v in rev (buf[0 := buf ! 0 AND 0x7f]))"

definition sqlite3PutVarint :: "u64 \<Rightarrow> u8 list" where
  "sqlite3PutVarint v =
     (if v \<le> 0x7f then [ucast (v AND 0x7f)]
      else if v \<le> 0x3fff
      then [ucast ((drop_bit 7 v AND 0x7f) OR 0x80), ucast (v AND 0x7f)]
      else putVarint64 v)"

abbreviation SLOT_2_0 :: u32 where "SLOT_2_0 \<equiv> 0x001fc07f"
abbreviation SLOT_4_2_0 :: u32 where "SLOT_4_2_0 \<equiv> 0xf01fc07f"

text \<open>The decoder returns the value and the number of bytes read.\<close>

definition sqlite3GetVarint :: "u8 list \<Rightarrow> u64 \<times> nat" where
  "sqlite3GetVarint p =
     (if 0 \<le> sint (at p 0) then (ucast (at p 0), 1)
      else if 0 \<le> sint (at p 1)
      then (ucast (push_bit 7 (ucast (at p 0 AND 0x7f) :: u32) OR ucast (at p 1)), 2)
      else
      let a = push_bit 14 (ucast (at p 0)) :: u32;
          b = ucast (at p 1) :: u32;
          a = a OR ucast (at p 2)
      in if a AND 0x80 = 0
      then (let a = a AND SLOT_2_0; b = b AND 0x7f; b = push_bit 7 b; a = a OR b
            in (ucast a, 3))
      else
      let a = a AND SLOT_2_0;
          b = push_bit 14 b;
          b = b OR ucast (at p 3)
      in if b AND 0x80 = 0
      then (let b = b AND SLOT_2_0; a = push_bit 7 a; a = a OR b
            in (ucast a, 4))
      else
      let b = b AND SLOT_2_0;
          s = a;
          a = push_bit 14 a;
          a = a OR ucast (at p 4)
      in if a AND 0x80 = 0
      then (let b = push_bit 7 b; a = a OR b; s = drop_bit 18 s
            in (push_bit 32 (ucast s) OR ucast a, 5))
      else
      let s = push_bit 7 s;
          s = s OR b;
          b = push_bit 14 b;
          b = b OR ucast (at p 5)
      in if b AND 0x80 = 0
      then (let a = a AND SLOT_2_0; a = push_bit 7 a; a = a OR b; s = drop_bit 18 s
            in (push_bit 32 (ucast s) OR ucast a, 6))
      else
      let a = push_bit 14 a;
          a = a OR ucast (at p 6)
      in if a AND 0x80 = 0
      then (let a = a AND SLOT_4_2_0; b = b AND SLOT_2_0; b = push_bit 7 b; a = a OR b;
                s = drop_bit 11 s
            in (push_bit 32 (ucast s) OR ucast a, 7))
      else
      let a = a AND SLOT_2_0;
          b = push_bit 14 b;
          b = b OR ucast (at p 7)
      in if b AND 0x80 = 0
      then (let b = b AND SLOT_4_2_0; a = push_bit 7 a; a = a OR b; s = drop_bit 4 s
            in (push_bit 32 (ucast s) OR ucast a, 8))
      else
      let a = push_bit 15 a;
          a = a OR ucast (at p 8);
          b = b AND SLOT_2_0;
          b = push_bit 8 b;
          a = a OR b;
          s = push_bit 4 s;
          b = ucast (at p 4);
          b = b AND 0x7f;
          b = drop_bit 3 b;
          s = s OR b
      in (push_bit 32 (ucast s) OR ucast a, 9))"

definition sqlite3GetVarint32 :: "u8 list \<Rightarrow> u32 \<times> nat" where
  "sqlite3GetVarint32 p =
     (if at p 1 AND 0x80 = 0
      then (push_bit 7 (ucast (at p 0 AND 0x7f)) OR ucast (at p 1), 2)
      else if at p 2 AND 0x80 = 0
      then (push_bit 14 (ucast (at p 0 AND 0x7f)) OR push_bit 7 (ucast (at p 1 AND 0x7f)) OR
            ucast (at p 2), 3)
      else let (v64, n) = sqlite3GetVarint p
           in if v64 AND 0xffffffff \<noteq> v64 then (0xffffffff, n) else (ucast v64, n))"

text \<open>The macro that every caller uses.\<close>

definition getVarint32 :: "u8 list \<Rightarrow> u32 \<times> nat" where
  "getVarint32 p = (if at p 0 < 0x80 then (ucast (at p 0), 1) else sqlite3GetVarint32 p)"

function varintLen_loop :: "u64 \<Rightarrow> nat \<Rightarrow> nat" where
  "varintLen_loop v i = (let v = drop_bit 7 v in if v \<noteq> 0 then varintLen_loop v (i + 1) else i)"
  by pat_completeness auto
termination
  by (relation "measure (\<lambda>(v, i). unat v)") (auto simp: unat_drop_bit_less)

declare varintLen_loop.simps [simp del]

definition sqlite3VarintLen :: "u64 \<Rightarrow> nat" where
  "sqlite3VarintLen v = varintLen_loop v 1"

definition sqlite3Get4byte :: "u8 list \<Rightarrow> u32" where
  "sqlite3Get4byte p =
     push_bit 24 (ucast (at p 0)) OR push_bit 16 (ucast (at p 1)) OR
     push_bit 8 (ucast (at p 2)) OR ucast (at p 3)"

definition sqlite3Put4byte :: "u32 \<Rightarrow> u8 list" where
  "sqlite3Put4byte v =
     [ucast (drop_bit 24 v), ucast (drop_bit 16 v), ucast (drop_bit 8 v), ucast v]"

section \<open>Reference definition\<close>

text \<open>
  Seven bits per byte, most significant first, until a byte without the continuation flag; the
  ninth byte counts in full.
\<close>

fun varint_ref :: "nat \<Rightarrow> u64 \<Rightarrow> u8 list \<Rightarrow> u64 \<times> nat" where
  "varint_ref 0 acc p = (push_bit 8 acc OR ucast (at p 0), 1)"
| "varint_ref (Suc k) acc p =
     (if at p 0 < 0x80 then (push_bit 7 acc OR ucast (at p 0), 1)
      else let (v, n) = varint_ref k (push_bit 7 acc OR ucast (at p 0 AND 0x7f)) (tl p)
           in (v, Suc n))"

definition varint_value :: "u8 list \<Rightarrow> u64 \<times> nat" where
  "varint_value p = varint_ref 8 0 p"

section \<open>The decoder computes the reference definition\<close>

lemma flag_0x80: "(w :: 'a::len word) AND 0x80 = 0 \<longleftrightarrow> \<not> bit w 7"
  using and_exp_eq_0_iff_not_bit [of w 7] by simp

lemma u8_flag:
  "0 \<le> sint (b :: u8) \<longleftrightarrow> \<not> bit b 7"
  "b < 0x80 \<longleftrightarrow> \<not> bit b 7"
proof -
  show "0 \<le> sint (b :: u8) \<longleftrightarrow> \<not> bit b 7"
    using bit_last_iff [of b] by auto
  have "b < 0x80 \<longleftrightarrow> unat b < 128" by (simp add: word_less_nat_alt)
  also have "\<dots> \<longleftrightarrow> \<not> bit (unat b) 7"
    using u8_lt [of b] by (cases "unat b < 128") (auto simp: bit_iff_odd not_less le_div_geq)
  finally show "b < 0x80 \<longleftrightarrow> \<not> bit b 7" by (simp add: bit_unsigned_iff)
qed

lemma bit_u8_ge: "8 \<le> n \<Longrightarrow> \<not> bit (b :: u8) n"
  using bit_u8 [of b n] by auto

definition bits64 :: "nat list" where
  "bits64 =
     [0, 1, 2, 3, 4, 5, 6, 7, 8, 9, 10, 11, 12, 13, 14, 15,
      16, 17, 18, 19, 20, 21, 22, 23, 24, 25, 26, 27, 28, 29, 30, 31,
      32, 33, 34, 35, 36, 37, 38, 39, 40, 41, 42, 43, 44, 45, 46, 47,
      48, 49, 50, 51, 52, 53, 54, 55, 56, 57, 58, 59, 60, 61, 62, 63]"

lemma bits64_upt: "bits64 = [0..<64]"
  by code_simp

text \<open>Two 64-bit words are equal when their 64 bits are, one by one.\<close>

lemma u64_eqI: "list_all (\<lambda>n. bit a n = bit b n) bits64 \<Longrightarrow> a = (b :: u64)"
  unfolding bits64_upt by (rule bit_word_eqI) (simp add: list_all_iff)

definition bits32 :: "nat list" where
  "bits32 =
     [0, 1, 2, 3, 4, 5, 6, 7, 8, 9, 10, 11, 12, 13, 14, 15,
      16, 17, 18, 19, 20, 21, 22, 23, 24, 25, 26, 27, 28, 29, 30, 31]"

lemma bits32_upt: "bits32 = [0..<32]"
  by code_simp

lemma u32_eqI: "list_all (\<lambda>n. bit a n = bit b n) bits32 \<Longrightarrow> a = (b :: u32)"
  unfolding bits32_upt by (rule bit_word_eqI) (simp add: list_all_iff)

lemma at_tl:
  "at (tl p) 0 = at p 1" "at (tl p) (Suc 0) = at p 2"
  "at (tl p) (numeral k) = at p (numeral (k + num.One))"
proof -
  have t: "at (tl p) i = at p (Suc i)" for i by (cases p) auto
  show "at (tl p) 0 = at p 1" "at (tl p) (Suc 0) = at p 2"
    "at (tl p) (numeral k) = at p (numeral (k + num.One))"
    unfolding t by (simp_all add: numeral_2_eq_2)
qed

lemma varint_ref_numeral:
  "varint_ref (numeral k) acc p =
     (if at p 0 < 0x80 then (push_bit 7 acc OR ucast (at p 0), 1)
      else let (v, n) = varint_ref (pred_numeral k) (push_bit 7 acc OR ucast (at p 0 AND 0x7f)) (tl p)
           in (v, Suc n))"
  by (simp add: numeral_eq_Suc)

lemmas varint_unfold = sqlite3GetVarint_def varint_value_def Let_def u8_flag flag_0x80 at_tl
  varint_ref_numeral

text \<open>The nine branches, by the position of the first byte without the continuation flag.\<close>

lemma get_varint_1:
  assumes "\<not> bit (at p 0) 7"
  shows "sqlite3GetVarint p = varint_value p"
  using assms by (simp add: varint_unfold bit_simps)

lemma get_varint_2:
  assumes "bit (at p 0) 7" "\<not> bit (at p 1) 7"
  shows "sqlite3GetVarint p = varint_value p"
  using assms
  by (simp add: varint_unfold bit_simps) (rule u64_eqI; simp add: bits64_def bit_simps bit_u8_ge)

lemma get_varint_3:
  assumes "bit (at p 0) 7" "bit (at p 1) 7" "\<not> bit (at p 2) 7"
  shows "sqlite3GetVarint p = varint_value p"
  using assms
  by (simp add: varint_unfold bit_simps) (rule u64_eqI; simp add: bits64_def bit_simps bit_u8_ge)

lemma get_varint_4:
  assumes "bit (at p 0) 7" "bit (at p 1) 7" "bit (at p 2) 7" "\<not> bit (at p 3) 7"
  shows "sqlite3GetVarint p = varint_value p"
  using assms
  by (simp add: varint_unfold bit_simps) (rule u64_eqI; simp add: bits64_def bit_simps bit_u8_ge)

lemma get_varint_5:
  assumes "bit (at p 0) 7" "bit (at p 1) 7" "bit (at p 2) 7" "bit (at p 3) 7" "\<not> bit (at p 4) 7"
  shows "sqlite3GetVarint p = varint_value p"
  using assms
  by (simp add: varint_unfold bit_simps) (rule u64_eqI; simp add: bits64_def bit_simps bit_u8_ge)

lemma get_varint_6:
  assumes "bit (at p 0) 7" "bit (at p 1) 7" "bit (at p 2) 7" "bit (at p 3) 7" "bit (at p 4) 7" "\<not> bit (at p 5) 7"
  shows "sqlite3GetVarint p = varint_value p"
  using assms
  by (simp add: varint_unfold bit_simps) (rule u64_eqI; simp add: bits64_def bit_simps bit_u8_ge)

lemma get_varint_7:
  assumes "bit (at p 0) 7" "bit (at p 1) 7" "bit (at p 2) 7" "bit (at p 3) 7" "bit (at p 4) 7" "bit (at p 5) 7" "\<not> bit (at p 6) 7"
  shows "sqlite3GetVarint p = varint_value p"
  using assms
  by (simp add: varint_unfold bit_simps) (rule u64_eqI; simp add: bits64_def bit_simps bit_u8_ge)

lemma get_varint_8:
  assumes "bit (at p 0) 7" "bit (at p 1) 7" "bit (at p 2) 7" "bit (at p 3) 7" "bit (at p 4) 7" "bit (at p 5) 7" "bit (at p 6) 7" "\<not> bit (at p 7) 7"
  shows "sqlite3GetVarint p = varint_value p"
  using assms
  by (simp add: varint_unfold bit_simps) (rule u64_eqI; simp add: bits64_def bit_simps bit_u8_ge)

lemma get_varint_9:
  assumes "bit (at p 0) 7" "bit (at p 1) 7" "bit (at p 2) 7" "bit (at p 3) 7" "bit (at p 4) 7" "bit (at p 5) 7" "bit (at p 6) 7" "bit (at p 7) 7"
  shows "sqlite3GetVarint p = varint_value p"
  using assms
  by (simp add: varint_unfold bit_simps) (rule u64_eqI; simp add: bits64_def bit_simps bit_u8_ge)

lemma sqlite3GetVarint_eq: "sqlite3GetVarint p = varint_value p"
  using get_varint_1 [of p] get_varint_2 [of p] get_varint_3 [of p] get_varint_4 [of p]
    get_varint_5 [of p] get_varint_6 [of p] get_varint_7 [of p] get_varint_8 [of p]
    get_varint_9 [of p]
  by argo

section \<open>Encoding and decoding\<close>

definition accumulate :: "u64 \<Rightarrow> u8 list \<Rightarrow> u64" where
  "accumulate = foldl (\<lambda>acc b. push_bit 7 acc OR ucast (b AND 0x7f))"

lemma accumulate_snoc:
  "accumulate acc (bs @ [b]) = push_bit 7 (accumulate acc bs) OR ucast (b AND 0x7f)"
  by (simp add: accumulate_def)

text \<open>Bytes with the continuation flag are accumulated, whatever follows.\<close>

lemma varint_ref_flagged:
  assumes "\<forall>b \<in> set bs. bit b 7" "length bs \<le> k"
  shows "varint_ref k acc (bs @ p) =
     (let (v, n) = varint_ref (k - length bs) (accumulate acc bs) p in (v, length bs + n))"
  using assms
proof (induction bs arbitrary: k acc)
  case Nil
  then show ?case by (simp add: accumulate_def)
next
  case (Cons b bs)
  then obtain k' where "k = Suc k'" by (cases k) auto
  with Cons show ?case by (simp add: accumulate_def u8_flag case_prod_beta Let_def)
qed

lemma group_flag: "bit (ucast ((v AND 0x7f) OR 0x80 :: u64) :: u8) 7"
  by (simp add: bit_simps)

lemma group_bits: "ucast ((ucast ((v AND 0x7f) OR 0x80 :: u64) :: u8) AND 0x7f) = v AND 0x7f"
  by (rule bit_word_eqI) (auto simp: bit_simps)

lemma push_group: "push_bit 7 (drop_bit 7 v) OR (v AND 0x7f) = (v :: u64)"
  by (rule bit_word_eqI) (auto simp: bit_simps)

lemma put_groups_flags: "b \<in> set (put_groups v) \<Longrightarrow> bit b 7"
proof (induction v rule: put_groups.induct)
  case (1 v)
  from "1.prems" show ?case
    by (subst (asm) put_groups.simps) (auto simp: Let_def group_flag "1.IH" split: if_splits)
qed

lemma accumulate_put_groups: "accumulate 0 (rev (put_groups v)) = v"
proof (induction v rule: put_groups.induct)
  case (1 v)
  show ?case
  proof (cases "drop_bit 7 v = 0")
    case True
    then have "accumulate 0 (rev (put_groups v)) = v AND 0x7f"
      by (subst put_groups.simps) (simp add: accumulate_def group_bits)
    also have "\<dots> = v" using push_group [of v] True by simp
    finally show ?thesis .
  next
    case False
    then show ?thesis
      using 1 push_group [of v]
      by (subst put_groups.simps) (simp add: accumulate_snoc group_bits)
  qed
qed

lemma put_groups_length: "0 < k \<Longrightarrow> length (put_groups v) \<le> k \<longleftrightarrow> unat v < 2 ^ (7 * k)"
proof (induction v arbitrary: k rule: put_groups.induct)
  case (1 v)
  from "1.prems" obtain j where j: "k = Suc j" by (cases k) auto
  have shift: "unat v < 2 ^ (7 * k) \<longleftrightarrow> unat (drop_bit 7 v) < 2 ^ (7 * j)"
    by (simp add: unat_drop_bit_div j power_add div_less_iff_less_mult mult.commute)
  show ?case
  proof (cases "drop_bit 7 v = 0")
    case True
    with "1.prems" shift show ?thesis by (subst put_groups.simps) simp
  next
    case False
    then have "0 < unat (drop_bit 7 v)" by (simp add: unat_gt_0)
    with False shift "1.IH" [OF refl False, of j] show ?thesis
      by (subst put_groups.simps) (cases "j = 0"; simp add: j put_groups.simps [of "drop_bit 7 v"])
  qed
qed

lemma varint_ref_last:
  "\<not> bit b 7 \<Longrightarrow> 0 < k \<Longrightarrow> varint_ref k acc (b # p) = (push_bit 7 acc OR ucast b, 1)"
  by (cases k) (simp_all add: u8_flag)

lemma put_groups_tl: "accumulate 0 (rev (tl (put_groups v))) = drop_bit 7 v"
  by (cases "drop_bit 7 v = 0"; subst put_groups.simps)
     (simp_all add: Let_def accumulate_put_groups, simp add: accumulate_def)

lemma put_groups_hd: "put_groups v = ucast ((v AND 0x7f) OR 0x80) # tl (put_groups v)"
  by (subst (1 2) put_groups.simps) simp

lemma group_unflagged:
  "\<not> bit ((ucast ((v AND 0x7f) OR 0x80 :: u64) :: u8) AND 0x7f) 7"
  by (simp add: bit_simps)

text \<open>The general encoder for values below \<open>2 ^ 56\<close>, and its nine-byte form.\<close>

lemma get_put_groups:
  assumes "unat v < 2 ^ 56"
  shows "varint_value (rev ((put_groups v)[0 := put_groups v ! 0 AND 0x7f]) @ p) =
     (v, length (put_groups v))"
proof -
  define g where "g = (ucast ((v AND 0x7f) OR 0x80) :: u8)"
  define bs where "bs = rev (tl (put_groups v))"
  have split: "put_groups v = g # rev bs" unfolding g_def bs_def by (simp add: put_groups_hd [symmetric])
  have len: "length bs < 8"
    using put_groups_length [of 8 v] assms by (simp add: split)
  have "varint_value (bs @ (g AND 0x7f) # p) =
     (push_bit 7 (accumulate 0 bs) OR ucast (g AND 0x7f), Suc (length bs))"
    unfolding varint_value_def
    by (subst varint_ref_flagged)
       (use len put_groups_flags [of _ v] in \<open>auto simp: split varint_ref_last g_def group_unflagged\<close>)
  also have "push_bit 7 (accumulate 0 bs) OR ucast (g AND 0x7f) = v"
    by (simp add: bs_def put_groups_tl g_def group_bits push_group)
  finally show ?thesis by (simp add: split)
qed

lemma put_high_app: "put_high i v p = put_high i v [] @ p"
proof (induction i arbitrary: v p)
  case (Suc i)
  show ?case by (simp add: Suc.IH [of _ "_ # p"] Suc.IH [of _ "[_]"])
qed simp

lemma put_high_facts:
  "length (put_high i v []) = i"
  "b \<in> set (put_high i v []) \<Longrightarrow> bit b 7"
  "unat v < 2 ^ (7 * i) \<Longrightarrow> accumulate 0 (put_high i v []) = v"
proof (induction i arbitrary: v)
  case 0
  { case 1 then show ?case by simp next
    case 2 then show ?case by simp next
    case 3 then show ?case by (simp add: accumulate_def unat_eq_0) }
next
  case (Suc i)
  have step: "put_high (Suc i) v [] = put_high i (drop_bit 7 v) [] @ [ucast ((v AND 0x7f) OR 0x80)]"
    for v by (simp add: put_high_app [of _ _ "[_]"])
  { case 1 then show ?case using Suc by (simp only: step) simp next
    case 2 then show ?case using Suc(2) by (auto simp only: step) (auto simp: group_flag) next
    case 3
    then have "unat (drop_bit 7 v) < 2 ^ (7 * i)"
      by (simp add: unat_drop_bit_div power_add div_less_iff_less_mult mult.commute)
    with Suc(3) show ?case
      by (simp only: step accumulate_snoc group_bits push_group) }
qed

lemma get_put_high:
  "varint_value (put_high 8 (drop_bit 8 v) [ucast v] @ p) = (v, 9)"
proof -
  have "unat (drop_bit 8 v) < 2 ^ (7 * 8)"
    using unsigned_less [of v] by (simp add: unat_drop_bit_div div_less_iff_less_mult)
  moreover have "push_bit 8 (drop_bit 8 v) OR ucast (ucast v :: u8) = v"
    by (rule bit_word_eqI) (auto simp: bit_simps)
  ultimately show ?thesis
    unfolding varint_value_def put_high_app [of _ _ "[_]"] append_assoc
    by (subst varint_ref_flagged) (auto simp: put_high_facts)
qed

lemma high_byte_mask: "v AND 0xff00000000000000 = (0 :: u64) \<longleftrightarrow> unat v < 2 ^ 56"
proof -
  have "v AND 0xff00000000000000 = v AND push_bit 56 (mask 8)"
    by (simp add: mask_eq_exp_minus_1)
  also have "\<dots> = push_bit 56 (drop_bit 56 v)"
    by (rule bit_word_eqI) (auto simp: bit_simps)
  also have "\<dots> = 0 \<longleftrightarrow> drop_bit 56 v = 0"
  proof
    assume "push_bit 56 (drop_bit 56 v) = 0"
    then have "drop_bit 56 (push_bit 56 (drop_bit 56 v)) = 0" by simp
    also have "drop_bit 56 (push_bit 56 (drop_bit 56 v)) = drop_bit 56 v"
      by (rule bit_word_eqI) (auto simp: bit_simps dest: bit_imp_le_length)
    finally show "drop_bit 56 v = 0" .
  qed simp
  also have "\<dots> \<longleftrightarrow> unat v < 2 ^ 56"
    by (simp add: unat_eq_0 [symmetric] unat_drop_bit_div div_eq_0_iff)
  finally show ?thesis .
qed

lemma putVarint64_eq:
  "putVarint64 v =
     (if unat v < 2 ^ 56 then rev ((put_groups v)[0 := put_groups v ! 0 AND 0x7f])
      else put_high 8 (drop_bit 8 v) [] @ [ucast v])"
  using high_byte_mask [of v]
  by (simp add: putVarint64_def Let_def put_high_app [of _ _ "[_]"] del: put_high.simps)

lemma get_put_varint64:
  "varint_value (putVarint64 v @ p) = (v, length (putVarint64 v))"
  using get_put_groups [of v p] get_put_high [of v p]
  by (simp add: putVarint64_eq put_high_facts put_high_app [of _ _ "[_]"] del: put_high.simps)

text \<open>The two fast paths give what the general encoder gives.\<close>

lemma drop_bit_7_eq_0: "drop_bit 7 v = 0 \<longleftrightarrow> (v :: u64) \<le> 0x7f"
  by (simp add: unat_eq_0 [symmetric] unat_drop_bit_div div_eq_0_iff word_le_nat_alt less_Suc_eq_le [symmetric])

lemma group_masked: "ucast ((v AND 0x7f) OR 0x80 :: u64) AND 0x7f = (ucast (v AND 0x7f) :: u8)"
  by (rule bit_word_eqI) (auto simp: bit_simps)

lemma putVarint_fast_paths: "sqlite3PutVarint v = putVarint64 v"
proof -
  consider "v \<le> 0x7f" | "\<not> v \<le> 0x7f" "v \<le> 0x3fff" | "\<not> v \<le> 0x7f" "\<not> v \<le> 0x3fff" by blast
  then show ?thesis
  proof cases
    case 1
    then have "put_groups v = [ucast ((v AND 0x7f) OR 0x80)]"
      by (subst put_groups.simps) (simp add: drop_bit_7_eq_0)
    moreover from 1 have "unat v < 2 ^ 56" by (simp add: word_le_nat_alt)
    ultimately show ?thesis using 1 by (simp add: sqlite3PutVarint_def putVarint64_eq group_masked)
  next
    case 2
    then have "drop_bit 14 v = 0"
      by (simp add: unat_eq_0 [symmetric] unat_drop_bit_div div_eq_0_iff word_le_nat_alt)
    with 2 have "put_groups v =
       [ucast ((v AND 0x7f) OR 0x80), ucast ((drop_bit 7 v AND 0x7f) OR 0x80)]"
      by (subst put_groups.simps, subst put_groups.simps) (simp add: drop_bit_7_eq_0 Let_def)
    moreover from 2 have "unat v < 2 ^ 56" by (simp add: word_le_nat_alt)
    ultimately show ?thesis using 2 by (simp add: sqlite3PutVarint_def putVarint64_eq group_masked)
  next
    case 3
    then show ?thesis by (simp add: sqlite3PutVarint_def)
  qed
qed

lemma get_put_varint:
  "sqlite3GetVarint (sqlite3PutVarint v @ p) = (v, length (sqlite3PutVarint v))"
  by (simp add: sqlite3GetVarint_eq putVarint_fast_paths get_put_varint64)

section \<open>Lengths\<close>

lemma varintLen_loop_groups: "varintLen_loop v (Suc i) = i + length (put_groups v)"
proof (induction v arbitrary: i rule: put_groups.induct)
  case (1 v)
  show ?case
    by (subst varintLen_loop.simps, subst put_groups.simps) (simp add: Let_def 1)
qed

lemma varintLen_groups: "sqlite3VarintLen v = length (put_groups v)"
  using varintLen_loop_groups [of v 0] by (simp add: sqlite3VarintLen_def)

lemma put_varint_length:
  "length (sqlite3PutVarint v) = (if unat v < 2 ^ 56 then length (put_groups v) else 9)"
  by (simp add: putVarint_fast_paths putVarint64_eq put_high_facts del: put_high.simps)

lemma put_groups_nonempty: "0 < length (put_groups v)"
  by (subst put_groups.simps) simp

lemma put_varint_length_bounds: "1 \<le> length (sqlite3PutVarint v)" "length (sqlite3PutVarint v) \<le> 9"
  using put_groups_length [of 8 v] put_groups_nonempty [of v]
  by (auto simp: put_varint_length Suc_le_eq)

text \<open>The length function agrees with the encoder below \<open>2 ^ 63\<close> only.\<close>

lemma varintLen_cases:
  "sqlite3VarintLen v = (if unat v < 2 ^ 63 then length (sqlite3PutVarint v) else 10)"
  using put_groups_length [of 8 v] put_groups_length [of 9 v] put_groups_length [of 10 v]
    unat_lt_pow [of v]
  by (auto simp: varintLen_groups put_varint_length)

section \<open>The 32-bit reader\<close>

lemma sat32_iff: "v AND 0xffffffff = (v :: u64) \<longleftrightarrow> unat v < 2 ^ 32"
proof -
  have "v AND 0xffffffff = take_bit 32 v" by (simp add: take_bit_eq_mask mask_eq_exp_minus_1)
  then show ?thesis
    by (simp add: word_unat_eq_iff unsigned_take_bit_eq take_bit_nat_eq_self_iff)
qed

lemma u64_of_u32: "ucast (ucast r :: u64) = (r :: u32)" "unat (ucast r :: u64) < 4294967296"
  using u32_lt [of r] by (simp_all add: unat_ucast_up, intro bit_word_eqI, auto simp: bit_simps)

lemma getVarint32_eq:
  "getVarint32 p =
     (let (v, n) = sqlite3GetVarint p in (if unat v < 2 ^ 32 then ucast v else 0xffffffff, n))"
proof -
  consider "\<not> bit (at p 0) 7" | "bit (at p 0) 7" "\<not> bit (at p 1) 7"
    | "bit (at p 0) 7" "bit (at p 1) 7" "\<not> bit (at p 2) 7"
    | "bit (at p 0) 7" "bit (at p 1) 7" "bit (at p 2) 7" by blast
  then show ?thesis
  proof cases
    case 1
    then have "sqlite3GetVarint p = (ucast (at p 0), 1)"
      by (simp add: sqlite3GetVarint_def u8_flag)
    moreover have "ucast (ucast b :: u64) = (ucast b :: u32)" for b :: u8
      by (rule bit_word_eqI) (auto simp: bit_simps)
    moreover have "unat (ucast b :: u64) < 2 ^ 32" for b :: u8
      using u8_lt [of b] by (simp add: unat_ucast_up)
    ultimately show ?thesis using 1 by (simp add: getVarint32_def u8_flag)
  next
    case 2
    define r where "r = (push_bit 7 (ucast (at p 0 AND 0x7f)) OR ucast (at p (Suc 0)) :: u32)"
    from 2 have "sqlite3GetVarint p = (ucast r, 2)"
      by (simp add: sqlite3GetVarint_def u8_flag r_def)
    with 2 show ?thesis
      by (simp add: getVarint32_def sqlite3GetVarint32_def u8_flag flag_0x80 r_def [symmetric] u64_of_u32)
  next
    case 3
    define r where "r = (push_bit 14 (ucast (at p 0 AND 0x7f)) OR
      push_bit 7 (ucast (at p (Suc 0) AND 0x7f)) OR ucast (at p 2) :: u32)"
    have "(push_bit 14 (ucast (at p 0)) OR ucast (at p 2)) AND SLOT_2_0 OR
        push_bit 7 (ucast (at p (Suc 0)) AND 0x7f) = r"
      unfolding r_def using 3 by (intro u32_eqI) (simp add: bits32_def bit_simps bit_u8_ge)
    with 3 have "sqlite3GetVarint p = (ucast r, 3)"
      by (simp add: sqlite3GetVarint_def u8_flag flag_0x80 bit_simps Let_def)
    with 3 show ?thesis
      by (simp add: getVarint32_def sqlite3GetVarint32_def u8_flag flag_0x80 r_def [symmetric] u64_of_u32)
  next
    case 4
    then show ?thesis
      by (simp add: getVarint32_def sqlite3GetVarint32_def u8_flag flag_0x80 sat32_iff Let_def
          split: prod.split)
  qed
qed

section \<open>Four-byte integers\<close>

lemma get_put_4byte: "sqlite3Get4byte (sqlite3Put4byte v @ p) = v"
  unfolding sqlite3Get4byte_def sqlite3Put4byte_def
  by (rule u32_eqI) (simp add: bits32_def at_def bit_simps nth_Cons')

lemma put_get_4byte: "sqlite3Put4byte (sqlite3Get4byte [a, b, c, d]) = [a, b, c, d]"
  unfolding sqlite3Get4byte_def sqlite3Put4byte_def
  by (auto simp: at_def bit_simps bit_u8_ge intro!: bit_word_eqI)

end
