(* ===== verification/Sqlite_Numbers.thy ===== *)
theory Sqlite_Numbers
  imports Sqlite_Chars "HOL-Library.Signed_Division"
begin

text \<open>
  Integers and their text form in the bundled SQLite (\<^verbatim>\<open>util.c\<close> in \<^verbatim>\<open>sqlite3/sqlite3.c\<close>): 64-bit
  arithmetic with overflow detection, decimal and hexadecimal literals, rendering of a 64-bit
  integer, and the logarithmic estimates of the query planner.

  A signed 64-bit integer is an \<^typ>\<open>int\<close>, with the range written out; unsigned accumulators are
  words and wrap around.
\<close>

section \<open>Arithmetic\<close>

definition LARGEST_INT64 :: int where "LARGEST_INT64 = 2 ^ 63 - 1"
definition SMALLEST_INT64 :: int where "SMALLEST_INT64 = -1 - LARGEST_INT64"

definition i64 :: "int \<Rightarrow> bool" where
  "i64 x \<longleftrightarrow> SMALLEST_INT64 \<le> x \<and> x \<le> LARGEST_INT64"

text \<open>
  The three routines have two bodies, chosen by the compiler: \<open>gcc\<close> tells whether the first is
  compiled, which calls \<^verbatim>\<open>__builtin_add_overflow(*pA, iB, pA)\<close> and its relatives: these store the low
  64 bits of the result in any case and return whether it did not fit. The result is the return
  code and the new value of \<^verbatim>\<open>*pA\<close>.
\<close>

definition builtin_overflow :: "int \<Rightarrow> int \<times> int" where
  "builtin_overflow r = (if i64 r then 0 else 1, sint (of_int r :: u64))"

definition sqlite3AddInt64 :: "bool \<Rightarrow> int \<Rightarrow> int \<Rightarrow> int \<times> int" where
  "sqlite3AddInt64 gcc iA iB =
     (if gcc then builtin_overflow (iA + iB)
      else if iB \<ge> 0
      then (if iA > 0 \<and> LARGEST_INT64 - iA < iB then (1, iA) else (0, iA + iB))
      else (if iA < 0 \<and> - (iA + LARGEST_INT64) > iB + 1 then (1, iA) else (0, iA + iB)))"

definition sqlite3SubInt64 :: "bool \<Rightarrow> int \<Rightarrow> int \<Rightarrow> int \<times> int" where
  "sqlite3SubInt64 gcc iA iB =
     (if gcc then builtin_overflow (iA - iB)
      else if iB = SMALLEST_INT64
      then (if iA \<ge> 0 then (1, iA) else (0, iA - iB))
      else sqlite3AddInt64 gcc iA (- iB))"

definition sqlite3MulInt64 :: "bool \<Rightarrow> int \<Rightarrow> int \<Rightarrow> int \<times> int" where
  "sqlite3MulInt64 gcc iA iB =
     (if gcc then builtin_overflow (iA * iB)
      else if iB > 0
      then (if iA > LARGEST_INT64 sdiv iB then (1, iA)
            else if iA < SMALLEST_INT64 sdiv iB then (1, iA)
            else (0, iA * iB))
      else if iB < 0
      then (if iA > 0
            then (if iB < SMALLEST_INT64 sdiv iA then (1, iA) else (0, iA * iB))
            else if iA < 0
            then (if iB = SMALLEST_INT64 then (1, iA)
                  else if iA = SMALLEST_INT64 then (1, iA)
                  else if - iA > LARGEST_INT64 sdiv (- iB) then (1, iA)
                  else (0, iA * iB))
            else (0, iA * iB))
      else (0, iA * iB))"

definition sqlite3AbsInt32 :: "int \<Rightarrow> int" where
  "sqlite3AbsInt32 x = (if x \<ge> 0 then x else if x = - (2 ^ 31) then 2 ^ 31 - 1 else - x)"

section \<open>Hexadecimal\<close>

definition sqlite3HexToInt :: "u8 \<Rightarrow> u8" where
  "sqlite3HexToInt h =
     (let n = (ucast h :: u32); n = n + 9 * (1 AND drop_bit 6 n) in ucast (n AND 0xf))"

text \<open>\<open>z\<close> is the text after \<^verbatim>\<open>x'\<close>, and \<open>n\<close> counts the closing quote.\<close>

function hexToBlob_loop :: "u8 list \<Rightarrow> nat \<Rightarrow> nat \<Rightarrow> u8 list" where
  "hexToBlob_loop z n i =
     (if i < n
      then (push_bit 4 (sqlite3HexToInt (at z i)) OR sqlite3HexToInt (at z (i + 1))) #
           hexToBlob_loop z n (i + 2)
      else [])"
  by pat_completeness auto
termination
  by (relation "measure (\<lambda>(z, n, i). n - i)") auto

declare hexToBlob_loop.simps [simp del]

definition sqlite3HexToBlob :: "u8 list \<Rightarrow> nat \<Rightarrow> u8 list" where
  "sqlite3HexToBlob z n = hexToBlob_loop z (n - 1) 0"

section \<open>Decimal text\<close>

text \<open>
  \<open>Some\<close> of the consumed digits' count and value, \<open>None\<close> when the value exceeds the limit of the
  source.
\<close>

fun getUInt32_loop :: "u8 list \<Rightarrow> nat \<Rightarrow> u64 \<Rightarrow> (nat \<times> u64 \<times> u8 list) option" where
  "getUInt32_loop z i v =
     (case z of
        [] \<Rightarrow> Some (i, v, z)
      | c # z' \<Rightarrow>
          if sqlite3Isdigit c
          then (let v = v * 10 + ucast c - 0x30
                in if v > 4294967296 then None else getUInt32_loop z' (i + 1) v)
          else Some (i, v, z))"

declare getUInt32_loop.simps [simp del]

text \<open>The result is whether it succeeded and the value of \<^verbatim>\<open>*pI\<close>.\<close>

definition sqlite3GetUInt32 :: "u8 list \<Rightarrow> bool \<times> u32" where
  "sqlite3GetUInt32 z =
     (case getUInt32_loop z 0 0 of
        None \<Rightarrow> (False, 0)
      | Some (i, v, rest) \<Rightarrow>
          if i = 0 \<or> at rest 0 \<noteq> 0 then (False, 0) else (True, ucast v))"

text \<open>
  Comparison of nineteen digits with \<^verbatim>\<open>9223372036854775808\<close>; the loop stops at the first difference.
\<close>

definition pow63 :: "u8 list" where
  "pow63 = bytes_of ''922337203685477580''"

fun compare2pow63_loop :: "u8 list \<Rightarrow> nat \<Rightarrow> nat \<Rightarrow> nat \<Rightarrow> nat \<Rightarrow> int" where
  "compare2pow63_loop z pos incr i 0 = 0"
| "compare2pow63_loop z pos incr i (Suc k) =
     (let c = (sint (at z (pos + i * incr)) - sint (pow63 ! i)) * 10
      in if c \<noteq> 0 then c else compare2pow63_loop z pos incr (Suc i) k)"

definition compare2pow63 :: "u8 list \<Rightarrow> nat \<Rightarrow> nat \<Rightarrow> int" where
  "compare2pow63 z pos incr =
     (let c = compare2pow63_loop z pos incr 0 18
      in if c = 0 then sint (at z (pos + 18 * incr)) - 0x38 else c)"

text \<open>Skipping characters while a condition holds; \<open>incr\<close> is 1, or 2 for UTF-16.\<close>

function skip :: "(u8 \<Rightarrow> bool) \<Rightarrow> u8 list \<Rightarrow> nat \<Rightarrow> nat \<Rightarrow> nat \<Rightarrow> nat" where
  "skip P z zEnd incr pos =
     (if 0 < incr \<and> pos < zEnd \<and> P (at z pos) then skip P z zEnd incr (pos + incr) else pos)"
  by pat_completeness auto
termination
  by (relation "measure (\<lambda>(P, z, zEnd, incr, pos). zEnd - pos)") auto

declare skip.simps [simp del]

text \<open>The digit loop of \<^verbatim>\<open>sqlite3Atoi64\<close>: the offset behind the digits and the accumulated value.\<close>

function atoi64_digits :: "u8 list \<Rightarrow> nat \<Rightarrow> nat \<Rightarrow> nat \<Rightarrow> nat \<Rightarrow> u64 \<Rightarrow> nat \<times> u64" where
  "atoi64_digits z zEnd incr pos i u =
     (let c = (scast (at z (pos + i)) :: u32) - 0x30
      in if 0 < incr \<and> pos + i < zEnd \<and> c \<le> 9
         then atoi64_digits z zEnd incr pos (i + incr) (u * 10 + ucast c)
         else (i, u))"
  by pat_completeness auto
termination
  by (relation "measure (\<lambda>(z, zEnd, incr, pos, i, u). zEnd - (pos + i))") auto

declare atoi64_digits.simps [simp del]

datatype encoding = SQLITE_UTF8 | SQLITE_UTF16LE | SQLITE_UTF16BE

text \<open>
  The first part of \<^verbatim>\<open>sqlite3Atoi64\<close> (stride, end position, start position, and whether a UTF-16
  text has a character beyond Latin-1) and the whole routine: return code and value of \<^verbatim>\<open>*pNum\<close>.
\<close>

definition atoi64_setup :: "u8 list \<Rightarrow> nat \<Rightarrow> encoding \<Rightarrow> nat \<times> nat \<times> nat \<times> bool" where
  "atoi64_setup z len enc =
     (if enc = SQLITE_UTF8 then (1, len, 0, False)
      else let len = len - len mod 2;
               i = skip (\<lambda>c. c = 0) z len 2 (if enc = SQLITE_UTF16LE then 1 else 0)
           in (2, (if even i then i + 1 else i - 1), (if enc = SQLITE_UTF16LE then 0 else 1), i < len))"

definition sqlite3Atoi64 :: "u8 list \<Rightarrow> nat \<Rightarrow> encoding \<Rightarrow> int \<times> int" where
  "sqlite3Atoi64 z len enc =
     (let (incr, zEnd, pos, nonNum) = atoi64_setup z len enc;
          pos = skip sqlite3Isspace z zEnd incr pos;
          neg = (pos < zEnd \<and> at z pos = 0x2D);
          pos = (if pos < zEnd \<and> (at z pos = 0x2D \<or> at z pos = 0x2B) then pos + incr else pos);
          zStart = pos;
          pos = skip (\<lambda>c. c = 0x30) z zEnd incr pos;
          (i, u) = atoi64_digits z zEnd incr pos 0 0;
          limit = (if neg then SMALLEST_INT64 else LARGEST_INT64);
          pNum = (if uint u > LARGEST_INT64 then limit else if neg then - uint u else uint u);
          rc = (if i = 0 \<and> zStart = pos then -1
                else if nonNum then 1
                else if skip sqlite3Isspace z zEnd incr (pos + i) < zEnd then 1
                else 0)
      in if i < 19 * incr then (rc, pNum)
         else let j = (if i > 19 * incr then 1 else compare2pow63 z pos incr)
              in if j < 0 then (rc, pNum)
                 else if j > 0 then (2, limit)
                 else (if neg then rc else 3, limit))"

section \<open>Rendering\<close>

definition sqlite3DigitPairs :: "u8 list" where
  "sqlite3DigitPairs = bytes_of (''00010203040506070809'' @ ''10111213141516171819'' @
     ''20212223242526272829'' @ ''30313233343536373839'' @ ''40414243444546474849'' @
     ''50515253545556575859'' @ ''60616263646566676869'' @ ''70717273747576777879'' @
     ''80818283848586878889'' @ ''90919293949596979899'')"

text \<open>The buffer is filled from its end; \<open>a\<close> is the part filled so far.\<close>

function int64ToText_loop :: "u64 \<Rightarrow> u8 list \<Rightarrow> u8 list" where
  "int64ToText_loop x a =
     (if x \<ge> 10
      then let kk = unat (x mod 100) * 2
           in int64ToText_loop (x div 100) (sqlite3DigitPairs ! kk # sqlite3DigitPairs ! (kk + 1) # a)
      else if x \<noteq> 0 then (ucast x + 0x30) # a else a)"
  by pat_completeness auto
termination
  by (relation "measure (\<lambda>(x, a). unat x)") (auto simp: word_le_nat_alt unat_div)

declare int64ToText_loop.simps [simp del]

definition sqlite3Int64ToText :: "int \<Rightarrow> u8 list" where
  "sqlite3Int64ToText v =
     (if v > 0 then int64ToText_loop (of_int v) []
      else if v = 0 then [0x30]
      else let x = (if v = SMALLEST_INT64 then push_bit 63 1 else of_int (- v))
           in 0x2D # int64ToText_loop x [])"

section \<open>Overflow detection is exact\<close>

lemma i64_bounds: "i64 x \<longleftrightarrow> - (2 ^ 63) \<le> x \<and> x < 2 ^ 63"
  by (auto simp: i64_def SMALLEST_INT64_def LARGEST_INT64_def)

lemma builtin_overflow_eq:
  "builtin_overflow r = (if i64 r then (0, r) else (1, (r + 2 ^ 63) mod 2 ^ 64 - 2 ^ 63))"
proof -
  have "sint (of_int r :: u64) = signed_take_bit 63 r" by (simp add: signed_of_int)
  then have s: "sint (of_int r :: u64) = (r + 2 ^ 63) mod 2 ^ 64 - 2 ^ 63"
    by (simp add: signed_take_bit_eq_take_bit_shift take_bit_eq_mod)
  have "(r + 2 ^ 63) mod 2 ^ 64 = r + 2 ^ 63" if "i64 r"
    using that by (intro mod_pos_pos_trivial) (auto simp: i64_bounds)
  then show ?thesis by (simp add: builtin_overflow_def s)
qed

lemma add_int64_exact:
  assumes "i64 a" "i64 b"
  shows "sqlite3AddInt64 False a b = (if i64 (a + b) then (0, a + b) else (1, a))"
  using assms by (auto simp: sqlite3AddInt64_def i64_def SMALLEST_INT64_def LARGEST_INT64_def)

lemma sub_int64_exact:
  assumes "i64 a" "i64 b"
  shows "sqlite3SubInt64 False a b = (if i64 (a - b) then (0, a - b) else (1, a))"
proof (cases "b = SMALLEST_INT64")
  case True
  with assms show ?thesis
    by (auto simp: sqlite3SubInt64_def i64_def SMALLEST_INT64_def LARGEST_INT64_def)
next
  case False
  with assms have "i64 (- b)" by (auto simp: i64_def SMALLEST_INT64_def)
  with False assms(1) show ?thesis
    by (simp add: sqlite3SubInt64_def add_int64_exact)
qed

text \<open>Comparisons against a quotient that C truncates towards zero.\<close>

lemma sdiv_pos: "0 \<le> a \<Longrightarrow> 0 < b \<Longrightarrow> a sdiv b = a div (b :: int)"
  by (simp add: signed_divide_int_def sgn_if)

lemma sdiv_neg: "a \<le> 0 \<Longrightarrow> 0 < b \<Longrightarrow> a sdiv b = - ((- a) div (b :: int))"
  by (cases "a = 0") (simp_all add: signed_divide_int_def sgn_if)

lemma le_int_div_iff: "0 < b \<Longrightarrow> a \<le> n div b \<longleftrightarrow> a * b \<le> (n :: int)"
proof
  assume b: "0 < b" and "a \<le> n div b"
  then have "a * b \<le> n div b * b" by (simp add: mult_right_mono)
  also have "\<dots> \<le> n" using b div_mult_mod_eq [of n b] pos_mod_sign [of b n] by linarith
  finally show "a * b \<le> n" .
next
  assume b: "0 < b" and "a * b \<le> n"
  then have "(a * b) div b \<le> n div b" by (intro zdiv_mono1)
  with b show "a \<le> n div b" by simp
qed

lemma le_sdiv_pos: "0 \<le> n \<Longrightarrow> 0 < b \<Longrightarrow> a \<le> n sdiv b \<longleftrightarrow> a * b \<le> (n :: int)"
  by (simp add: sdiv_pos le_int_div_iff)

lemma sdiv_neg_le: "n \<le> 0 \<Longrightarrow> 0 < b \<Longrightarrow> n sdiv b \<le> a \<longleftrightarrow> (n :: int) \<le> a * b"
proof -
  assume "n \<le> 0" "0 < b"
  then have "n sdiv b \<le> a \<longleftrightarrow> - a \<le> (- n) div b" by (simp add: sdiv_neg minus_le_iff)
  also have "\<dots> \<longleftrightarrow> - a * b \<le> - n" using \<open>0 < b\<close> by (rule le_int_div_iff)
  finally show ?thesis by simp
qed

lemma mul_int64_exact:
  assumes "i64 a" "i64 b"
  shows "sqlite3MulInt64 False a b = (if i64 (a * b) then (0, a * b) else (1, a))"
proof -
  have L: "0 \<le> LARGEST_INT64" "SMALLEST_INT64 \<le> 0"
    by (simp_all add: LARGEST_INT64_def SMALLEST_INT64_def)
  consider "0 < b" | "b < 0" "0 < a" | "b < 0" "a < 0" | "a = 0" "b < 0" | "b = 0" by linarith
  then show ?thesis
  proof cases
    case 1
    then show ?thesis
      using le_sdiv_pos [OF L(1) 1, of a] sdiv_neg_le [OF L(2) 1, of a]
      by (auto simp: sqlite3MulInt64_def i64_def)
  next
    case 2
    then have "a * b \<le> LARGEST_INT64" using L(1) mult_pos_neg [of a b] by simp
    with 2 show ?thesis
      using sdiv_neg_le [OF L(2) 2(2), of b]
      by (auto simp: sqlite3MulInt64_def i64_def mult.commute)
  next
    case 3
    then have pos: "SMALLEST_INT64 \<le> a * b" using L(2) mult_neg_neg [of a b] by simp
    have big: "LARGEST_INT64 < a * b" if "b = SMALLEST_INT64 \<or> a = SMALLEST_INT64"
    proof -
      have "- SMALLEST_INT64 \<le> a * b"
        using that mult_mono [of 1 "- a" "- SMALLEST_INT64" "- b"]
          mult_mono [of 1 "- b" "- SMALLEST_INT64" "- a"] 3 L(2)
        by (auto simp: mult.commute)
      then show ?thesis by (simp add: SMALLEST_INT64_def)
    qed
    have "- a \<le> LARGEST_INT64 sdiv (- b) \<longleftrightarrow> a * b \<le> LARGEST_INT64"
      using le_sdiv_pos [OF L(1), of "- b" "- a"] 3 by simp
    with 3 pos big show ?thesis by (auto simp: sqlite3MulInt64_def i64_def)
  next
    case 4
    with L have "i64 0" by (simp add: i64_def)
    with 4 L show ?thesis by (simp add: sqlite3MulInt64_def)
  next
    case 5
    with L show ?thesis by (simp add: sqlite3MulInt64_def i64_def)
  qed
qed

section \<open>Decimal digits\<close>

definition digit_of :: "u8 \<Rightarrow> nat" where
  "digit_of b = unat b - 48"

definition dec :: "u8 list \<Rightarrow> nat" where
  "dec ds = foldl (\<lambda>n b. n * 10 + digit_of b) 0 ds"

lemma digit_less: "sqlite3Isdigit b \<Longrightarrow> digit_of b < 10"
  by (auto simp: digit_of_def sqlite3Isdigit_iff word_le_nat_alt)

lemma unat_digit: "sqlite3Isdigit b \<Longrightarrow> unat b = digit_of b + 48"
  by (auto simp: digit_of_def sqlite3Isdigit_iff word_le_nat_alt)

lemma dec_acc: "foldl (\<lambda>n b. n * 10 + digit_of b) n ds = n * 10 ^ length ds + dec ds"
proof (induction ds arbitrary: n)
  case (Cons b ds)
  have "dec (b # ds) = digit_of b * 10 ^ length ds + dec ds"
    using Cons.IH [of "digit_of b"] by (simp add: dec_def)
  moreover have "foldl (\<lambda>n b. n * 10 + digit_of b) n (b # ds) =
      (n * 10 + digit_of b) * 10 ^ length ds + dec ds"
    by (simp add: Cons.IH)
  ultimately show ?case by (simp del: foldl_Cons add: distrib_right mult.assoc)
qed (simp add: dec_def)

lemma dec_Nil [simp]: "dec [] = 0"
  by (simp add: dec_def)

lemma dec_Cons: "dec (b # ds) = digit_of b * 10 ^ length ds + dec ds"
  using dec_acc [of "digit_of b" ds] by (simp add: dec_def)

lemma dec_snoc: "dec (ds @ [b]) = dec ds * 10 + digit_of b"
  by (simp add: dec_def)

lemma dec_append: "dec (ds @ es) = dec ds * 10 ^ length es + dec es"
  using dec_acc [of "dec ds" es] by (simp add: dec_def)

lemma dec_less: "list_all sqlite3Isdigit ds \<Longrightarrow> dec ds < 10 ^ length ds"
proof (induction ds)
  case (Cons b ds)
  then have "digit_of b \<le> 9" "dec ds < 10 ^ length ds" using digit_less [of b] by auto
  then have "digit_of b * 10 ^ length ds + dec ds < 9 * 10 ^ length ds + 10 ^ length ds"
    by (intro add_le_less_mono mult_right_mono) auto
  then show ?case by (simp add: dec_Cons)
qed simp

lemma dec_ge: "ds \<noteq> [] \<Longrightarrow> digit_of (hd ds) \<noteq> 0 \<Longrightarrow> 10 ^ (length ds - 1) \<le> dec ds"
  by (cases ds) (auto simp: dec_Cons intro: trans_le_add1)

text \<open>What the digit loop computes from one character.\<close>

lemma sint_u8: "sint (b :: u8) = (if uint b < 128 then uint b else uint b - 256)"
proof -
  have "sint b = (uint b + 128) mod 256 - 128"
    unfolding sint_uint signed_take_bit_eq_take_bit_shift take_bit_eq_mod by simp
  moreover have "(uint b + 128) mod 256 = uint b - 128" if "128 \<le> uint b"
    using that uint_u8 [of b] mod_add_self2 [of "uint b - 128" 256]
      mod_pos_pos_trivial [of "uint b - 128" 256] by (simp add: add.commute)
  ultimately show ?thesis using uint_u8 [of b] by (simp add: mod_pos_pos_trivial)
qed

lemma char_minus_zero:
  "(scast b :: u32) - 0x30 \<le> 9 \<longleftrightarrow> sqlite3Isdigit b"
  "sqlite3Isdigit b \<Longrightarrow> unat ((scast b :: u32) - 0x30) = digit_of b"
proof -
  have w: "(scast b :: u32) - 0x30 = word_of_int (sint b - 48)"
    unfolding scast_eq by (simp only: of_int_diff of_int_numeral)
  have m: "k mod 4294967296 = k + 4294967296" if "- 200 \<le> k" "k < 0" for k :: int
    using that mod_add_self2 [of k 4294967296] mod_pos_pos_trivial [of "k + 4294967296" 4294967296]
    by linarith
  have "uint ((scast b :: u32) - 0x30) = (sint b - 48) mod 4294967296"
    unfolding w uint_word_of_int_eq by (simp add: take_bit_eq_mod)
  then have u: "uint ((scast b :: u32) - 0x30) =
      (if 48 \<le> sint b then sint b - 48 else sint b - 48 + 4294967296)"
    using uint_u8 [of b] by (auto simp: m sint_u8)
  show "(scast b :: u32) - 0x30 \<le> 9 \<longleftrightarrow> sqlite3Isdigit b"
    using uint_u8 [of b]
    by (cases "48 \<le> uint b"; cases "uint b < 128")
       (simp_all add: word_le_def u sint_u8 sqlite3Isdigit_iff not_le,
         insert uint_ge_0 [of b], linarith)
  assume "sqlite3Isdigit b"
  then have "48 \<le> uint b" "uint b \<le> 57" by (simp_all add: sqlite3Isdigit_iff word_le_def)
  then have "uint ((scast b :: u32) - 0x30) = uint b - 48" by (simp add: u sint_u8)
  with \<open>48 \<le> uint b\<close> show "unat ((scast b :: u32) - 0x30) = digit_of b"
    unfolding digit_of_def unat_eq_nat_uint by (simp only: nat_diff_distrib nat_numeral)
qed

section \<open>Reading a decimal integer\<close>

text \<open>In a UTF-8 text the loops see the rest of the text from their position.\<close>

lemma at_suffix: "at (pre @ suf) (length pre + k) = at suf k"
  by (simp add: at_def nth_append)

lemma skip_takeWhile:
  "skip P (pre @ suf) (length pre + length suf) 1 (length pre) = length pre + length (takeWhile P suf)"
proof (induction suf arbitrary: pre)
  case Nil
  show ?case by (subst skip.simps) simp
next
  case (Cons c suf)
  show ?case
    using Cons.IH [of "pre @ [c]"] at_suffix [of pre "c # suf" 0]
    by (subst skip.simps) simp
qed

lemma digits_takeWhile:
  "atoi64_digits (pre @ ds @ suf) (length pre + length ds + length suf) 1 (length pre) (length ds)
     (of_nat n) =
   (length ds + length (takeWhile sqlite3Isdigit suf),
    of_nat (foldl (\<lambda>n b. n * 10 + digit_of b) n (takeWhile sqlite3Isdigit suf)))"
proof (induction suf arbitrary: ds n)
  case Nil
  show ?case by (subst atoi64_digits.simps) simp
next
  case (Cons c suf)
  have c: "at (pre @ ds @ c # suf) (length pre + length ds) = c"
    using at_suffix [of "pre @ ds" "c # suf" 0] by simp
  have u: "ucast ((scast c :: u32) - 0x30) = (of_nat (digit_of c) :: u64)" if "sqlite3Isdigit c"
  proof -
    have "ucast ((scast c :: u32) - 0x30) = (of_nat (unat ((scast c :: u32) - 0x30)) :: u64)"
      by (rule of_nat_unat [symmetric])
    with that show ?thesis by (simp only: char_minus_zero)
  qed
  show ?case
    using Cons.IH [of "ds @ [c]" "n * 10 + digit_of c"]
    by (subst atoi64_digits.simps) (simp add: c char_minus_zero u Let_def)
qed

text \<open>The textual comparison with \<open>2 ^ 63\<close> is the numerical one.\<close>

lemma digit_sint: "sqlite3Isdigit b \<Longrightarrow> sint b = int (digit_of b) + 48"
proof -
  assume d: "sqlite3Isdigit b"
  then have "uint b = int (digit_of b) + 48"
    using unat_digit [OF d] by (simp only: uint_nat of_nat_add of_nat_numeral)
  moreover have "digit_of b < 10" using d by (rule digit_less)
  ultimately show ?thesis by (simp add: sint_u8)
qed

lemma dec_Cons_less:
  assumes "digit_of x < digit_of y" "list_all sqlite3Isdigit a" "length a = length b"
  shows "dec (x # a) < dec (y # b)"
proof -
  have "dec (x # a) < digit_of x * 10 ^ length a + 10 ^ length a"
    using dec_less [OF assms(2)] by (simp add: dec_Cons)
  also have "\<dots> = (digit_of x + 1) * 10 ^ length a" by simp
  also have "\<dots> \<le> digit_of y * 10 ^ length a"
    using assms(1) by (intro mult_right_mono) auto
  also have "\<dots> \<le> dec (y # b)" using assms(3) by (simp add: dec_Cons)
  finally show ?thesis .
qed

lemma pow63_facts: "length pow63 = 18" "list_all sqlite3Isdigit pow63" "dec pow63 = 922337203685477580"
  by (simp_all add: pow63_def bytes_of_def byte_of_def sqlite3Isdigit_iff dec_def digit_of_def)

lemma compare_loop:
  assumes "\<And>j. j < 18 \<Longrightarrow> at z (pos + j) = ds ! j" "18 \<le> length ds" "list_all sqlite3Isdigit ds"
  shows "i + k \<le> 18 \<Longrightarrow> sgn (compare2pow63_loop z pos 1 i k) =
     sgn (int (dec (take k (drop i ds))) - int (dec (take k (drop i pow63))))"
proof (induction k arbitrary: i)
  case (Suc k)
  define x y where "x = ds ! i" and "y = pow63 ! i"
  define a b where "a = take k (drop (Suc i) ds)" and "b = take k (drop (Suc i) pow63)"
  have len: "i < length ds" "i < length pow63" "length a = k" "length b = k"
    using Suc.prems assms(2) by (simp_all add: pow63_facts a_def b_def)
  have parts: "take (Suc k) (drop i ds) = x # a" "take (Suc k) (drop i pow63) = y # b"
    using len by (simp_all add: x_def y_def a_def b_def Cons_nth_drop_Suc [symmetric])
  have dig: "sqlite3Isdigit x" "sqlite3Isdigit y" "list_all sqlite3Isdigit a" "list_all sqlite3Isdigit b"
    using assms(3) pow63_facts(2) len
    by (auto simp: x_def y_def a_def b_def list_all_iff dest!: in_set_takeD in_set_dropD)
  have c: "sint (at z (pos + i)) = int (digit_of x) + 48" "sint (pow63 ! i) = int (digit_of y) + 48"
    using assms(1) [of i] Suc.prems dig(1,2) by (simp_all add: digit_sint x_def y_def)
  consider "digit_of x < digit_of y" | "digit_of x = digit_of y" | "digit_of y < digit_of x" by linarith
  then show ?case
  proof cases
    case 1
    with dec_Cons_less [OF 1 dig(3), of b] len show ?thesis unfolding parts by (simp add: c)
  next
    case 2
    with Suc.IH [of "Suc i"] Suc.prems len show ?thesis
      unfolding parts by (simp add: c dec_Cons a_def b_def)
  next
    case 3
    with dec_Cons_less [OF 3 dig(4), of a] len show ?thesis unfolding parts by (simp add: c)
  qed
qed simp

lemma compare2pow63_sgn:
  assumes "\<And>j. j < 19 \<Longrightarrow> at z (pos + j) = ds ! j" "length ds = 19" "list_all sqlite3Isdigit ds"
  shows "sgn (compare2pow63 z pos 1) = sgn (int (dec ds) - 2 ^ 63)"
proof -
  define a l where "a = take 18 ds" and "l = ds ! 18"
  have ds: "ds = a @ [l]"
    using assms(2) take_Suc_conv_app_nth [of 18 ds] by (simp add: a_def l_def)
  have l: "digit_of l < 10" "sint l = int (digit_of l) + 48"
    using assms(3) by (simp_all add: ds digit_less digit_sint)
  have c: "sgn (compare2pow63_loop z pos 1 0 18) = sgn (int (dec a) - 922337203685477580)"
    using compare_loop [of z pos ds 0 18] assms by (simp add: a_def pow63_facts)
  have v: "int (dec ds) = int (dec a) * 10 + int (digit_of l)"
    by (simp add: ds dec_snoc)
  have last: "at z (pos + 18) = l" using assms(1) [of 18] by (simp add: l_def)
  show ?thesis
  proof (cases "compare2pow63_loop z pos 1 0 18 = 0")
    case True
    with c have "int (dec a) = 922337203685477580" by (simp add: sgn_if split: if_splits)
    with True l last show ?thesis by (simp add: compare2pow63_def v)
  next
    case False
    with c l show ?thesis by (auto simp: compare2pow63_def v sgn_if split: if_splits)
  qed
qed

text \<open>
  What \<^verbatim>\<open>sqlite3Atoi64\<close> makes of a UTF-8 text: white space, a sign, zeros, digits, white space;
  \<open>N\<close> is the value of the digits.
\<close>

definition atoi64_value :: "bool \<Rightarrow> int \<Rightarrow> nat \<Rightarrow> int \<times> int" where
  "atoi64_value neg rc N =
     (if N < 2 ^ 63 then (rc, if neg then - int N else int N)
      else if N = 2 ^ 63 then (if neg then rc else 3, if neg then SMALLEST_INT64 else LARGEST_INT64)
      else (2, if neg then SMALLEST_INT64 else LARGEST_INT64))"

definition atoi64_spec :: "u8 list \<Rightarrow> int \<times> int" where
  "atoi64_spec z =
     (let r0 = dropWhile sqlite3Isspace z;
          neg = (at r0 0 = 0x2D);
          r1 = (if at r0 0 = 0x2D \<or> at r0 0 = 0x2B then tl r0 else r0);
          r2 = dropWhile (\<lambda>c. c = 0x30) r1;
          ds = takeWhile sqlite3Isdigit r2;
          rest = dropWhile sqlite3Isspace (dropWhile sqlite3Isdigit r2);
          rc = (if ds = [] \<and> r2 = r1 then -1 else if rest \<noteq> [] then 1 else 0)
      in atoi64_value neg rc (dec ds))"

text \<open>The tail of the routine, from the digits on.\<close>

lemma atoi64_tail:
  fixes suf :: "u8 list"
  defines "ds \<equiv> takeWhile sqlite3Isdigit suf"
  assumes nz: "suf = [] \<or> hd suf \<noteq> 0x30"
  shows "(let (i, u) = (length ds, of_nat (dec ds) :: u64);
              limit = (if neg then SMALLEST_INT64 else LARGEST_INT64);
              pNum = (if uint u > LARGEST_INT64 then limit else if neg then - uint u else uint u)
          in if i < 19 * 1 then (rc, pNum)
             else let j = (if i > 19 * 1 then 1 else compare2pow63 (pre @ suf) (length pre) 1)
                  in if j < 0 then (rc, pNum)
                     else if j > 0 then (2, limit)
                     else (if neg then rc else 3, limit)) =
         atoi64_value neg rc (dec ds)"
proof -
  have dig: "list_all sqlite3Isdigit ds"
    unfolding ds_def list_all_iff by (auto dest: set_takeWhileD)
  have small: "uint (of_nat (dec ds) :: u64) = int (dec ds)" if "length ds \<le> 19"
  proof -
    have "dec ds < 10 ^ length ds" using dig by (rule dec_less)
    also have "\<dots> \<le> 10 ^ 19" using that by (intro power_increasing) auto
    finally have "dec ds < 2 ^ 64" by simp
    then show ?thesis by (simp add: unsigned_of_nat take_bit_nat_eq_self)
  qed
  consider "length ds < 19" | "length ds = 19" | "19 < length ds" by linarith
  then show ?thesis
  proof cases
    case 1
    have "dec ds < 10 ^ length ds" using dig by (rule dec_less)
    also have "\<dots> \<le> 10 ^ 18" using 1 by (intro power_increasing) auto
    finally show ?thesis using 1 small by (simp add: atoi64_value_def LARGEST_INT64_def)
  next
    case 2
    have "at (pre @ suf) (length pre + j) = ds ! j" if "j < 19" for j
    proof -
      have "j < length suf" using that 2 length_takeWhile_le [of sqlite3Isdigit suf] by (simp add: ds_def)
      with that 2 show ?thesis by (simp add: at_suffix ds_def takeWhile_nth)
    qed
    with 2 dig have "sgn (compare2pow63 (pre @ suf) (length pre) 1) = sgn (int (dec ds) - 2 ^ 63)"
      by (intro compare2pow63_sgn)
    with 2 small show ?thesis
      by (auto simp: atoi64_value_def LARGEST_INT64_def sgn_if split: if_splits)
  next
    case 3
    then have "ds \<noteq> []" by auto
    moreover from this have "hd ds = hd suf" unfolding ds_def by (cases suf) (auto split: if_splits)
    moreover from \<open>ds \<noteq> []\<close> dig have "sqlite3Isdigit (hd ds)" by (cases ds) auto
    ultimately have "digit_of (hd ds) \<noteq> 0"
      using nz unat_digit [of "hd ds"] 3 by (auto simp: ds_def word_unat_eq_iff)
    with \<open>ds \<noteq> []\<close> have "10 ^ (length ds - 1) \<le> dec ds" by (rule dec_ge)
    moreover have "(10 :: nat) ^ 19 \<le> 10 ^ (length ds - 1)" using 3 by (intro power_increasing) auto
    ultimately show ?thesis using 3 by (simp add: atoi64_value_def)
  qed
qed

lemma atoi64_utf8: "sqlite3Atoi64 z (length z) SQLITE_UTF8 = atoi64_spec z"
proof -
  define r0 where "r0 = dropWhile sqlite3Isspace z"
  define sgnd where "sgnd = (at r0 0 = 0x2D \<or> at r0 0 = 0x2B)"
  define r1 where "r1 = (if sgnd then tl r0 else r0)"
  define r2 where "r2 = dropWhile (\<lambda>c. c = 0x30) r1"
  define p0 where "p0 = takeWhile sqlite3Isspace z"
  define p1 where "p1 = p0 @ (if sgnd then [at r0 0] else [])"
  define p2 where "p2 = p1 @ takeWhile (\<lambda>c. c = 0x30) r1"
  have z0: "z = p0 @ r0" by (simp add: p0_def r0_def)
  have z1: "z = p1 @ r1"
    unfolding z0 p1_def r1_def sgnd_def using at_0_nonzero [of r0] by auto
  have z2: "z = p2 @ r2" unfolding z1 p2_def r2_def by simp
  have pos0: "skip sqlite3Isspace z (length z) 1 0 = length p0"
    using skip_takeWhile [of sqlite3Isspace "[]" z] by (simp add: p0_def)
  have at0: "at z (length p0) = at r0 0" unfolding z0 using at_suffix [of p0 r0 0] by simp
  have in0: "length p0 < length z" if "at r0 0 \<noteq> 0" using at_nonzero_less [OF that] by (simp add: z0)
  have pos1: "(if length p0 < length z \<and> sgnd then length p0 + 1 else length p0) = length p1"
    using in0 by (auto simp: p1_def sgnd_def)
  have pos2: "skip (\<lambda>c. c = 0x30) z (length z) 1 (length p1) = length p2"
    using skip_takeWhile [of "\<lambda>c. c = 0x30" p1 r1] by (simp add: z1 p2_def)
  have digs: "atoi64_digits z (length z) 1 (length p2) 0 0 =
      (length (takeWhile sqlite3Isdigit r2), of_nat (dec (takeWhile sqlite3Isdigit r2)))"
    using digits_takeWhile [of p2 "[]" r2 0] by (simp add: z2 dec_def)
  define ds where "ds = takeWhile sqlite3Isdigit r2"
  define d where "d = dropWhile sqlite3Isdigit r2"
  have z3: "z = (p2 @ ds) @ d" unfolding z2 ds_def d_def by simp
  have len: "length z = length p2 + length ds + length d" by (simp add: z3)
  have sk: "skip sqlite3Isspace z (length z) 1 (length p2 + length ds) =
      length p2 + length ds + length (takeWhile sqlite3Isspace d)"
    using skip_takeWhile [of sqlite3Isspace "p2 @ ds" d] unfolding z3 [symmetric]
    by (simp only: len length_append)
  have "length d = length (takeWhile sqlite3Isspace d) + length (dropWhile sqlite3Isspace d)"
    by (metis length_append takeWhile_dropWhile_id)
  then have trail: "skip sqlite3Isspace z (length z) 1 (length p2 + length ds) < length z \<longleftrightarrow>
      dropWhile sqlite3Isspace d \<noteq> []"
    unfolding sk unfolding len length_greater_0_conv [symmetric] by linarith
  have start: "length p1 = length p2 \<longleftrightarrow> r2 = r1"
    unfolding p2_def r2_def by (auto simp: takeWhile_eq_Nil_iff dropWhile_eq_self_iff)
  have nz: "r2 = [] \<or> hd r2 \<noteq> 0x30"
    unfolding r2_def using hd_dropWhile [of "\<lambda>c. c = 0x30" r1] by blast
  have neg: "length p0 < length z \<and> at z (length p0) = 0x2D \<longleftrightarrow> at r0 0 = 0x2D"
    using in0 by (auto simp: at0)
  have sg: "length p0 < length z \<and> (at z (length p0) = 0x2D \<or> at z (length p0) = 0x2B) \<longleftrightarrow>
      length p0 < length z \<and> sgnd" by (simp add: at0 sgnd_def)
  define rc where "rc = (if ds = [] \<and> r2 = r1 then -1 else if dropWhile sqlite3Isspace d \<noteq> [] then 1 else (0 :: int))"
  have "sqlite3Atoi64 z (length z) SQLITE_UTF8 = atoi64_value (at r0 0 = 0x2D) rc (dec ds)"
    using atoi64_tail [OF nz, of "at r0 0 = 0x2D" rc p2]
    unfolding sqlite3Atoi64_def atoi64_setup_def Let_def prod.case if_True simp_thms pos0 neg sg pos1 pos2 digs
      ds_def [symmetric] d_def [symmetric] trail start length_0_conv if_False rc_def [symmetric]
      z2 [symmetric] .
  then show ?thesis
    by (simp add: atoi64_spec_def Let_def r0_def [symmetric] sgnd_def [symmetric] r1_def [symmetric]
        r2_def [symmetric] ds_def [symmetric] d_def [symmetric] rc_def)
qed

section \<open>Rendering and reading back\<close>

lemma nth_concat_pairs:
  "k < length xs \<Longrightarrow> concat (map (\<lambda>k. [f k, g k]) xs) ! (2 * k) = f (xs ! k)"
  "k < length xs \<Longrightarrow> concat (map (\<lambda>k. [f k, g k]) xs) ! (2 * k + 1) = g (xs ! k)"
proof (induction xs arbitrary: k)
  case (Cons x xs)
  { case 1 then show ?case using Cons(1) [of "k - 1"] by (cases k) auto next
    case 2 then show ?case using Cons(2) [of "k - 1"] by (cases k) auto }
qed auto

lemma upt_100: "[0..<100] = 0 # 1 # [2..<100]"
  using upt_conv_Cons [of 0 100] upt_conv_Cons [of 1 100] by (simp only: One_nat_def numeral_2_eq_2)

lemma digit_pairs:
  assumes "k < 100"
  shows "unat (sqlite3DigitPairs ! (k * 2)) = 48 + k div 10"
    "unat (sqlite3DigitPairs ! (k * 2 + 1)) = 48 + k mod 10"
proof -
  have t: "map unat sqlite3DigitPairs = concat (map (\<lambda>k. [48 + k div 10, 48 + k mod 10]) [0..<100])"
    unfolding upt_100 by (simp add: sqlite3DigitPairs_def bytes_of_def byte_of_def)
  have len: "length sqlite3DigitPairs = 200"
    by (simp add: sqlite3DigitPairs_def bytes_of_def)
  show "unat (sqlite3DigitPairs ! (k * 2)) = 48 + k div 10"
    using arg_cong [OF t, of "\<lambda>xs. xs ! (2 * k)"] assms len
      nth_concat_pairs(1) [of k "[0..<100]" "\<lambda>k. 48 + k div 10"]
    by (simp add: mult.commute del: upt_Suc)
  show "unat (sqlite3DigitPairs ! (k * 2 + 1)) = 48 + k mod 10"
    using arg_cong [OF t, of "\<lambda>xs. xs ! (2 * k + 1)"] assms len
      nth_concat_pairs(2) [of k "[0..<100]" "\<lambda>k. 48 + k div 10" "\<lambda>k. 48 + k mod 10"]
    by (simp add: mult.commute del: upt_Suc)
qed

lemma digitI: "unat b = 48 + n \<Longrightarrow> n < 10 \<Longrightarrow> sqlite3Isdigit b \<and> digit_of b = n"
  by (simp add: sqlite3Isdigit_iff digit_of_def word_le_nat_alt)

lemma unat_u8_digit: "x < 10 \<Longrightarrow> unat (ucast (x :: u64) + 0x30 :: u8) = 48 + unat x"
proof -
  assume "x < 10"
  then have x: "unat x < 10" by (simp add: word_less_nat_alt)
  then have "unat (ucast x :: u8) = unat x"
    by (simp add: unsigned_ucast_eq take_bit_nat_eq_self)
  with x show ?thesis by (simp add: unat_word_ariths)
qed

lemma int64ToText_loop_text:
  "x \<noteq> 0 \<Longrightarrow> \<exists>t. int64ToText_loop x a = t @ a \<and> list_all sqlite3Isdigit t \<and> dec t = unat x \<and>
     t \<noteq> [] \<and> hd t \<noteq> 0x30"
proof (induction x a rule: int64ToText_loop.induct)
  case (1 x a)
  show ?case
  proof (cases "x \<ge> 10")
    case False
    then have x: "x < 10" by simp
    then have d: "sqlite3Isdigit (ucast x + 0x30)" "digit_of (ucast x + 0x30) = unat x"
      using digitI [OF unat_u8_digit [OF x]] by (simp_all add: word_less_nat_alt)
    moreover have "ucast x + 0x30 \<noteq> (0x30 :: u8)"
      using unat_u8_digit [OF x] "1.prems" by (auto simp: unat_eq_0)
    moreover have "int64ToText_loop x a = [ucast x + 0x30] @ a"
      using False "1.prems" by (subst int64ToText_loop.simps) simp
    ultimately show ?thesis
      by (intro exI [of _ "[ucast x + 0x30]"]) (simp add: dec_Cons)
  next
    case True
    define k where "k = unat (x mod 100)"
    define p q where "p = sqlite3DigitPairs ! (k * 2)" and "q = sqlite3DigitPairs ! (k * 2 + 1)"
    have k: "k < 100" by (simp add: k_def unat_mod)
    have pq: "sqlite3Isdigit p" "digit_of p = k div 10" "sqlite3Isdigit q" "digit_of q = k mod 10"
      using digitI [OF digit_pairs(1) [OF k]] digitI [OF digit_pairs(2) [OF k]] k
      by (auto simp: p_def q_def)
    have x: "unat x = unat (x div 100) * 100 + k"
      by (simp add: k_def unat_mod unat_div)
    have unfold: "int64ToText_loop x a = int64ToText_loop (x div 100) (p # q # a)"
      using True by (subst int64ToText_loop.simps) (simp add: k_def p_def q_def Let_def)
    show ?thesis
    proof (cases "x div 100 = 0")
      case True
      then have "int64ToText_loop x a = [p, q] @ a"
        unfolding unfold by (subst int64ToText_loop.simps) simp
      moreover have "k div 10 \<noteq> 0"
        using x True \<open>x \<ge> 10\<close> by (auto simp: word_le_nat_alt div_eq_0_iff)
      ultimately show ?thesis
        using pq x True by (intro exI [of _ "[p, q]"]) (auto simp: dec_Cons digit_of_def)
    next
      case False
      from "1.IH" [OF True refl False] obtain t where
        "int64ToText_loop (x div 100) (p # q # a) = t @ p # q # a" "list_all sqlite3Isdigit t"
        "dec t = unat (x div 100)" "t \<noteq> []" "hd t \<noteq> 0x30"
        by (auto simp: k_def p_def q_def)
      with pq x show ?thesis
        by (intro exI [of _ "t @ [p, q]"]) (simp add: unfold dec_append dec_Cons)
    qed
  qed
qed

lemma not_space_digit: "sqlite3Isdigit b \<Longrightarrow> \<not> sqlite3Isspace b"
  by (auto simp: sqlite3Isdigit_iff sqlite3Isspace_iff word_le_nat_alt)

lemma not_sign_digit: "sqlite3Isdigit b \<Longrightarrow> b \<noteq> 0x2D \<and> b \<noteq> 0x2B"
  by (auto simp: sqlite3Isdigit_iff word_le_nat_alt)

text \<open>A plain number: digits without a leading zero, with an optional minus sign.\<close>

lemma atoi64_spec_plain:
  assumes "list_all sqlite3Isdigit t" "t \<noteq> []" "hd t \<noteq> 0x30"
  shows "atoi64_spec t = atoi64_value False 0 (dec t)" "atoi64_spec (0x2D # t) = atoi64_value True 0 (dec t)"
proof -
  have d: "sqlite3Isdigit (hd t)" using assms by (cases t) auto
  have all: "takeWhile sqlite3Isdigit t = t" "dropWhile sqlite3Isdigit t = []"
    using assms(1) by (auto simp: list_all_iff)
  have z: "dropWhile (\<lambda>c. c = 0x30) t = t" "dropWhile sqlite3Isspace t = t"
    using assms(2,3) d not_space_digit by (cases t; auto)+
  have "at t 0 = hd t" using assms(2) by (cases t) auto
  with not_sign_digit [OF d] assms(2) show "atoi64_spec t = atoi64_value False 0 (dec t)"
    by (simp add: atoi64_spec_def all z Let_def)
  have "\<not> sqlite3Isspace 0x2D" by (simp add: sqlite3Isspace_iff)
  with assms(2) show "atoi64_spec (0x2D # t) = atoi64_value True 0 (dec t)"
    by (simp add: atoi64_spec_def all z Let_def)
qed

lemma unat_u64_of_int: "0 \<le> v \<Longrightarrow> v < 2 ^ 64 \<Longrightarrow> unat (of_int v :: u64) = nat v"
  unfolding unat_eq_nat_uint uint_word_of_int_eq by (simp add: take_bit_eq_mod)

lemma atoi64_of_text:
  assumes "i64 v"
  shows "sqlite3Atoi64 (sqlite3Int64ToText v) (length (sqlite3Int64ToText v)) SQLITE_UTF8 = (0, v)"
proof -
  consider "v = 0" | "0 < v" | "v < 0" by linarith
  then show ?thesis
  proof cases
    case 1
    with atoi64_utf8 [of "[0x30]"] show ?thesis
      by (simp add: sqlite3Int64ToText_def atoi64_spec_def atoi64_value_def
          sqlite3Isspace_iff sqlite3Isdigit_iff)
  next
    case 2
    with assms have u: "unat (of_int v :: u64) = nat v" by (simp add: unat_u64_of_int i64_bounds)
    with 2 have "(of_int v :: u64) \<noteq> 0" by (auto simp: unat_eq_0 [symmetric] simp del: unat_eq_0)
    with 2 u obtain t where "sqlite3Int64ToText v = t" "list_all sqlite3Isdigit t" "dec t = nat v" "t \<noteq> []" "hd t \<noteq> 0x30"
      using int64ToText_loop_text [of "of_int v" "[]"] by (auto simp: sqlite3Int64ToText_def)
    with 2 assms show ?thesis
      by (simp add: atoi64_utf8 atoi64_spec_plain atoi64_value_def i64_bounds)
  next
    case 3
    define x where "x = (if v = SMALLEST_INT64 then push_bit 63 1 else of_int (- v) :: u64)"
    have "unat x = nat (- v)"
      using 3 assms unat_u64_of_int [of "- v"]
      by (auto simp: x_def i64_bounds SMALLEST_INT64_def LARGEST_INT64_def)
    moreover from this 3 have "x \<noteq> 0" by auto
    ultimately obtain t where "int64ToText_loop x [] = t" "list_all sqlite3Isdigit t" "dec t = nat (- v)" "t \<noteq> []" "hd t \<noteq> 0x30"
      using int64ToText_loop_text [of x "[]"] by auto
    moreover from this 3 have "sqlite3Int64ToText v = 0x2D # t"
      unfolding sqlite3Int64ToText_def x_def [symmetric] Let_def by simp
    ultimately show ?thesis
      using 3 assms atoi64_utf8 [of "0x2D # t"] atoi64_spec_plain(2) [of t]
      by (auto simp: atoi64_value_def i64_bounds SMALLEST_INT64_def LARGEST_INT64_def)
  qed
qed

section \<open>Unsigned 32-bit literals\<close>

lemma getUInt32_step:
  assumes "sqlite3Isdigit c" "n \<le> 4294967296"
  shows "of_nat n * 10 + ucast c - 0x30 = (of_nat (n * 10 + digit_of c) :: u64)"
    "(of_nat (n * 10 + digit_of c) :: u64) > 4294967296 \<longleftrightarrow> n * 10 + digit_of c > 4294967296"
proof -
  have "(ucast c :: u64) = of_nat (unat c)" by (rule of_nat_unat [symmetric])
  then show "of_nat n * 10 + ucast c - 0x30 = (of_nat (n * 10 + digit_of c) :: u64)"
    using unat_digit [OF assms(1)] by simp
  define N where "N = n * 10 + digit_of c"
  have "N < 2 ^ 64" using assms(2) digit_less [OF assms(1)] by (simp add: N_def)
  then have "unat (of_nat N :: u64) = N" by (intro unat_of_nat_small) simp
  then show "(of_nat (n * 10 + digit_of c) :: u64) > 4294967296 \<longleftrightarrow> n * 10 + digit_of c > 4294967296"
    unfolding N_def [symmetric] by (simp add: word_less_nat_alt)
qed

lemma getUInt32_loop_digits:
  assumes "list_all sqlite3Isdigit ds" "rest = [] \<or> \<not> sqlite3Isdigit (hd rest)" "n \<le> 4294967296"
  shows "getUInt32_loop (ds @ rest) i (of_nat n) =
     (let N = foldl (\<lambda>n b. n * 10 + digit_of b) n ds
      in if N \<le> 4294967296 then Some (i + length ds, of_nat N, rest) else None)"
  using assms
proof (induction ds arbitrary: i n)
  case Nil
  then show ?case by (subst getUInt32_loop.simps) (auto split: list.split)
next
  case (Cons c ds)
  show ?case
  proof (cases "n * 10 + digit_of c \<le> 4294967296")
    case True
    with Cons.prems Cons.IH [of "n * 10 + digit_of c" "i + 1"] show ?thesis
      by (subst getUInt32_loop.simps) (simp add: getUInt32_step Let_def del: of_nat_add of_nat_mult)
  next
    case False
    have "n * 10 + digit_of c \<le> foldl (\<lambda>n b. n * 10 + digit_of b) (n * 10 + digit_of c) ds"
      unfolding dec_acc by (simp add: trans_le_add1)
    with False Cons.prems show ?thesis
      by (subst getUInt32_loop.simps) (simp add: getUInt32_step del: of_nat_add of_nat_mult)
  qed
qed

text \<open>
  The routine accepts a nonempty sequence of digits up to the end of the text whose value is at
  most \<open>2 ^ 32\<close>, and stores the value modulo \<open>2 ^ 32\<close>.
\<close>

lemma getUInt32_eq:
  "sqlite3GetUInt32 z =
     (let ds = takeWhile sqlite3Isdigit z; rest = dropWhile sqlite3Isdigit z
      in if ds \<noteq> [] \<and> at rest 0 = 0 \<and> dec ds \<le> 2 ^ 32 then (True, of_nat (dec ds)) else (False, 0))"
proof -
  define ds rest where "ds = takeWhile sqlite3Isdigit z" and "rest = dropWhile sqlite3Isdigit z"
  have "list_all sqlite3Isdigit ds" "rest = [] \<or> \<not> sqlite3Isdigit (hd rest)"
    unfolding ds_def rest_def list_all_iff
    using hd_dropWhile [of sqlite3Isdigit z] by (blast dest: set_takeWhileD)+
  then have "getUInt32_loop (ds @ rest) 0 (of_nat 0) =
      (if dec ds \<le> 4294967296 then Some (length ds, of_nat (dec ds), rest) else None)"
    by (simp only: getUInt32_loop_digits) (simp add: dec_def)
  moreover have "ds @ rest = z" by (simp add: ds_def rest_def)
  ultimately have l: "getUInt32_loop z 0 0 =
      (if dec ds \<le> 4294967296 then Some (length ds, of_nat (dec ds), rest) else None)"
    by simp
  have "ucast (of_nat n :: u64) = (of_nat n :: u32)" if "n \<le> 4294967296" for n
    using that by (simp add: unsigned_of_nat take_bit_nat_eq_self)
  then show ?thesis
    unfolding sqlite3GetUInt32_def l Let_def ds_def [symmetric] rest_def [symmetric] by simp
qed

end
