(* ===== verification/Sqlite_Hash.thy ===== *)
theory Sqlite_Hash
  imports Sqlite_Chars "HOL-Library.Multiset"
begin

text \<open>
  The hash table of the bundled SQLite (\<^verbatim>\<open>hash.h\<close> and \<^verbatim>\<open>hash.c\<close> in \<^verbatim>\<open>sqlite3/sqlite3.c\<close>), which holds
  the tables, indexes, functions and collations of a connection by name. All elements are on one
  doubly-linked list; a bucket is a count and a pointer into that list. The table is shown to
  implement a map whose keys are compared without regard to case.

  The linked list is the list of its elements, each with its address; \<^verbatim>\<open>next\<close> and \<^verbatim>\<open>prev\<close> are the
  neighbours in the list. A chain pointer is the address of an element, or null; it may be left
  dangling by the code in an empty bucket. Null dereferences and reads through a dangling
  pointer give the result \<open>None\<close>.
\<close>

section \<open>Data\<close>

record 'd HashElem =
  he_addr :: nat
  he_data :: 'd
  he_pKey :: "u8 list"
  he_h :: u32

record ht_entry =
  ht_count :: u32
  ht_chain :: "nat option"

record 'd Hash =
  htsize :: u32
  h_count :: u32
  h_list :: "'d HashElem list"
  h_ht :: "ht_entry list option"

section \<open>Operations\<close>

definition sqlite3HashInit :: "'d Hash" where
  "sqlite3HashInit = \<lparr>htsize = 0, h_count = 0, h_list = [], h_ht = None\<rparr>"

definition sqlite3HashClear :: "'d Hash \<Rightarrow> 'd Hash" where
  "sqlite3HashClear pH = pH\<lparr>h_list := [], h_ht := None, htsize := 0, h_count := 0\<rparr>"

fun strHash_loop :: "u8 list \<Rightarrow> u32 \<Rightarrow> u32" where
  "strHash_loop [] h = h"
| "strHash_loop (c # z) h =
     (if c = 0 then h else strHash_loop z ((h + ucast (0xdf AND c)) * 0x9e3779b1))"

definition strHash :: "u8 list \<Rightarrow> u32" where
  "strHash z = strHash_loop z 0"

text \<open>Linking an element in front of the one at address \<open>a\<close>.\<close>

fun insert_before :: "nat \<Rightarrow> 'd HashElem \<Rightarrow> 'd HashElem list \<Rightarrow> 'd HashElem list" where
  "insert_before a new [] = [new]"
| "insert_before a new (e # es) =
     (if he_addr e = a then new # e # es else e # insert_before a new es)"

text \<open>\<open>pEntry\<close> is the index of the bucket, or null.\<close>

definition insertElement :: "'d Hash \<Rightarrow> nat option \<Rightarrow> 'd HashElem \<Rightarrow> 'd Hash" where
  "insertElement pH pEntry pNew =
     (case (pEntry, h_ht pH) of
        (Some i, Some ht) \<Rightarrow>
          (let e = ht ! i;
               pHead = (if ht_count e \<noteq> 0 then ht_chain e else None);
               e = e\<lparr>ht_count := ht_count e + 1, ht_chain := Some (he_addr pNew)\<rparr>;
               pH = pH\<lparr>h_ht := Some (ht[i := e])\<rparr>
           in case pHead of
                Some a \<Rightarrow> pH\<lparr>h_list := insert_before a pNew (h_list pH)\<rparr>
              | None \<Rightarrow> pH\<lparr>h_list := pNew # h_list pH\<rparr>)
      | _ \<Rightarrow> pH\<lparr>h_list := pNew # h_list pH\<rparr>)"

text \<open>
  Memory for a bucket array of \<open>n\<close> entries: \<open>alloc n\<close> is the number of entries that fit into what
  \<^verbatim>\<open>sqlite3Malloc\<close> returned (\<^verbatim>\<open>sqlite3MallocSize\<close>), \<open>None\<close> is a failed allocation. An entry
  has 16 bytes, the soft limit is 1024 bytes.
\<close>

definition bucket_of :: "u32 \<Rightarrow> u32 \<Rightarrow> nat" where
  "bucket_of h n = unat (h mod n)"

definition rehash :: "(u32 \<Rightarrow> u32 option) \<Rightarrow> u32 \<Rightarrow> 'd Hash \<Rightarrow> bool \<times> 'd Hash" where
  "rehash alloc new_size pH =
     (let new_size = (if unat new_size * 16 > 1024 then 1024 div 16 else new_size)
      in if new_size = htsize pH then (False, pH)
         else case alloc new_size of
                None \<Rightarrow> (False, pH)
              | Some n \<Rightarrow>
                  (True,
                   foldl (\<lambda>pH elem. insertElement pH (Some (bucket_of (he_h elem) n)) elem)
                     (pH\<lparr>h_ht := Some (replicate (unat n) \<lparr>ht_count = 0, ht_chain = None\<rparr>),
                         htsize := n, h_list := []\<rparr>)
                     (h_list pH)))"

text \<open>
  The search loop: \<open>n\<close> elements from the head of \<open>es\<close>. The inner result is the element found,
  \<open>None\<close> there the static null element.
\<close>

fun scan :: "u32 \<Rightarrow> u8 list \<Rightarrow> nat \<Rightarrow> 'd HashElem list \<Rightarrow> 'd HashElem option option" where
  "scan h pKey 0 es = Some None"
| "scan h pKey (Suc n) [] = None"
| "scan h pKey (Suc n) (e # es) =
     (if h = he_h e \<and> sqlite3StrICmp (he_pKey e) pKey = 0 then Some (Some e)
      else scan h pKey n es)"

definition from_addr :: "nat option \<Rightarrow> 'd HashElem list \<Rightarrow> 'd HashElem list" where
  "from_addr a es = (case a of None \<Rightarrow> [] | Some a \<Rightarrow> dropWhile (\<lambda>e. he_addr e \<noteq> a) es)"

definition findElementWithHash :: "'d Hash \<Rightarrow> u8 list \<Rightarrow> ('d HashElem option \<times> u32) option" where
  "findElementWithHash pH pKey =
     (let h = strHash pKey;
          (elem, n) =
            (case h_ht pH of
               Some ht \<Rightarrow>
                 (let pEntry = ht ! bucket_of h (htsize pH)
                  in (from_addr (ht_chain pEntry) (h_list pH), ht_count pEntry))
             | None \<Rightarrow> (h_list pH, h_count pH))
      in map_option (\<lambda>r. (r, h)) (scan h pKey (unat n) elem))"

text \<open>The address of the element behind the one at \<open>a\<close>.\<close>

definition next_addr :: "nat \<Rightarrow> 'd HashElem list \<Rightarrow> nat option" where
  "next_addr a es =
     (case dropWhile (\<lambda>e. he_addr e \<noteq> a) es of e # e' # _ \<Rightarrow> Some (he_addr e') | _ \<Rightarrow> None)"

definition removeElement :: "'d Hash \<Rightarrow> 'd HashElem \<Rightarrow> 'd Hash" where
  "removeElement pH elem =
     (let nxt = next_addr (he_addr elem) (h_list pH);
          pH' = pH\<lparr>h_list := filter (\<lambda>e. he_addr e \<noteq> he_addr elem) (h_list pH)\<rparr>;
          pH' = (case h_ht pH of
                   None \<Rightarrow> pH'
                 | Some ht \<Rightarrow>
                     (let i = bucket_of (he_h elem) (htsize pH);
                          e = ht ! i;
                          e = (if ht_chain e = Some (he_addr elem) then e\<lparr>ht_chain := nxt\<rparr> else e);
                          e = e\<lparr>ht_count := ht_count e - 1\<rparr>
                      in pH'\<lparr>h_ht := Some (ht[i := e])\<rparr>));
          pH' = pH'\<lparr>h_count := h_count pH - 1\<rparr>
      in if h_count pH' = 0 then sqlite3HashClear pH' else pH')"

definition sqlite3HashFind :: "'d Hash \<Rightarrow> u8 list \<Rightarrow> 'd option option" where
  "sqlite3HashFind pH pKey =
     map_option (\<lambda>(elem, h). map_option he_data elem) (findElementWithHash pH pKey)"

text \<open>
  Insertion. \<open>data = None\<close> is the null pointer, which removes the key; \<open>alloc_elem\<close> is the address
  of a new element, or a failed allocation. The result is the returned pointer and the table.
\<close>

definition set_elem :: "nat \<Rightarrow> 'd \<Rightarrow> u8 list \<Rightarrow> 'd HashElem list \<Rightarrow> 'd HashElem list" where
  "set_elem a d k es = map (\<lambda>e. if he_addr e = a then e\<lparr>he_data := d, he_pKey := k\<rparr> else e) es"

definition sqlite3HashInsert ::
  "(u32 \<Rightarrow> u32 option) \<Rightarrow> nat option \<Rightarrow> 'd Hash \<Rightarrow> u8 list \<Rightarrow> 'd option \<Rightarrow> ('d option \<times> 'd Hash) option"
where
  "sqlite3HashInsert alloc alloc_elem pH pKey data =
     (case findElementWithHash pH pKey of
        None \<Rightarrow> None
      | Some (Some elem, h) \<Rightarrow>
          (case data of
             None \<Rightarrow> Some (Some (he_data elem), removeElement pH elem)
           | Some d \<Rightarrow>
               Some (Some (he_data elem), pH\<lparr>h_list := set_elem (he_addr elem) d pKey (h_list pH)\<rparr>))
      | Some (None, h) \<Rightarrow>
          (case data of
             None \<Rightarrow> Some (None, pH)
           | Some d \<Rightarrow>
               (case alloc_elem of
                  None \<Rightarrow> Some (data, pH)
                | Some a \<Rightarrow>
                    (let new_elem = \<lparr>he_addr = a, he_data = d, he_pKey = pKey, he_h = h\<rparr>;
                         pH = pH\<lparr>h_count := h_count pH + 1\<rparr>;
                         pH = (if h_count pH \<ge> 5 \<and> h_count pH > 2 * htsize pH
                               then snd (rehash alloc (h_count pH * 3) pH) else pH)
                     in Some (None,
                          insertElement pH
                            (if h_ht pH \<noteq> None then Some (bucket_of h (htsize pH)) else None)
                            new_elem)))))"

section \<open>The hash function ignores case\<close>

lemma hash_mask_fold: "0xdf AND UpperToLower c = 0xdf AND c"
proof -
  have "\<forall>n < 256. (0xdf :: nat) AND fold_nat n = 0xdf AND n"
  proof -
    have "list_all (\<lambda>n. (0xdf :: nat) AND fold_nat n = 0xdf AND n) (0 # 1 # [2..<256])"
      by (simp add: fold_nat_def)
    then show ?thesis unfolding upt_256 [symmetric] by (simp add: list_all_iff)
  qed
  then have "(0xdf :: nat) AND fold_nat (unat c) = 0xdf AND unat c" using u8_lt by blast
  then have "(of_nat (0xdf AND fold_nat (unat c)) :: u8) = of_nat (0xdf AND unat c)" by simp
  moreover have "UpperToLower c = of_nat (fold_nat (unat c))"
    using u8_lt [of c] by (simp add: UpperToLower_def sqlite3UpperToLower_nth)
  ultimately show ?thesis by (simp add: of_nat_and_eq)
qed

lemma strHash_loop_folded: "strHash_loop (folded z) h = strHash_loop z h"
  by (induction z h rule: strHash_loop.induct)
     (auto simp: folded_def c_bytes_Cons hash_mask_fold)

lemma strHash_cong: "folded a = folded b \<Longrightarrow> strHash a = strHash b"
  by (metis strHash_def strHash_loop_folded)

section \<open>Contiguous groups\<close>

text \<open>Elements with the same \<open>f\<close>-value stand next to each other.\<close>

fun grouped :: "('a \<Rightarrow> 'b) \<Rightarrow> 'a list \<Rightarrow> bool" where
  "grouped f [] \<longleftrightarrow> True"
| "grouped f (x # xs) \<longleftrightarrow> (f x \<in> f ` set xs \<longrightarrow> f (hd xs) = f x) \<and> grouped f xs"

lemma grouped_prefix:
  "grouped f xs \<Longrightarrow> xs = [] \<or> f (hd xs) = i \<or> i \<notin> f ` set xs \<Longrightarrow>
     take (length (filter (\<lambda>x. f x = i) xs)) xs = filter (\<lambda>x. f x = i) xs"
proof (induction xs)
  case (Cons x xs)
  show ?case
  proof (cases "f x = i")
    case True
    then have "xs = [] \<or> f (hd xs) = i \<or> i \<notin> f ` set xs" using Cons.prems(1) by auto
    with Cons True show ?thesis by simp
  next
    case False
    with Cons.prems have "i \<notin> f ` set xs" by auto
    then have "filter (\<lambda>x. f x = i) xs = []" by (auto simp: filter_empty_conv)
    with False show ?thesis by simp
  qed
qed simp

lemma group_segment:
  assumes "grouped f xs" "distinct (map g xs)" "filter (\<lambda>x. f x = i) xs = s # ss"
  shows "take (Suc (length ss)) (dropWhile (\<lambda>x. g x \<noteq> g s) xs) = s # ss"
  using assms
proof (induction xs)
  case (Cons x xs)
  show ?case
  proof (cases "f x = i")
    case True
    with Cons.prems have s: "s = x" "ss = filter (\<lambda>x. f x = i) xs" by auto
    have "xs = [] \<or> f (hd xs) = i \<or> i \<notin> f ` set xs" using Cons.prems(1) True by auto
    then have "take (length ss) xs = ss" unfolding s using Cons.prems(1) by (intro grouped_prefix) auto
    with s(1) show ?thesis by simp
  next
    case False
    with Cons.prems have "filter (\<lambda>x. f x = i) xs = s # ss" by simp
    moreover from this have "s \<in> set xs" by (metis filter_is_subset list.set_intros(1) subsetD)
    ultimately show ?thesis using Cons by auto
  qed
qed simp

lemma hd_filter_grouped:
  "grouped f (x # xs) \<Longrightarrow> f x \<in> f ` set (filter P xs) \<Longrightarrow> f (hd (filter P xs)) = f x"
proof (induction xs)
  case (Cons y ys)
  have "f x \<in> f ` set (y # ys)" using Cons.prems(2) by (auto split: if_splits)
  with Cons.prems(1) have y: "f y = f x" by auto
  show ?case
  proof (cases "P y")
    case False
    from Cons.prems(1) y have "grouped f (x # ys)" by simp
    with False Cons.prems(2) show ?thesis by (simp add: Cons.IH)
  qed (simp add: y)
qed simp

lemma grouped_filter: "grouped f xs \<Longrightarrow> grouped f (filter P xs)"
proof (induction xs)
  case (Cons x xs)
  then show ?case using hd_filter_grouped [of f x xs P] by simp
qed simp

lemma insert_before_mset: "mset (insert_before a new es) = add_mset new (mset es)"
  by (induction es) auto

lemma insert_before_set: "set (insert_before a new es) = insert new (set es)"
  using arg_cong [OF insert_before_mset [of a new es], of set_mset] by simp

lemma insert_before_filter_other: "f new \<noteq> j \<Longrightarrow>
    filter (\<lambda>e. f e = j) (insert_before a new es) = filter (\<lambda>e. f e = j) es"
  by (induction es) auto

lemma insert_before_hd: "es \<noteq> [] \<Longrightarrow> he_addr (hd es) \<noteq> a \<Longrightarrow> hd (insert_before a new es) = hd es"
  by (cases es) auto

text \<open>Insertion in front of the first element \<open>s\<close> of the new element's group.\<close>

lemma insert_before_group:
  assumes "filter (\<lambda>e. f e = i) es = s # ss" "f new = i" "distinct (map he_addr es)" "grouped f es"
  shows "filter (\<lambda>e. f e = i) (insert_before (he_addr s) new es) = new # s # ss \<and>
    grouped f (insert_before (he_addr s) new es)"
  using assms
proof (induction es)
  case (Cons e es)
  have "s \<in> set (filter (\<lambda>e. f e = i) (e # es))" unfolding Cons.prems(1) by simp
  then have s: "s \<in> set (e # es)" "f s = i" by (auto split: if_splits)
  show ?case
  proof (cases "he_addr e = he_addr s")
    case True
    with s(1) Cons.prems(3) have "s = e" by (auto simp: image_iff)
    with Cons.prems s(2) show ?thesis by auto
  next
    case False
    with Cons.prems have e: "f e \<noteq> i" by auto
    have ih: "filter (\<lambda>e. f e = i) (insert_before (he_addr s) new es) = new # s # ss"
      "grouped f (insert_before (he_addr s) new es)"
      using Cons e by auto
    have "f (hd (insert_before (he_addr s) new es)) = f e" if "f e \<in> f ` set es"
    proof -
      from that Cons.prems(4) have hd: "es \<noteq> []" "f (hd es) = f e" by auto
      moreover have "he_addr (hd es) \<noteq> he_addr s"
      proof
        assume "he_addr (hd es) = he_addr s"
        with False s(1) hd(1) Cons.prems(3) have "hd es = s"
          by (auto simp: distinct_map dest: inj_onD)
        with hd(2) s(2) e show False by simp
      qed
      ultimately show ?thesis by (simp add: insert_before_hd)
    qed
    with ih e False Cons.prems(2) show ?thesis by (auto simp: insert_before_set)
  qed
qed simp

section \<open>Invariant\<close>

definition entry_ok :: "ht_entry \<Rightarrow> 'd HashElem list \<Rightarrow> bool" where
  "entry_ok b es \<longleftrightarrow> unat (ht_count b) = length es \<and> (es \<noteq> [] \<longrightarrow> ht_chain b = Some (he_addr (hd es)))"

definition buckets_ok :: "u32 \<Rightarrow> ht_entry list \<Rightarrow> 'd HashElem list \<Rightarrow> bool" where
  "buckets_ok n ht es \<longleftrightarrow>
     0 < n \<and> length ht = unat n \<and> grouped (\<lambda>e. bucket_of (he_h e) n) es \<and>
     (\<forall>i < unat n. entry_ok (ht ! i) (filter (\<lambda>e. bucket_of (he_h e) n = i) es))"

definition linked :: "'d Hash \<Rightarrow> bool" where
  "linked pH \<longleftrightarrow> distinct (map he_addr (h_list pH)) \<and>
     (case h_ht pH of None \<Rightarrow> htsize pH = 0 | Some ht \<Rightarrow> buckets_ok (htsize pH) ht (h_list pH))"

definition hash_inv :: "'d Hash \<Rightarrow> bool" where
  "hash_inv pH \<longleftrightarrow> linked pH \<and> unat (h_count pH) = length (h_list pH) \<and>
     distinct (map (\<lambda>e. folded (he_pKey e)) (h_list pH)) \<and>
     (\<forall>e \<in> set (h_list pH). he_h e = strHash (he_pKey e))"

text \<open>The map a table stands for, from case-folded names to data.\<close>

definition hash_abs :: "'d Hash \<Rightarrow> u8 list \<rightharpoonup> 'd" where
  "hash_abs pH = map_of (map (\<lambda>e. (folded (he_pKey e), he_data e)) (h_list pH))"

lemma bucket_of_less: "0 < n \<Longrightarrow> bucket_of h n < unat n"
  by (simp add: bucket_of_def unat_mod word_less_nat_alt)

lemma unat_inc: "unat (c :: u32) = k \<Longrightarrow> Suc k < 2 ^ 32 \<Longrightarrow> unat (c + 1) = Suc k"
  by (simp add: unat_word_ariths)

lemma entry_ok_empty [simp]: "entry_ok \<lparr>ht_count = 0, ht_chain = None\<rparr> []"
  by (simp add: entry_ok_def)

definition home :: "'d Hash \<Rightarrow> u32 \<Rightarrow> nat option" where
  "home pH h = (if h_ht pH \<noteq> None then Some (bucket_of h (htsize pH)) else None)"

lemma insertElement_buckets:
  assumes ok: "buckets_ok n ht es" and d: "distinct (map he_addr es)" and sz: "Suc (length es) < 2 ^ 32"
    and i: "i = bucket_of (he_h new) n"
  shows "\<exists>es' b. insertElement (pH\<lparr>h_ht := Some ht, h_list := es\<rparr>) (Some i) new =
      pH\<lparr>h_ht := Some (ht[i := b]), h_list := es'\<rparr> \<and> mset es' = add_mset new (mset es) \<and>
      buckets_ok n (ht[i := b]) es'"
proof -
  let ?f = "\<lambda>e. bucket_of (he_h e) n"
  define S where "S = filter (\<lambda>e. ?f e = i) es"
  define b where "b = (ht ! i)\<lparr>ht_count := ht_count (ht ! i) + 1, ht_chain := Some (he_addr new)\<rparr>"
  define es' where "es' = (if S = [] then new # es else insert_before (he_addr (hd S)) new es)"
  from ok have n: "0 < n" "length ht = unat n" and g: "grouped ?f es"
    and e: "\<And>j. j < unat n \<Longrightarrow> entry_ok (ht ! j) (filter (\<lambda>e. ?f e = j) es)"
    by (auto simp: buckets_ok_def)
  have i': "i < unat n" unfolding i using n(1) by (rule bucket_of_less)
  have eS: "entry_ok (ht ! i) S" unfolding S_def by (rule e) (rule i')
  have fn: "?f new = i" by (simp add: i)
  have fi: "filter (\<lambda>e. ?f e = i) es' = new # S \<and> grouped ?f es'"
  proof (cases S)
    case Nil
    then have "\<forall>e \<in> set es. ?f e \<noteq> i" by (simp add: S_def filter_empty_conv)
    with Nil g fn show ?thesis by (auto simp: es'_def S_def)
  next
    case (Cons s ss)
    then have "filter (\<lambda>e. ?f e = i) es = s # ss" by (simp add: S_def)
    from insert_before_group [of ?f, OF this fn d g] Cons show ?thesis by (simp add: es'_def)
  qed
  have fj: "filter (\<lambda>e. ?f e = j) es' = filter (\<lambda>e. ?f e = j) es" if "j \<noteq> i" for j
    using that fn by (simp add: es'_def insert_before_filter_other)
  have m: "mset es' = add_mset new (mset es)" by (simp add: es'_def insert_before_mset)
  have "length S \<le> length es" by (simp add: S_def)
  with sz eS have b': "entry_ok b (new # S)" by (simp add: entry_ok_def b_def unat_inc)
  have "insertElement (pH\<lparr>h_ht := Some ht, h_list := es\<rparr>) (Some i) new =
      pH\<lparr>h_ht := Some (ht[i := b]), h_list := es'\<rparr>"
  proof (cases S)
    case Nil
    with eS have "ht_count (ht ! i) = 0" by (simp add: entry_ok_def unat_eq_0)
    with Nil show ?thesis by (simp add: insertElement_def b_def es'_def Let_def)
  next
    case (Cons s ss)
    with eS have "ht_count (ht ! i) \<noteq> 0" "ht_chain (ht ! i) = Some (he_addr s)"
      by (auto simp: entry_ok_def)
    with Cons show ?thesis by (simp add: insertElement_def b_def es'_def Let_def)
  qed
  moreover have "buckets_ok n (ht[i := b]) es'"
    unfolding buckets_ok_def
  proof (intro conjI allI impI)
    fix j
    assume "j < unat n"
    with e [of j] fi fj [of j] b' n(2) show "entry_ok (ht[i := b] ! j) (filter (\<lambda>e. ?f e = j) es')"
      by (cases "j = i") simp_all
  qed (use n fi in simp_all)
  ultimately show ?thesis using m by blast
qed

lemma insertElement_linked:
  assumes "linked pH" "he_addr new \<notin> he_addr ` set (h_list pH)" "Suc (length (h_list pH)) < 2 ^ 32"
  defines "pH' \<equiv> insertElement pH (home pH (he_h new)) new"
  shows "linked pH' \<and> mset (h_list pH') = add_mset new (mset (h_list pH)) \<and>
    htsize pH' = htsize pH \<and> h_count pH' = h_count pH"
proof -
  have d: "distinct (map he_addr es')" if "mset es' = add_mset new (mset (h_list pH))" for es'
  proof -
    from that have "mset (map he_addr es') = mset (map he_addr (new # h_list pH))" by simp
    from mset_eq_imp_distinct_iff [OF this] assms(1,2) show ?thesis by (simp add: linked_def)
  qed
  show ?thesis
  proof (cases "h_ht pH")
    case None
    with assms(1) show ?thesis
      using d [of "new # h_list pH"] by (simp add: pH'_def insertElement_def home_def linked_def)
  next
    case (Some ht)
    with assms(1) have ok: "buckets_ok (htsize pH) ht (h_list pH)" "distinct (map he_addr (h_list pH))"
      by (simp_all add: linked_def)
    from Some have same: "pH\<lparr>h_ht := Some ht, h_list := h_list pH\<rparr> = pH" by simp
    from insertElement_buckets [OF ok assms(3) refl, of pH new] d Some show ?thesis
      unfolding same by (auto simp: pH'_def home_def linked_def)
  qed
qed

text \<open>Moving all elements into a new bucket array.\<close>

lemma reinsert_linked:
  assumes "linked pH" "h_ht pH \<noteq> None" "htsize pH = n" "length (h_list pH) + length es < 2 ^ 32"
    "distinct (map he_addr (h_list pH) @ map he_addr es)"
  defines "pH' \<equiv> foldl (\<lambda>pH elem. insertElement pH (Some (bucket_of (he_h elem) n)) elem) pH es"
  shows "linked pH' \<and> h_ht pH' \<noteq> None \<and> mset (h_list pH') = mset (h_list pH) + mset es \<and>
    htsize pH' = n \<and> h_count pH' = h_count pH"
  using assms(1-5) unfolding pH'_def
proof (induction es arbitrary: pH)
  case (Cons e es)
  define pH1 where "pH1 = insertElement pH (Some (bucket_of (he_h e) n)) e"
  have h: "home pH (he_h e) = Some (bucket_of (he_h e) n)"
    using Cons.prems(2,3) by (simp add: home_def)
  have l: "linked pH1" "mset (h_list pH1) = add_mset e (mset (h_list pH))"
    "htsize pH1 = n" "h_count pH1 = h_count pH"
    using insertElement_linked [OF Cons.prems(1), of e] Cons.prems by (simp_all add: pH1_def h)
  have ht: "h_ht pH1 \<noteq> None"
    using l(1,3) Cons.prems(1-3) by (auto simp: linked_def buckets_ok_def split: option.splits)
  have len: "length (h_list pH1) = Suc (length (h_list pH))"
    using arg_cong [OF l(2), of size] by simp
  have m: "mset (map he_addr (h_list pH1)) = mset (map he_addr (e # h_list pH))" using l(2) by simp
  have "distinct (map he_addr (h_list pH1) @ map he_addr es)"
    using Cons.prems(5) mset_eq_imp_distinct_iff [OF m] mset_eq_setD [OF m] by auto
  with Cons.IH [OF l(1) ht l(3)] len Cons.prems(4) l(2,4) show ?case
    by (simp add: pH1_def [symmetric])
qed simp

lemma empty_buckets:
  "0 < n \<Longrightarrow> buckets_ok n (replicate (unat n) \<lparr>ht_count = 0, ht_chain = None\<rparr>) []"
  by (simp add: buckets_ok_def)

text \<open>
  What the allocator promises: a bucket array has at least the requested number of entries.
\<close>

definition alloc_law :: "(u32 \<Rightarrow> u32 option) \<Rightarrow> bool" where
  "alloc_law alloc \<longleftrightarrow> (\<forall>n m. alloc n = Some m \<longrightarrow> n \<le> m)"

lemma rehash_linked:
  assumes "linked pH" "alloc_law alloc" "0 < new_size" "length (h_list pH) < 2 ^ 32"
  defines "pH' \<equiv> snd (rehash alloc new_size pH)"
  shows "linked pH' \<and> mset (h_list pH') = mset (h_list pH) \<and> h_count pH' = h_count pH"
proof -
  define k where "k = (if unat new_size * 16 > 1024 then 1024 div 16 else new_size)"
  have k: "0 < k" using assms(3) by (simp add: k_def)
  show ?thesis
  proof (cases "k = htsize pH \<or> alloc k = None")
    case True
    then have "pH' = pH" unfolding pH'_def rehash_def Let_def k_def [symmetric] by auto
    with assms(1) show ?thesis by simp
  next
    case False
    then obtain n where n: "alloc k = Some n" by auto
    with assms(2) have "k \<le> n" by (simp add: alloc_law_def)
    with k have "0 < n" by simp
    define q where "q = pH\<lparr>h_ht := Some (replicate (unat n) \<lparr>ht_count = 0, ht_chain = None\<rparr>),
        htsize := n, h_list := []\<rparr>"
    have "linked q" using \<open>0 < n\<close> by (simp add: q_def linked_def empty_buckets)
    moreover have "pH' = foldl (\<lambda>pH elem. insertElement pH (Some (bucket_of (he_h elem) n)) elem) q (h_list pH)"
      using False n unfolding pH'_def rehash_def Let_def k_def [symmetric] q_def by simp
    ultimately show ?thesis
      using reinsert_linked [of q n "h_list pH"] assms(1,4) by (simp add: q_def linked_def)
  qed
qed

section \<open>Search\<close>

definition matches :: "u8 list \<Rightarrow> 'd HashElem \<Rightarrow> bool" where
  "matches k e \<longleftrightarrow> folded (he_pKey e) = folded k"

lemma scan_find:
  assumes "\<forall>e \<in> set es. he_h e = strHash (he_pKey e)" "n \<le> length es"
  shows "scan (strHash k) k n es = Some (find (matches k) (take n es))"
  using assms
proof (induction n arbitrary: es)
  case (Suc n)
  then obtain e es' where "es = e # es'" by (cases es) auto
  with Suc show ?case
    by (auto simp: matches_def sqlite3StrICmp_eq_0 dest: strHash_cong)
qed simp

text \<open>The elements the search visits hold every match of the whole list.\<close>

lemma find_filter:
  "(\<And>x. x \<in> set xs \<Longrightarrow> P x \<Longrightarrow> Q x) \<Longrightarrow> find P (filter Q xs) = find P xs"
  by (induction xs) auto

lemma findElementWithHash_eq:
  assumes "hash_inv pH"
  shows "findElementWithHash pH k = Some (find (matches k) (h_list pH), strHash k)"
proof (cases "h_ht pH")
  case None
  with assms scan_find [of "h_list pH" "unat (h_count pH)" k] show ?thesis
    by (simp add: findElementWithHash_def hash_inv_def)
next
  case (Some ht)
  let ?n = "htsize pH" and ?es = "h_list pH"
  define i where "i = bucket_of (strHash k) ?n"
  define S where "S = filter (\<lambda>e. bucket_of (he_h e) ?n = i) ?es"
  from assms Some have ok: "buckets_ok ?n ht ?es" "distinct (map he_addr ?es)"
    and h: "\<forall>e \<in> set ?es. he_h e = strHash (he_pKey e)"
    by (simp_all add: hash_inv_def linked_def)
  then have "i < unat ?n" unfolding i_def by (intro bucket_of_less) (simp add: buckets_ok_def)
  with ok(1) have b: "entry_ok (ht ! i) S" by (simp add: buckets_ok_def S_def)
  have seg: "take (length S) (from_addr (ht_chain (ht ! i)) ?es) = S"
  proof (cases S)
    case (Cons s ss)
    with ok b show ?thesis
      using group_segment [of "\<lambda>e. bucket_of (he_h e) ?n" ?es he_addr i s ss]
      by (simp add: buckets_ok_def S_def entry_ok_def from_addr_def)
  qed simp
  then have len: "length S \<le> length (from_addr (ht_chain (ht ! i)) ?es)"
    by (metis length_take min.cobounded1)
  have sub: "set (from_addr a ?es) \<subseteq> set ?es" for a
    by (auto simp: from_addr_def split: option.splits dest: set_dropWhileD)
  have "find (matches k) S = find (matches k) ?es"
    unfolding S_def using h by (intro find_filter) (auto simp: matches_def i_def dest!: strHash_cong)
  moreover have "scan (strHash k) k (length S) (from_addr (ht_chain (ht ! i)) ?es) =
      Some (find (matches k) S)"
    using scan_find [OF _ len, of k] h sub seg by auto
  ultimately show ?thesis
    using b Some by (simp add: findElementWithHash_def i_def [symmetric] entry_ok_def Let_def)
qed

lemma find_Some_iff_distinct:
  assumes "distinct (map (\<lambda>e. folded (he_pKey e)) es)"
  shows "find (matches k) es = Some e \<longleftrightarrow> e \<in> set es \<and> folded (he_pKey e) = folded k"
  using assms by (induction es) (auto simp: matches_def image_iff)

lemma hash_abs_find: "hash_abs pH (folded k) = map_option he_data (find (matches k) (h_list pH))"
proof -
  have "map_of (map (\<lambda>e. (folded (he_pKey e), he_data e)) es) (folded k) =
      map_option he_data (find (matches k) es)" for es :: "'a HashElem list"
    by (induction es) (auto simp: matches_def)
  then show ?thesis by (simp add: hash_abs_def)
qed

lemma hashFind_abs: "hash_inv pH \<Longrightarrow> sqlite3HashFind pH k = Some (hash_abs pH (folded k))"
  by (simp add: sqlite3HashFind_def findElementWithHash_eq hash_abs_find)

section \<open>Removal\<close>

lemma unat_dec: "unat (c :: u32) = Suc k \<Longrightarrow> unat (c - 1) = k"
  by (metis diff_Suc_1 unat_minus_one unat_0 nat.distinct(1))

lemma filter_addr_remove:
  assumes "distinct (map he_addr es)" "e \<in> set es"
  shows "length es = Suc (length (filter (\<lambda>x. he_addr x \<noteq> he_addr e) es))"
  using assms
proof (induction es)
  case (Cons x es)
  show ?case
  proof (cases "x = e")
    case True
    with Cons.prems have "filter (\<lambda>y. he_addr y \<noteq> he_addr e) es = es" by (auto simp: filter_id_conv image_iff)
    with True show ?thesis by simp
  next
    case False
    with Cons show ?thesis by (auto simp: image_iff)
  qed
qed simp

lemma remove_bucket:
  assumes ok: "buckets_ok n ht es" and d: "distinct (map he_addr es)" and mem: "elem \<in> set es"
    and i: "i = bucket_of (he_h elem) n"
  defines "b \<equiv> (if ht_chain (ht ! i) = Some (he_addr elem)
      then (ht ! i)\<lparr>ht_chain := next_addr (he_addr elem) es\<rparr> else ht ! i)"
  shows "buckets_ok n (ht[i := b\<lparr>ht_count := ht_count b - 1\<rparr>])
    (filter (\<lambda>e. he_addr e \<noteq> he_addr elem) es)"
proof -
  let ?f = "\<lambda>e. bucket_of (he_h e) n" and ?P = "\<lambda>e. he_addr e \<noteq> he_addr elem"
  define S where "S = filter (\<lambda>e. ?f e = i) es"
  from ok have n: "0 < n" "length ht = unat n" and g: "grouped ?f es"
    and e: "\<And>j. j < unat n \<Longrightarrow> entry_ok (ht ! j) (filter (\<lambda>e. ?f e = j) es)"
    by (auto simp: buckets_ok_def)
  have i': "i < unat n" unfolding i using n(1) by (rule bucket_of_less)
  have eS: "entry_ok (ht ! i) S" unfolding S_def by (rule e) (rule i')
  have S: "elem \<in> set S" "distinct (map he_addr S)"
    using mem d by (auto simp: S_def i distinct_map_filter)
  have cb: "ht_count b = ht_count (ht ! i)" by (simp add: b_def)
  have len: "length S = Suc (length (filter ?P S))" using filter_addr_remove [OF S(2,1)] .
  have hd': "ht_chain b = Some (he_addr (hd (filter ?P S)))" if ne: "filter ?P S \<noteq> []"
  proof -
    from S(1) obtain s ss where s: "S = s # ss" by (cases S) auto
    have ch: "ht_chain (ht ! i) = Some (he_addr s)" using eS s by (simp add: entry_ok_def)
    show ?thesis
    proof (cases "s = elem")
      case False
      with S s have "he_addr s \<noteq> he_addr elem" by (auto simp: image_iff)
      with ch s show ?thesis by (simp add: b_def)
    next
      case True
      with S(2) s have f: "filter ?P S = ss" by (auto simp: filter_id_conv image_iff)
      with ne obtain t ts where t: "ss = t # ts" by (cases ss) auto
      have "take (Suc (length ss)) (dropWhile (\<lambda>x. he_addr x \<noteq> he_addr s) es) = s # ss"
        using s by (intro group_segment [OF g d, of i]) (simp add: S_def)
      then have "dropWhile (\<lambda>x. he_addr x \<noteq> he_addr s) es = (s # ss) @ drop (Suc (length ss))
          (dropWhile (\<lambda>x. he_addr x \<noteq> he_addr s) es)"
        by (metis append_take_drop_id)
      then obtain r where r: "dropWhile (\<lambda>x. he_addr x \<noteq> he_addr s) es = s # t # r"
        unfolding t by (metis append_Cons)
      have "next_addr (he_addr s) es = Some (he_addr t)" unfolding next_addr_def r by simp
      with True ch f t show ?thesis by (simp add: b_def)
    qed
  qed
  have fi: "filter (\<lambda>e. ?f e = i) (filter ?P es) = filter ?P S"
    unfolding S_def by (simp add: conj_commute)
  have fj: "filter (\<lambda>e. ?f e = j) (filter ?P es) = filter (\<lambda>e. ?f e = j) es" if "j \<noteq> i" for j
  proof -
    have "?P e" if "e \<in> set es" "?f e = j" for e
      using that \<open>j \<noteq> i\<close> d mem i by (auto simp: distinct_map dest: inj_onD)
    then show ?thesis by (auto intro: filter_cong)
  qed
  have bi: "entry_ok (b\<lparr>ht_count := ht_count b - 1\<rparr>) (filter ?P S)"
    using eS len hd' by (simp add: entry_ok_def cb unat_dec)
  show ?thesis
    unfolding buckets_ok_def
  proof (intro conjI allI impI)
    fix j
    assume "j < unat n"
    with e [of j] fi fj [of j] bi n(2)
    show "entry_ok (ht[i := b\<lparr>ht_count := ht_count b - 1\<rparr>] ! j) (filter (\<lambda>e. ?f e = j) (filter ?P es))"
      by (cases "j = i") simp_all
  qed (use n g in \<open>simp_all add: grouped_filter\<close>)
qed

lemma removeElement_inv:
  assumes inv: "hash_inv pH" and mem: "elem \<in> set (h_list pH)"
  shows "hash_inv (removeElement pH elem) \<and>
    h_list (removeElement pH elem) = filter (\<lambda>e. he_addr e \<noteq> he_addr elem) (h_list pH)"
proof -
  define es where "es = filter (\<lambda>e. he_addr e \<noteq> he_addr elem) (h_list pH)"
  from inv have d: "distinct (map he_addr (h_list pH))" by (simp add: hash_inv_def linked_def)
  have len: "length (h_list pH) = Suc (length es)"
    unfolding es_def using filter_addr_remove [OF d mem] .
  with inv have c: "unat (h_count pH - 1) = length es" by (simp add: hash_inv_def unat_dec)
  have keys: "distinct (map (\<lambda>e. folded (he_pKey e)) es)" "\<forall>e \<in> set es. he_h e = strHash (he_pKey e)"
    "distinct (map he_addr es)"
    using inv d by (auto simp: es_def hash_inv_def distinct_map_filter)
  show ?thesis
  proof (cases "h_count pH = 1")
    case True
    with c have "es = []" by simp
    with True show ?thesis
      by (auto simp: removeElement_def sqlite3HashClear_def hash_inv_def linked_def Let_def es_def
          split: option.split)
  next
    case False
    then have nz: "h_count pH - 1 \<noteq> 0" by simp
    show ?thesis
    proof (cases "h_ht pH")
      case None
      with nz inv keys c show ?thesis
        by (simp add: removeElement_def hash_inv_def linked_def Let_def es_def)
    next
      case (Some ht)
      with inv have "buckets_ok (htsize pH) ht (h_list pH)" by (simp add: hash_inv_def linked_def)
      from remove_bucket [OF this d mem refl] Some nz keys c show ?thesis
        by (simp add: removeElement_def hash_inv_def linked_def Let_def es_def)
    qed
  qed
qed

section \<open>Insertion\<close>

text \<open>
  The abstraction of a table only depends on the set of its elements, as their keys are distinct.
\<close>

abbreviation entries :: "'d HashElem set \<Rightarrow> (u8 list \<times> 'd) set" where
  "entries E \<equiv> (\<lambda>e. (folded (he_pKey e), he_data e)) ` E"

lemma hash_abs_iff:
  "hash_inv pH \<Longrightarrow> hash_abs pH k = Some d \<longleftrightarrow> (k, d) \<in> entries (set (h_list pH))"
  by (simp add: hash_abs_def hash_inv_def map_of_eq_Some_iff comp_def)

lemma option_eqI: "(\<And>d. x = Some d \<longleftrightarrow> y = Some d) \<Longrightarrow> x = y"
  by (cases x; cases y) auto

lemma hash_abs_eqI:
  assumes "hash_inv pH" "\<And>k d. m k = Some d \<longleftrightarrow> (k, d) \<in> entries (set (h_list pH))"
  shows "hash_abs pH = m"
  by (rule ext, rule option_eqI) (simp only: assms(2) hash_abs_iff [OF assms(1)])

text \<open>Changing data and key of elements in place keeps the links.\<close>

lemma grouped_map: "(\<And>x. f (g x) = f x) \<Longrightarrow> grouped f (map g xs) \<longleftrightarrow> grouped f xs"
proof (induction xs)
  case (Cons x xs)
  then show ?case by (cases xs) (auto simp: image_image)
qed simp

lemma linked_map:
  assumes "linked pH" "\<And>e. he_addr (g e) = he_addr e" "\<And>e. he_h (g e) = he_h e"
  shows "linked (pH\<lparr>h_list := map g (h_list pH)\<rparr>)"
proof -
  have f: "filter (\<lambda>e. bucket_of (he_h e) n = i) (map g es) = map g (filter (\<lambda>e. bucket_of (he_h e) n = i) es)"
    for n i es by (simp add: filter_map comp_def assms(3))
  have "entry_ok b (map g es) \<longleftrightarrow> entry_ok b es" for b es
    by (cases es) (simp_all add: entry_ok_def assms(2))
  moreover have "he_addr \<circ> g = he_addr" by (rule ext) (simp add: assms(2))
  ultimately show ?thesis
    using assms(1) by (auto simp: linked_def buckets_ok_def f grouped_map assms(3) split: option.splits)
qed

lemma set_elem_inv:
  assumes inv: "hash_inv pH" and e: "find (matches k) (h_list pH) = Some elem"
  shows "hash_inv (pH\<lparr>h_list := set_elem (he_addr elem) d k (h_list pH)\<rparr>) \<and>
    hash_abs (pH\<lparr>h_list := set_elem (he_addr elem) d k (h_list pH)\<rparr>) = (hash_abs pH)(folded k \<mapsto> d)"
proof -
  define g where "g = (\<lambda>e :: 'a HashElem. if he_addr e = he_addr elem then e\<lparr>he_data := d, he_pKey := k\<rparr> else e)"
  define pH' where "pH' = pH\<lparr>h_list := map g (h_list pH)\<rparr>"
  from inv have l: "linked pH" and di: "distinct (map he_addr (h_list pH))"
    and dk: "distinct (map (\<lambda>e. folded (he_pKey e)) (h_list pH))"
    by (simp_all add: hash_inv_def linked_def)
  with e have elem: "elem \<in> set (h_list pH)" "folded (he_pKey elem) = folded k"
    by (simp_all add: find_Some_iff_distinct)
  have same: "e = elem" if "e \<in> set (h_list pH)" "he_addr e = he_addr elem" for e
    using that elem(1) di by (auto simp: distinct_map dest: inj_onD)
  have fk: "folded (he_pKey (g e)) = folded (he_pKey e)" if "e \<in> set (h_list pH)" for e
    using same [OF that] elem(2) by (auto simp: g_def)
  have "linked pH'" unfolding pH'_def by (rule linked_map [OF l]) (simp_all add: g_def)
  moreover have "map (\<lambda>e. folded (he_pKey e)) (map g (h_list pH)) = map (\<lambda>e. folded (he_pKey e)) (h_list pH)"
    using fk by simp
  moreover have "he_h (g e) = strHash (he_pKey (g e))" if "e \<in> set (h_list pH)" for e
    using inv that same [OF that] elem(2) by (auto simp: hash_inv_def g_def dest: strHash_cong)
  ultimately have inv': "hash_inv pH'"
    using inv dk unfolding pH'_def hash_inv_def by (auto simp del: map_map)
  have "hash_abs pH' = (hash_abs pH)(folded k \<mapsto> d)"
  proof (rule hash_abs_eqI [OF inv'])
    fix q x
    have uniq: "y = elem" if "y \<in> set (h_list pH)" "folded (he_pKey y) = folded k" for y
      using that find_Some_iff_distinct [OF dk, of k y] e by simp
    have pair: "(folded (he_pKey (g y)), he_data (g y)) =
        (if y = elem then (folded k, d) else (folded (he_pKey y), he_data y))" if "y \<in> set (h_list pH)" for y
      using same [OF that] by (auto simp: g_def)
    have "entries (set (h_list pH')) =
        (\<lambda>y. if y = elem then (folded k, d) else (folded (he_pKey y), he_data y)) ` set (h_list pH)"
      unfolding pH'_def by (simp add: image_image pair cong: image_cong)
    then have "(q, x) \<in> entries (set (h_list pH')) \<longleftrightarrow>
        (\<exists>y \<in> set (h_list pH). (q, x) = (if y = elem then (folded k, d) else (folded (he_pKey y), he_data y)))"
      by (simp only: image_iff)
    also have "\<dots> \<longleftrightarrow> (if q = folded k then x = d else (q, x) \<in> entries (set (h_list pH)))"
    proof (cases "q = folded k")
      case True
      then show ?thesis using elem(1) uniq by (auto split: if_splits)
    next
      case False
      then show ?thesis using elem(2) by (auto split: if_splits)
    qed
    finally have "(q, x) \<in> entries (set (h_list pH')) \<longleftrightarrow>
        (if q = folded k then x = d else (q, x) \<in> entries (set (h_list pH)))" .
    then show "((hash_abs pH)(folded k \<mapsto> d)) q = Some x \<longleftrightarrow> (q, x) \<in> entries (set (h_list pH'))"
      by (auto simp: hash_abs_iff [OF inv])
  qed
  with inv' show ?thesis by (simp add: pH'_def g_def set_elem_def)
qed

lemma remove_abs:
  assumes inv: "hash_inv pH" and e: "find (matches k) (h_list pH) = Some elem"
  shows "hash_inv (removeElement pH elem) \<and> hash_abs (removeElement pH elem) = (hash_abs pH)(folded k := None)"
proof -
  from inv have di: "distinct (map he_addr (h_list pH))"
    and dk: "distinct (map (\<lambda>e. folded (he_pKey e)) (h_list pH))"
    by (simp_all add: hash_inv_def linked_def)
  have elem: "elem \<in> set (h_list pH)" "folded (he_pKey elem) = folded k"
    using find_Some_iff_distinct [OF dk] e by simp_all
  from removeElement_inv [OF inv elem(1)] have inv': "hash_inv (removeElement pH elem)"
    and l: "h_list (removeElement pH elem) = filter (\<lambda>e. he_addr e \<noteq> he_addr elem) (h_list pH)" by auto
  have "he_addr x \<noteq> he_addr elem \<longleftrightarrow> folded (he_pKey x) \<noteq> folded k" if "x \<in> set (h_list pH)" for x
  proof -
    have "x = elem" if "he_addr x = he_addr elem"
      using that \<open>x \<in> set (h_list pH)\<close> elem(1) di by (auto simp: distinct_map dest: inj_onD)
    moreover have "x = elem" if "folded (he_pKey x) = folded k"
      using that \<open>x \<in> set (h_list pH)\<close> find_Some_iff_distinct [OF dk, of k x] e by simp
    ultimately show ?thesis using elem(2) by auto
  qed
  then have "entries (set (h_list (removeElement pH elem))) =
      {(q, x). (q, x) \<in> entries (set (h_list pH)) \<and> q \<noteq> folded k}"
    unfolding l by auto
  then have "hash_abs (removeElement pH elem) = (hash_abs pH)(folded k := None)"
    by (intro hash_abs_eqI [OF inv']) (auto simp: hash_abs_iff [OF inv])
  with inv' show ?thesis by simp
qed

text \<open>A new element, after the table was possibly enlarged.\<close>

lemma add_elem:
  fixes d :: 'd
  assumes inv: "hash_inv pH" and k: "find (matches k) (h_list pH) = None"
    and fresh: "a \<notin> he_addr ` set (h_list pH)" and law: "alloc_law alloc"
    and sz: "Suc (length (h_list pH)) < 2 ^ 32"
  defines "p1 \<equiv> pH\<lparr>h_count := h_count pH + 1\<rparr>"
  defines "p2 \<equiv> (if h_count p1 \<ge> 5 \<and> h_count p1 > 2 * htsize p1
      then snd (rehash alloc (h_count p1 * 3) p1) else p1)"
  defines "new \<equiv> \<lparr>he_addr = a, he_data = d, he_pKey = k, he_h = strHash k\<rparr>"
  defines "p3 \<equiv> insertElement p2 (home p2 (he_h new)) new"
  shows "hash_inv p3 \<and> hash_abs p3 = (hash_abs pH)(folded k \<mapsto> d)"
proof -
  have l1: "linked p1" using inv by (simp add: p1_def hash_inv_def linked_def split: option.splits)
  have c: "unat (h_count p1) = Suc (length (h_list pH))"
    using inv sz by (simp add: p1_def hash_inv_def unat_inc)
  have "h_count p1 * 3 \<noteq> 0"
  proof
    assume "h_count p1 * 3 = 0"
    then have "(h_count p1 * 3) * 0xaaaaaaab = 0" by simp
    moreover have "(8589934593 :: u32) = 1" by (simp add: word_uint_eq_iff)
    ultimately have "h_count p1 = 0" by (simp add: mult.assoc)
    with c show False by simp
  qed
  then have "0 < h_count p1 * 3" by (simp add: word_gt_0)
  with rehash_linked [OF l1 law] l1 sz have l2: "linked p2" "mset (h_list p2) = mset (h_list pH)"
    "h_count p2 = h_count p1"
    by (auto simp: p2_def p1_def)
  have s2: "set (h_list p2) = set (h_list pH)" "length (h_list p2) = length (h_list pH)"
    using mset_eq_setD [OF l2(2)] mset_eq_length [OF l2(2)] by simp_all
  have l3: "linked p3" "mset (h_list p3) = add_mset new (mset (h_list pH))" "h_count p3 = h_count p1"
    using insertElement_linked [OF l2(1), of new] fresh sz l2 s2 by (simp_all add: p3_def new_def)
  have s3: "set (h_list p3) = insert new (set (h_list pH))" "length (h_list p3) = Suc (length (h_list pH))"
    using arg_cong [OF l3(2), of set_mset] arg_cong [OF l3(2), of size] by simp_all
  have nk: "folded (he_pKey e) \<noteq> folded k" if "e \<in> set (h_list pH)" for e
    using k that by (auto simp: find_None_iff matches_def)
  have "mset (map (\<lambda>e. folded (he_pKey e)) (h_list p3)) = mset (map (\<lambda>e. folded (he_pKey e)) (new # h_list pH))"
    using l3(2) by simp
  from mset_eq_imp_distinct_iff [OF this] have "distinct (map (\<lambda>e. folded (he_pKey e)) (h_list p3))"
    using inv nk by (auto simp: hash_inv_def new_def)
  with l3 s3 c inv have inv3: "hash_inv p3" by (simp add: hash_inv_def new_def)
  moreover have "hash_abs p3 = (hash_abs pH)(folded k \<mapsto> d)"
    using nk nk [symmetric] by (intro hash_abs_eqI [OF inv3]) (auto simp: s3 new_def hash_abs_iff [OF inv])
  ultimately show ?thesis by simp
qed

lemma hashInsert_cases:
  assumes inv: "hash_inv pH" and law: "alloc_law alloc"
    and fresh: "\<And>a. alloc_elem = Some a \<Longrightarrow> a \<notin> he_addr ` set (h_list pH)"
    and sz: "Suc (length (h_list pH)) < 2 ^ 32"
  obtains (failed) d where "data = Some d" "hash_abs pH (folded k) = None" "alloc_elem = None"
      "sqlite3HashInsert alloc alloc_elem pH k data = Some (data, pH)"
  | (stored) pH' where "sqlite3HashInsert alloc alloc_elem pH k data = Some (hash_abs pH (folded k), pH')"
      "hash_inv pH'" "hash_abs pH' = (hash_abs pH)(folded k := data)"
proof (cases "find (matches k) (h_list pH)")
  case (Some elem)
  then have old: "hash_abs pH (folded k) = Some (he_data elem)" by (simp add: hash_abs_find)
  show ?thesis
  proof (cases data)
    case None
    with Some old remove_abs [OF inv Some] show ?thesis
      by (intro stored) (auto simp: sqlite3HashInsert_def findElementWithHash_eq [OF inv])
  next
    case (Some d)
    with \<open>find _ _ = _\<close> old set_elem_inv [OF inv \<open>find _ _ = _\<close>, of d] show ?thesis
      by (intro stored) (auto simp: sqlite3HashInsert_def findElementWithHash_eq [OF inv])
  qed
next
  case None
  then have old: "hash_abs pH (folded k) = None" by (simp add: hash_abs_find)
  show ?thesis
  proof (cases data)
    case None
    with \<open>find _ _ = None\<close> old inv show ?thesis
      by (intro stored [of pH]) (auto simp: sqlite3HashInsert_def findElementWithHash_eq [OF inv])
  next
    case (Some d)
    show ?thesis
    proof (cases alloc_elem)
      case None
      with Some \<open>find _ _ = None\<close> old show ?thesis
        by (intro failed) (simp_all add: sqlite3HashInsert_def findElementWithHash_eq [OF inv])
    next
      case (Some a)
      with \<open>data = Some d\<close> \<open>find _ _ = None\<close> old
        add_elem [OF inv \<open>find _ _ = None\<close> fresh [OF Some] law sz, of d]
      show ?thesis
        by (intro stored) (auto simp: sqlite3HashInsert_def findElementWithHash_eq [OF inv] home_def Let_def)
    qed
  qed
qed

lemma hash_init: "hash_inv sqlite3HashInit" "hash_abs sqlite3HashInit = Map.empty"
  by (simp_all add: sqlite3HashInit_def hash_inv_def linked_def hash_abs_def)

lemma hash_clear: "hash_inv (sqlite3HashClear pH)" "hash_abs (sqlite3HashClear pH) = Map.empty"
  by (simp_all add: sqlite3HashClear_def hash_inv_def linked_def hash_abs_def)

section \<open>The interface of a name table\<close>

text \<open>
  What the schema code relies on: lookups see the last value stored under a name, whatever its
  case. \<open>env\<close> is the memory an operation is given, \<open>good\<close> that it is enough.
\<close>

locale name_table =
  fixes invar :: "'s \<Rightarrow> bool"
    and tbl :: "'s \<Rightarrow> u8 list \<rightharpoonup> 'd"
    and lookup :: "'s \<Rightarrow> u8 list \<Rightarrow> 'd option option"
    and store :: "'e \<Rightarrow> 's \<Rightarrow> u8 list \<Rightarrow> 'd option \<Rightarrow> ('d option \<times> 's) option"
    and good :: "'e \<Rightarrow> 's \<Rightarrow> bool"
  assumes lookup_tbl: "invar s \<Longrightarrow> lookup s k = Some (tbl s (folded k))"
    and store_tbl: "invar s \<Longrightarrow> good e s \<Longrightarrow>
      \<exists>s'. store e s k x = Some (tbl s (folded k), s') \<and> invar s' \<and> tbl s' = (tbl s)(folded k := x)"
begin

lemma lookup_ignores_case: "invar s \<Longrightarrow> folded a = folded b \<Longrightarrow> lookup s a = lookup s b"
  by (simp add: lookup_tbl)

lemma lookup_after_store:
  assumes "invar s" "good e s" "store e s k x = Some (r, s')"
  shows "lookup s' q = (if folded q = folded k then Some x else lookup s q)"
proof -
  from store_tbl [OF assms(1,2), of k x] assms(3) have "invar s'" "tbl s' = (tbl s)(folded k := x)" by auto
  with assms(1) show ?thesis by (simp add: lookup_tbl)
qed

end

definition good_env :: "(u32 \<Rightarrow> u32 option) \<times> nat \<Rightarrow> 'd Hash \<Rightarrow> bool" where
  "good_env env pH \<longleftrightarrow> alloc_law (fst env) \<and> snd env \<notin> he_addr ` set (h_list pH) \<and>
     Suc (length (h_list pH)) < 2 ^ 32"

interpretation hash_table: name_table hash_inv hash_abs sqlite3HashFind
  "\<lambda>env. sqlite3HashInsert (fst env) (Some (snd env))" good_env
proof unfold_locales
  fix s :: "'d Hash" and e k x
  assume inv: "hash_inv s" and good: "good_env e s"
  show "\<exists>s'. sqlite3HashInsert (fst e) (Some (snd e)) s k x = Some (hash_abs s (folded k), s') \<and>
      hash_inv s' \<and> hash_abs s' = (hash_abs s)(folded k := x)"
    by (rule hashInsert_cases [OF inv, of "fst e" "Some (snd e)" x k])
       (use good in \<open>auto simp: good_env_def\<close>)
qed (rule hashFind_abs)

end
