(* ===== verification/Sqlite_Keywords.thy ===== *)
theory Sqlite_Keywords
  imports Sqlite_Chars
begin

text \<open>
  The keyword lookup of the bundled SQLite (\<^verbatim>\<open>parse.h\<close>, \<^verbatim>\<open>keywordhash.h\<close> in \<^verbatim>\<open>sqlite3/sqlite3.c\<close>): the token
  codes, the overlapping keyword text, the hash table with its collision chains, and the search.
  The search is shown to recognise exactly the 147 keywords, in any case.
\<close>

section \<open>Token codes\<close>

abbreviation (input) TK_SEMI :: nat where "TK_SEMI \<equiv> 1"
abbreviation (input) TK_EXPLAIN :: nat where "TK_EXPLAIN \<equiv> 2"
abbreviation (input) TK_QUERY :: nat where "TK_QUERY \<equiv> 3"
abbreviation (input) TK_PLAN :: nat where "TK_PLAN \<equiv> 4"
abbreviation (input) TK_BEGIN :: nat where "TK_BEGIN \<equiv> 5"
abbreviation (input) TK_TRANSACTION :: nat where "TK_TRANSACTION \<equiv> 6"
abbreviation (input) TK_DEFERRED :: nat where "TK_DEFERRED \<equiv> 7"
abbreviation (input) TK_IMMEDIATE :: nat where "TK_IMMEDIATE \<equiv> 8"
abbreviation (input) TK_EXCLUSIVE :: nat where "TK_EXCLUSIVE \<equiv> 9"
abbreviation (input) TK_COMMIT :: nat where "TK_COMMIT \<equiv> 10"
abbreviation (input) TK_END :: nat where "TK_END \<equiv> 11"
abbreviation (input) TK_ROLLBACK :: nat where "TK_ROLLBACK \<equiv> 12"
abbreviation (input) TK_SAVEPOINT :: nat where "TK_SAVEPOINT \<equiv> 13"
abbreviation (input) TK_RELEASE :: nat where "TK_RELEASE \<equiv> 14"
abbreviation (input) TK_TO :: nat where "TK_TO \<equiv> 15"
abbreviation (input) TK_TABLE :: nat where "TK_TABLE \<equiv> 16"
abbreviation (input) TK_CREATE :: nat where "TK_CREATE \<equiv> 17"
abbreviation (input) TK_IF :: nat where "TK_IF \<equiv> 18"
abbreviation (input) TK_NOT :: nat where "TK_NOT \<equiv> 19"
abbreviation (input) TK_EXISTS :: nat where "TK_EXISTS \<equiv> 20"
abbreviation (input) TK_TEMP :: nat where "TK_TEMP \<equiv> 21"
abbreviation (input) TK_LP :: nat where "TK_LP \<equiv> 22"
abbreviation (input) TK_RP :: nat where "TK_RP \<equiv> 23"
abbreviation (input) TK_AS :: nat where "TK_AS \<equiv> 24"
abbreviation (input) TK_COMMA :: nat where "TK_COMMA \<equiv> 25"
abbreviation (input) TK_WITHOUT :: nat where "TK_WITHOUT \<equiv> 26"
abbreviation (input) TK_ABORT :: nat where "TK_ABORT \<equiv> 27"
abbreviation (input) TK_ACTION :: nat where "TK_ACTION \<equiv> 28"
abbreviation (input) TK_AFTER :: nat where "TK_AFTER \<equiv> 29"
abbreviation (input) TK_ANALYZE :: nat where "TK_ANALYZE \<equiv> 30"
abbreviation (input) TK_ASC :: nat where "TK_ASC \<equiv> 31"
abbreviation (input) TK_ATTACH :: nat where "TK_ATTACH \<equiv> 32"
abbreviation (input) TK_BEFORE :: nat where "TK_BEFORE \<equiv> 33"
abbreviation (input) TK_BY :: nat where "TK_BY \<equiv> 34"
abbreviation (input) TK_CASCADE :: nat where "TK_CASCADE \<equiv> 35"
abbreviation (input) TK_CAST :: nat where "TK_CAST \<equiv> 36"
abbreviation (input) TK_CONFLICT :: nat where "TK_CONFLICT \<equiv> 37"
abbreviation (input) TK_DATABASE :: nat where "TK_DATABASE \<equiv> 38"
abbreviation (input) TK_DESC :: nat where "TK_DESC \<equiv> 39"
abbreviation (input) TK_DETACH :: nat where "TK_DETACH \<equiv> 40"
abbreviation (input) TK_EACH :: nat where "TK_EACH \<equiv> 41"
abbreviation (input) TK_FAIL :: nat where "TK_FAIL \<equiv> 42"
abbreviation (input) TK_OR :: nat where "TK_OR \<equiv> 43"
abbreviation (input) TK_AND :: nat where "TK_AND \<equiv> 44"
abbreviation (input) TK_IS :: nat where "TK_IS \<equiv> 45"
abbreviation (input) TK_MATCH :: nat where "TK_MATCH \<equiv> 47"
abbreviation (input) TK_LIKE_KW :: nat where "TK_LIKE_KW \<equiv> 48"
abbreviation (input) TK_BETWEEN :: nat where "TK_BETWEEN \<equiv> 49"
abbreviation (input) TK_IN :: nat where "TK_IN \<equiv> 50"
abbreviation (input) TK_ISNULL :: nat where "TK_ISNULL \<equiv> 51"
abbreviation (input) TK_NOTNULL :: nat where "TK_NOTNULL \<equiv> 52"
abbreviation (input) TK_NE :: nat where "TK_NE \<equiv> 53"
abbreviation (input) TK_EQ :: nat where "TK_EQ \<equiv> 54"
abbreviation (input) TK_GT :: nat where "TK_GT \<equiv> 55"
abbreviation (input) TK_LE :: nat where "TK_LE \<equiv> 56"
abbreviation (input) TK_LT :: nat where "TK_LT \<equiv> 57"
abbreviation (input) TK_GE :: nat where "TK_GE \<equiv> 58"
abbreviation (input) TK_ESCAPE :: nat where "TK_ESCAPE \<equiv> 59"
abbreviation (input) TK_ID :: nat where "TK_ID \<equiv> 60"
abbreviation (input) TK_COLUMNKW :: nat where "TK_COLUMNKW \<equiv> 61"
abbreviation (input) TK_DO :: nat where "TK_DO \<equiv> 62"
abbreviation (input) TK_FOR :: nat where "TK_FOR \<equiv> 63"
abbreviation (input) TK_IGNORE :: nat where "TK_IGNORE \<equiv> 64"
abbreviation (input) TK_INITIALLY :: nat where "TK_INITIALLY \<equiv> 65"
abbreviation (input) TK_INSTEAD :: nat where "TK_INSTEAD \<equiv> 66"
abbreviation (input) TK_NO :: nat where "TK_NO \<equiv> 67"
abbreviation (input) TK_KEY :: nat where "TK_KEY \<equiv> 68"
abbreviation (input) TK_OF :: nat where "TK_OF \<equiv> 69"
abbreviation (input) TK_OFFSET :: nat where "TK_OFFSET \<equiv> 70"
abbreviation (input) TK_PRAGMA :: nat where "TK_PRAGMA \<equiv> 71"
abbreviation (input) TK_RAISE :: nat where "TK_RAISE \<equiv> 72"
abbreviation (input) TK_RECURSIVE :: nat where "TK_RECURSIVE \<equiv> 73"
abbreviation (input) TK_REPLACE :: nat where "TK_REPLACE \<equiv> 74"
abbreviation (input) TK_RESTRICT :: nat where "TK_RESTRICT \<equiv> 75"
abbreviation (input) TK_ROW :: nat where "TK_ROW \<equiv> 76"
abbreviation (input) TK_ROWS :: nat where "TK_ROWS \<equiv> 77"
abbreviation (input) TK_TRIGGER :: nat where "TK_TRIGGER \<equiv> 78"
abbreviation (input) TK_VACUUM :: nat where "TK_VACUUM \<equiv> 79"
abbreviation (input) TK_VIEW :: nat where "TK_VIEW \<equiv> 80"
abbreviation (input) TK_VIRTUAL :: nat where "TK_VIRTUAL \<equiv> 81"
abbreviation (input) TK_WITH :: nat where "TK_WITH \<equiv> 82"
abbreviation (input) TK_NULLS :: nat where "TK_NULLS \<equiv> 83"
abbreviation (input) TK_FIRST :: nat where "TK_FIRST \<equiv> 84"
abbreviation (input) TK_LAST :: nat where "TK_LAST \<equiv> 85"
abbreviation (input) TK_CURRENT :: nat where "TK_CURRENT \<equiv> 86"
abbreviation (input) TK_FOLLOWING :: nat where "TK_FOLLOWING \<equiv> 87"
abbreviation (input) TK_PARTITION :: nat where "TK_PARTITION \<equiv> 88"
abbreviation (input) TK_PRECEDING :: nat where "TK_PRECEDING \<equiv> 89"
abbreviation (input) TK_RANGE :: nat where "TK_RANGE \<equiv> 90"
abbreviation (input) TK_UNBOUNDED :: nat where "TK_UNBOUNDED \<equiv> 91"
abbreviation (input) TK_EXCLUDE :: nat where "TK_EXCLUDE \<equiv> 92"
abbreviation (input) TK_GROUPS :: nat where "TK_GROUPS \<equiv> 93"
abbreviation (input) TK_OTHERS :: nat where "TK_OTHERS \<equiv> 94"
abbreviation (input) TK_TIES :: nat where "TK_TIES \<equiv> 95"
abbreviation (input) TK_GENERATED :: nat where "TK_GENERATED \<equiv> 96"
abbreviation (input) TK_ALWAYS :: nat where "TK_ALWAYS \<equiv> 97"
abbreviation (input) TK_MATERIALIZED :: nat where "TK_MATERIALIZED \<equiv> 98"
abbreviation (input) TK_REINDEX :: nat where "TK_REINDEX \<equiv> 99"
abbreviation (input) TK_RENAME :: nat where "TK_RENAME \<equiv> 100"
abbreviation (input) TK_CTIME_KW :: nat where "TK_CTIME_KW \<equiv> 101"
abbreviation (input) TK_BITAND :: nat where "TK_BITAND \<equiv> 103"
abbreviation (input) TK_BITOR :: nat where "TK_BITOR \<equiv> 104"
abbreviation (input) TK_LSHIFT :: nat where "TK_LSHIFT \<equiv> 105"
abbreviation (input) TK_RSHIFT :: nat where "TK_RSHIFT \<equiv> 106"
abbreviation (input) TK_PLUS :: nat where "TK_PLUS \<equiv> 107"
abbreviation (input) TK_MINUS :: nat where "TK_MINUS \<equiv> 108"
abbreviation (input) TK_STAR :: nat where "TK_STAR \<equiv> 109"
abbreviation (input) TK_SLASH :: nat where "TK_SLASH \<equiv> 110"
abbreviation (input) TK_REM :: nat where "TK_REM \<equiv> 111"
abbreviation (input) TK_CONCAT :: nat where "TK_CONCAT \<equiv> 112"
abbreviation (input) TK_PTR :: nat where "TK_PTR \<equiv> 113"
abbreviation (input) TK_COLLATE :: nat where "TK_COLLATE \<equiv> 114"
abbreviation (input) TK_BITNOT :: nat where "TK_BITNOT \<equiv> 115"
abbreviation (input) TK_ON :: nat where "TK_ON \<equiv> 116"
abbreviation (input) TK_INDEXED :: nat where "TK_INDEXED \<equiv> 117"
abbreviation (input) TK_STRING :: nat where "TK_STRING \<equiv> 118"
abbreviation (input) TK_JOIN_KW :: nat where "TK_JOIN_KW \<equiv> 119"
abbreviation (input) TK_CONSTRAINT :: nat where "TK_CONSTRAINT \<equiv> 120"
abbreviation (input) TK_DEFAULT :: nat where "TK_DEFAULT \<equiv> 121"
abbreviation (input) TK_NULL :: nat where "TK_NULL \<equiv> 122"
abbreviation (input) TK_PRIMARY :: nat where "TK_PRIMARY \<equiv> 123"
abbreviation (input) TK_UNIQUE :: nat where "TK_UNIQUE \<equiv> 124"
abbreviation (input) TK_CHECK :: nat where "TK_CHECK \<equiv> 125"
abbreviation (input) TK_REFERENCES :: nat where "TK_REFERENCES \<equiv> 126"
abbreviation (input) TK_AUTOINCR :: nat where "TK_AUTOINCR \<equiv> 127"
abbreviation (input) TK_INSERT :: nat where "TK_INSERT \<equiv> 128"
abbreviation (input) TK_DELETE :: nat where "TK_DELETE \<equiv> 129"
abbreviation (input) TK_UPDATE :: nat where "TK_UPDATE \<equiv> 130"
abbreviation (input) TK_SET :: nat where "TK_SET \<equiv> 131"
abbreviation (input) TK_DEFERRABLE :: nat where "TK_DEFERRABLE \<equiv> 132"
abbreviation (input) TK_FOREIGN :: nat where "TK_FOREIGN \<equiv> 133"
abbreviation (input) TK_DROP :: nat where "TK_DROP \<equiv> 134"
abbreviation (input) TK_UNION :: nat where "TK_UNION \<equiv> 135"
abbreviation (input) TK_ALL :: nat where "TK_ALL \<equiv> 136"
abbreviation (input) TK_EXCEPT :: nat where "TK_EXCEPT \<equiv> 137"
abbreviation (input) TK_INTERSECT :: nat where "TK_INTERSECT \<equiv> 138"
abbreviation (input) TK_SELECT :: nat where "TK_SELECT \<equiv> 139"
abbreviation (input) TK_VALUES :: nat where "TK_VALUES \<equiv> 140"
abbreviation (input) TK_DISTINCT :: nat where "TK_DISTINCT \<equiv> 141"
abbreviation (input) TK_DOT :: nat where "TK_DOT \<equiv> 142"
abbreviation (input) TK_FROM :: nat where "TK_FROM \<equiv> 143"
abbreviation (input) TK_JOIN :: nat where "TK_JOIN \<equiv> 144"
abbreviation (input) TK_USING :: nat where "TK_USING \<equiv> 145"
abbreviation (input) TK_ORDER :: nat where "TK_ORDER \<equiv> 146"
abbreviation (input) TK_GROUP :: nat where "TK_GROUP \<equiv> 147"
abbreviation (input) TK_HAVING :: nat where "TK_HAVING \<equiv> 148"
abbreviation (input) TK_LIMIT :: nat where "TK_LIMIT \<equiv> 149"
abbreviation (input) TK_WHERE :: nat where "TK_WHERE \<equiv> 150"
abbreviation (input) TK_RETURNING :: nat where "TK_RETURNING \<equiv> 151"
abbreviation (input) TK_INTO :: nat where "TK_INTO \<equiv> 152"
abbreviation (input) TK_NOTHING :: nat where "TK_NOTHING \<equiv> 153"
abbreviation (input) TK_FLOAT :: nat where "TK_FLOAT \<equiv> 154"
abbreviation (input) TK_BLOB :: nat where "TK_BLOB \<equiv> 155"
abbreviation (input) TK_INTEGER :: nat where "TK_INTEGER \<equiv> 156"
abbreviation (input) TK_VARIABLE :: nat where "TK_VARIABLE \<equiv> 157"
abbreviation (input) TK_CASE :: nat where "TK_CASE \<equiv> 158"
abbreviation (input) TK_WHEN :: nat where "TK_WHEN \<equiv> 159"
abbreviation (input) TK_THEN :: nat where "TK_THEN \<equiv> 160"
abbreviation (input) TK_ELSE :: nat where "TK_ELSE \<equiv> 161"
abbreviation (input) TK_INDEX :: nat where "TK_INDEX \<equiv> 162"
abbreviation (input) TK_ALTER :: nat where "TK_ALTER \<equiv> 163"
abbreviation (input) TK_ADD :: nat where "TK_ADD \<equiv> 164"
abbreviation (input) TK_WINDOW :: nat where "TK_WINDOW \<equiv> 165"
abbreviation (input) TK_OVER :: nat where "TK_OVER \<equiv> 166"
abbreviation (input) TK_FILTER :: nat where "TK_FILTER \<equiv> 167"
abbreviation (input) TK_QNUMBER :: nat where "TK_QNUMBER \<equiv> 183"
abbreviation (input) TK_SPACE :: nat where "TK_SPACE \<equiv> 184"
abbreviation (input) TK_COMMENT :: nat where "TK_COMMENT \<equiv> 185"
abbreviation (input) TK_ILLEGAL :: nat where "TK_ILLEGAL \<equiv> 186"

section \<open>Tables\<close>

definition zKWText :: string where
  "zKWText =
     ''REINDEXEDESCAPEACHECKEYBEFOREIGNOREGEXPLAINSTEADDATABASELECTABLEFTHENDEF'' @
     ''ERRABLELSEXCLUDELETEMPORARYISNULLSAVEPOINTERSECTIESNOTNULLIKEXCEPTRANSAC'' @
     ''TIONATURALTERAISEXCLUSIVEXISTSCONSTRAINTOFFSETRIGGERANGENERATEDETACHAVIN'' @
     ''GLOBEGINNEREFERENCESUNIQUERYWITHOUTERELEASEATTACHBETWEENOTHINGROUPSCASCA'' @
     ''DEFAULTCASECOLLATECREATECURRENT_DATEIMMEDIATEJOINSERTMATCHPLANALYZEPRAGM'' @
     ''ATERIALIZEDEFERREDISTINCTUPDATEVALUESVIRTUALWAYSWHENWHERECURSIVEABORTAFT'' @
     ''ERENAMEANDROPARTITIONAUTOINCREMENTCASTCOLUMNCOMMITCONFLICTCROSSCURRENT_T'' @
     ''IMESTAMPRECEDINGFAILASTFILTEREPLACEFIRSTFOLLOWINGFROMFULLIMITIFORDERESTR'' @
     ''ICTOTHERSOVERETURNINGRIGHTROLLBACKROWSUNBOUNDEDUNIONUSINGVACUUMVIEWINDOW'' @
     ''BYINITIALLYPRIMARY''"

definition aKWHash :: "nat list" where
  "aKWHash =
     [84, 92, 134, 82, 105, 29, 0, 0, 94, 0, 85, 72, 0, 53, 35, 86, 15, 0,
      42, 97, 54, 89, 135, 19, 0, 0, 140, 0, 40, 129, 0, 22, 107, 0, 9, 0,
      0, 123, 80, 0, 78, 6, 0, 65, 103, 147, 0, 136, 115, 0, 0, 48, 0, 90,
      24, 0, 17, 0, 27, 70, 23, 26, 5, 60, 142, 110, 122, 0, 73, 91, 71, 145,
      61, 120, 74, 0, 49, 0, 11, 41, 0, 113, 0, 0, 0, 109, 10, 111, 116, 125,
      14, 50, 124, 0, 100, 0, 18, 121, 144, 56, 130, 139, 88, 83, 37, 30, 126, 0,
      0, 108, 51, 131, 128, 0, 34, 0, 0, 132, 0, 98, 38, 39, 0, 20, 45, 117,
      93]"

definition aKWNext :: "nat list" where
  "aKWNext =
     [0, 0, 0, 0, 0, 4, 0, 43, 0, 0, 106, 114, 0, 0, 0, 2, 0, 0,
      143, 0, 0, 0, 13, 0, 0, 0, 0, 141, 0, 0, 119, 52, 0, 0, 137, 12,
      0, 0, 62, 0, 138, 0, 133, 0, 0, 36, 0, 0, 28, 77, 0, 0, 0, 0,
      59, 0, 47, 0, 0, 0, 0, 0, 0, 0, 0, 0, 0, 69, 0, 0, 0, 0,
      0, 146, 3, 0, 58, 0, 1, 75, 0, 0, 0, 31, 0, 0, 0, 0, 0, 127,
      0, 104, 0, 64, 66, 63, 0, 0, 0, 0, 0, 46, 0, 16, 8, 0, 0, 0,
      0, 0, 0, 0, 0, 0, 0, 81, 101, 0, 112, 21, 7, 67, 0, 79, 96, 118,
      0, 0, 68, 0, 0, 99, 44, 0, 55, 0, 76, 0, 95, 32, 33, 57, 25, 0,
      102, 0, 0, 87]"

definition aKWLen :: "nat list" where
  "aKWLen =
     [0, 7, 7, 5, 4, 6, 4, 5, 3, 6, 7, 3, 6, 6, 7, 7, 3, 8,
      2, 6, 5, 4, 4, 3, 10, 4, 7, 6, 9, 4, 2, 6, 5, 9, 9, 4,
      7, 3, 2, 4, 4, 6, 11, 6, 2, 7, 5, 5, 9, 6, 10, 4, 6, 2,
      3, 7, 5, 9, 6, 6, 4, 5, 5, 10, 6, 5, 7, 4, 5, 7, 6, 7,
      7, 6, 5, 7, 3, 7, 4, 7, 6, 12, 9, 4, 6, 5, 4, 7, 6, 12,
      8, 8, 2, 6, 6, 7, 6, 4, 5, 9, 5, 5, 6, 3, 4, 9, 13, 2,
      2, 4, 6, 6, 8, 5, 17, 12, 7, 9, 4, 4, 6, 7, 5, 9, 4, 4,
      5, 2, 5, 8, 6, 4, 9, 5, 8, 4, 3, 9, 5, 5, 6, 4, 6, 2,
      2, 9, 3, 7]"

definition aKWOffset :: "nat list" where
  "aKWOffset =
     [0, 0, 2, 2, 8, 9, 14, 16, 20, 23, 25, 25, 29, 33, 36, 41, 46, 48,
      53, 54, 59, 62, 65, 67, 69, 78, 81, 86, 90, 90, 94, 99, 101, 105, 111, 119,
      123, 123, 123, 126, 129, 132, 137, 142, 146, 147, 152, 156, 160, 168, 174, 181, 184, 184,
      187, 189, 195, 198, 206, 211, 216, 219, 222, 226, 236, 239, 244, 244, 248, 252, 259, 265,
      271, 277, 277, 283, 284, 288, 295, 299, 306, 312, 324, 333, 335, 341, 346, 348, 355, 359,
      370, 377, 378, 385, 391, 397, 402, 408, 412, 415, 424, 429, 433, 439, 441, 444, 453, 455,
      457, 466, 470, 476, 482, 490, 495, 495, 495, 511, 520, 523, 527, 532, 539, 544, 553, 557,
      560, 565, 567, 571, 579, 585, 588, 597, 602, 610, 610, 614, 623, 628, 633, 639, 642, 645,
      648, 650, 655, 659]"

definition aKWCode :: "nat list" where
  "aKWCode =
     [0, TK_REINDEX, TK_INDEXED, TK_INDEX, TK_DESC, TK_ESCAPE,
      TK_EACH, TK_CHECK, TK_KEY, TK_BEFORE, TK_FOREIGN, TK_FOR,
      TK_IGNORE, TK_LIKE_KW, TK_EXPLAIN, TK_INSTEAD, TK_ADD, TK_DATABASE,
      TK_AS, TK_SELECT, TK_TABLE, TK_JOIN_KW, TK_THEN, TK_END,
      TK_DEFERRABLE, TK_ELSE, TK_EXCLUDE, TK_DELETE, TK_TEMP, TK_TEMP,
      TK_OR, TK_ISNULL, TK_NULLS, TK_SAVEPOINT, TK_INTERSECT, TK_TIES,
      TK_NOTNULL, TK_NOT, TK_NO, TK_NULL, TK_LIKE_KW, TK_EXCEPT,
      TK_TRANSACTION, TK_ACTION, TK_ON, TK_JOIN_KW, TK_ALTER, TK_RAISE,
      TK_EXCLUSIVE, TK_EXISTS, TK_CONSTRAINT, TK_INTO, TK_OFFSET, TK_OF,
      TK_SET, TK_TRIGGER, TK_RANGE, TK_GENERATED, TK_DETACH, TK_HAVING,
      TK_LIKE_KW, TK_BEGIN, TK_JOIN_KW, TK_REFERENCES, TK_UNIQUE, TK_QUERY,
      TK_WITHOUT, TK_WITH, TK_JOIN_KW, TK_RELEASE, TK_ATTACH, TK_BETWEEN,
      TK_NOTHING, TK_GROUPS, TK_GROUP, TK_CASCADE, TK_ASC, TK_DEFAULT,
      TK_CASE, TK_COLLATE, TK_CREATE, TK_CTIME_KW, TK_IMMEDIATE, TK_JOIN,
      TK_INSERT, TK_MATCH, TK_PLAN, TK_ANALYZE, TK_PRAGMA, TK_MATERIALIZED,
      TK_DEFERRED, TK_DISTINCT, TK_IS, TK_UPDATE, TK_VALUES, TK_VIRTUAL,
      TK_ALWAYS, TK_WHEN, TK_WHERE, TK_RECURSIVE, TK_ABORT, TK_AFTER,
      TK_RENAME, TK_AND, TK_DROP, TK_PARTITION, TK_AUTOINCR, TK_TO,
      TK_IN, TK_CAST, TK_COLUMNKW, TK_COMMIT, TK_CONFLICT, TK_JOIN_KW,
      TK_CTIME_KW, TK_CTIME_KW, TK_CURRENT, TK_PRECEDING, TK_FAIL, TK_LAST,
      TK_FILTER, TK_REPLACE, TK_FIRST, TK_FOLLOWING, TK_FROM, TK_JOIN_KW,
      TK_LIMIT, TK_IF, TK_ORDER, TK_RESTRICT, TK_OTHERS, TK_OVER,
      TK_RETURNING, TK_JOIN_KW, TK_ROLLBACK, TK_ROWS, TK_ROW, TK_UNBOUNDED,
      TK_UNION, TK_USING, TK_VACUUM, TK_VIEW, TK_WINDOW, TK_DO,
      TK_BY, TK_INITIALLY, TK_ALL, TK_PRIMARY]"

section \<open>Operations\<close>

text \<open>
  \<open>kw_index\<close> is the hash of the first and last character and the length; \<open>kw_here\<close> the comparison of
  the text with keyword \<open>i\<close>; \<open>kw_chain\<close> the loop over a collision chain, with a bound on the number
  of steps (\<open>None\<close> when it is not enough). The result of \<open>keywordCode\<close> is the value of \<^verbatim>\<open>*pType\<close>.
\<close>

definition kw_index :: "u8 list \<Rightarrow> nat \<Rightarrow> nat" where
  "kw_index z n =
     ((unat (UpperToLower (at z 0)) * 4) XOR (unat (UpperToLower (at z (n - 1))) * 3) XOR n) mod 127"

definition kw_char :: "nat \<Rightarrow> nat \<Rightarrow> u8" where
  "kw_char i j = byte_of (zKWText ! (aKWOffset ! i + j))"

fun kw_same :: "u8 list \<Rightarrow> nat \<Rightarrow> nat \<Rightarrow> nat \<Rightarrow> bool" where
  "kw_same z i j 0 = True"
| "kw_same z i j (Suc k) = (at z j AND NOT 0x20 = kw_char i j \<and> kw_same z i (Suc j) k)"

definition kw_here :: "u8 list \<Rightarrow> nat \<Rightarrow> nat \<Rightarrow> bool" where
  "kw_here z n i =
     (aKWLen ! i = n \<and> at z 0 AND NOT 0x20 = kw_char i 0 \<and> at z 1 AND NOT 0x20 = kw_char i 1 \<and>
      kw_same z i 2 (n - 2))"

fun kw_chain :: "nat \<Rightarrow> u8 list \<Rightarrow> nat \<Rightarrow> nat \<Rightarrow> nat \<Rightarrow> nat option" where
  "kw_chain 0 z n pType i = None"
| "kw_chain (Suc fuel) z n pType i =
     (if i = 0 then Some pType
      else if kw_here z n i then Some (aKWCode ! i)
      else kw_chain fuel z n pType (aKWNext ! i))"

definition keywordCode :: "u8 list \<Rightarrow> nat \<Rightarrow> nat \<Rightarrow> nat option" where
  "keywordCode z n pType = kw_chain 148 z n pType (aKWHash ! kw_index z n)"

definition sqlite3KeywordCode :: "u8 list \<Rightarrow> nat \<Rightarrow> nat option" where
  "sqlite3KeywordCode z n = (if n \<ge> 2 then keywordCode z n TK_ID else Some TK_ID)"

text \<open>
  The public interface: \<open>sqlite3_keyword_name\<close> gives the name at the returned pointer with the
  returned length, \<open>None\<close> for the error code.
\<close>

definition sqlite3_keyword_name :: "int \<Rightarrow> string option" where
  "sqlite3_keyword_name i =
     (if i < 0 \<or> 147 \<le> i then None
      else let i = nat (i + 1) in Some (take (aKWLen ! i) (drop (aKWOffset ! i) zKWText)))"

definition sqlite3_keyword_count :: int where
  "sqlite3_keyword_count = 147"

definition sqlite3_keyword_check :: "u8 list \<Rightarrow> nat \<Rightarrow> bool option" where
  "sqlite3_keyword_check zName nName = map_option (\<lambda>t. TK_ID \<noteq> t) (sqlite3KeywordCode zName nName)"

section \<open>Reference: the list of keywords\<close>

text \<open>
  \<open>sql_keywords\<close> is the list of the 147 keywords with their token codes; \<open>sql_word_code\<close> looks a
  word up in it, ignoring case. \<open>upcase\<close> is the search's own folding, which also maps DEL to
  the underscore.
\<close>

definition sql_keywords :: "(string \<times> nat) list" where
  "sql_keywords =
     [(''REINDEX'', TK_REINDEX), (''INDEXED'', TK_INDEXED), (''INDEX'', TK_INDEX), (''DESC'', TK_DESC),
      (''ESCAPE'', TK_ESCAPE), (''EACH'', TK_EACH), (''CHECK'', TK_CHECK), (''KEY'', TK_KEY),
      (''BEFORE'', TK_BEFORE), (''FOREIGN'', TK_FOREIGN), (''FOR'', TK_FOR), (''IGNORE'', TK_IGNORE),
      (''REGEXP'', TK_LIKE_KW), (''EXPLAIN'', TK_EXPLAIN), (''INSTEAD'', TK_INSTEAD), (''ADD'', TK_ADD),
      (''DATABASE'', TK_DATABASE), (''AS'', TK_AS), (''SELECT'', TK_SELECT), (''TABLE'', TK_TABLE),
      (''LEFT'', TK_JOIN_KW), (''THEN'', TK_THEN), (''END'', TK_END), (''DEFERRABLE'', TK_DEFERRABLE),
      (''ELSE'', TK_ELSE), (''EXCLUDE'', TK_EXCLUDE), (''DELETE'', TK_DELETE), (''TEMPORARY'', TK_TEMP),
      (''TEMP'', TK_TEMP), (''OR'', TK_OR), (''ISNULL'', TK_ISNULL), (''NULLS'', TK_NULLS),
      (''SAVEPOINT'', TK_SAVEPOINT), (''INTERSECT'', TK_INTERSECT), (''TIES'', TK_TIES), (''NOTNULL'', TK_NOTNULL),
      (''NOT'', TK_NOT), (''NO'', TK_NO), (''NULL'', TK_NULL), (''LIKE'', TK_LIKE_KW),
      (''EXCEPT'', TK_EXCEPT), (''TRANSACTION'', TK_TRANSACTION), (''ACTION'', TK_ACTION), (''ON'', TK_ON),
      (''NATURAL'', TK_JOIN_KW), (''ALTER'', TK_ALTER), (''RAISE'', TK_RAISE), (''EXCLUSIVE'', TK_EXCLUSIVE),
      (''EXISTS'', TK_EXISTS), (''CONSTRAINT'', TK_CONSTRAINT), (''INTO'', TK_INTO), (''OFFSET'', TK_OFFSET),
      (''OF'', TK_OF), (''SET'', TK_SET), (''TRIGGER'', TK_TRIGGER), (''RANGE'', TK_RANGE),
      (''GENERATED'', TK_GENERATED), (''DETACH'', TK_DETACH), (''HAVING'', TK_HAVING), (''GLOB'', TK_LIKE_KW),
      (''BEGIN'', TK_BEGIN), (''INNER'', TK_JOIN_KW), (''REFERENCES'', TK_REFERENCES), (''UNIQUE'', TK_UNIQUE),
      (''QUERY'', TK_QUERY), (''WITHOUT'', TK_WITHOUT), (''WITH'', TK_WITH), (''OUTER'', TK_JOIN_KW),
      (''RELEASE'', TK_RELEASE), (''ATTACH'', TK_ATTACH), (''BETWEEN'', TK_BETWEEN), (''NOTHING'', TK_NOTHING),
      (''GROUPS'', TK_GROUPS), (''GROUP'', TK_GROUP), (''CASCADE'', TK_CASCADE), (''ASC'', TK_ASC),
      (''DEFAULT'', TK_DEFAULT), (''CASE'', TK_CASE), (''COLLATE'', TK_COLLATE), (''CREATE'', TK_CREATE),
      (''CURRENT_DATE'', TK_CTIME_KW), (''IMMEDIATE'', TK_IMMEDIATE), (''JOIN'', TK_JOIN), (''INSERT'', TK_INSERT),
      (''MATCH'', TK_MATCH), (''PLAN'', TK_PLAN), (''ANALYZE'', TK_ANALYZE), (''PRAGMA'', TK_PRAGMA),
      (''MATERIALIZED'', TK_MATERIALIZED), (''DEFERRED'', TK_DEFERRED), (''DISTINCT'', TK_DISTINCT), (''IS'', TK_IS),
      (''UPDATE'', TK_UPDATE), (''VALUES'', TK_VALUES), (''VIRTUAL'', TK_VIRTUAL), (''ALWAYS'', TK_ALWAYS),
      (''WHEN'', TK_WHEN), (''WHERE'', TK_WHERE), (''RECURSIVE'', TK_RECURSIVE), (''ABORT'', TK_ABORT),
      (''AFTER'', TK_AFTER), (''RENAME'', TK_RENAME), (''AND'', TK_AND), (''DROP'', TK_DROP),
      (''PARTITION'', TK_PARTITION), (''AUTOINCREMENT'', TK_AUTOINCR), (''TO'', TK_TO), (''IN'', TK_IN),
      (''CAST'', TK_CAST), (''COLUMN'', TK_COLUMNKW), (''COMMIT'', TK_COMMIT), (''CONFLICT'', TK_CONFLICT),
      (''CROSS'', TK_JOIN_KW), (''CURRENT_TIMESTAMP'', TK_CTIME_KW), (''CURRENT_TIME'', TK_CTIME_KW), (''CURRENT'', TK_CURRENT),
      (''PRECEDING'', TK_PRECEDING), (''FAIL'', TK_FAIL), (''LAST'', TK_LAST), (''FILTER'', TK_FILTER),
      (''REPLACE'', TK_REPLACE), (''FIRST'', TK_FIRST), (''FOLLOWING'', TK_FOLLOWING), (''FROM'', TK_FROM),
      (''FULL'', TK_JOIN_KW), (''LIMIT'', TK_LIMIT), (''IF'', TK_IF), (''ORDER'', TK_ORDER),
      (''RESTRICT'', TK_RESTRICT), (''OTHERS'', TK_OTHERS), (''OVER'', TK_OVER), (''RETURNING'', TK_RETURNING),
      (''RIGHT'', TK_JOIN_KW), (''ROLLBACK'', TK_ROLLBACK), (''ROWS'', TK_ROWS), (''ROW'', TK_ROW),
      (''UNBOUNDED'', TK_UNBOUNDED), (''UNION'', TK_UNION), (''USING'', TK_USING), (''VACUUM'', TK_VACUUM),
      (''VIEW'', TK_VIEW), (''WINDOW'', TK_WINDOW), (''DO'', TK_DO), (''BY'', TK_BY),
      (''INITIALLY'', TK_INITIALLY), (''ALL'', TK_ALL), (''PRIMARY'', TK_PRIMARY)]"

definition sql_word_code :: "u8 list \<Rightarrow> nat" where
  "sql_word_code w =
     (case find (\<lambda>k. map UpperToLower (bytes_of (fst k)) = map UpperToLower w) sql_keywords of
        None \<Rightarrow> TK_ID | Some k \<Rightarrow> snd k)"

definition upcase :: "u8 \<Rightarrow> u8" where "upcase b = b AND NOT 0x20"

definition kw_letter :: "u8 \<Rightarrow> bool" where
  "kw_letter b \<longleftrightarrow> 0x41 \<le> b \<and> b \<le> 0x5A \<or> b = 0x5F"

definition up_nat :: "nat \<Rightarrow> nat" where "up_nat n = (if n div 32 mod 2 = 1 then n - 32 else n)"

text \<open>The chains of the hash table written out, and the bucket of each keyword.\<close>

fun kw_path :: "nat \<Rightarrow> nat \<Rightarrow> nat list option" where
  "kw_path 0 i = None"
| "kw_path (Suc fuel) i = (if i = 0 then Some [] else map_option (Cons i) (kw_path fuel (aKWNext ! i)))"

definition kw_buckets :: "nat list list" where
  "kw_buckets =
     [[84], [92], [134, 55], [82], [105], [29], [], [], [94, 66], [], [85], [72],
      [], [53], [35, 12], [86], [15, 2], [], [42, 133], [97], [54, 59], [89, 127], [135], [19],
      [], [], [140, 33], [], [40, 138, 95, 63], [129], [], [22, 13], [107], [], [9], [],
      [], [123, 79, 75], [80], [], [78, 1], [6], [], [65], [103, 16], [147, 87], [], [136, 76, 58],
      [115, 81], [], [], [48, 28], [], [90], [24], [], [17], [], [27, 141, 57], [70],
      [23], [26], [5, 4], [60], [142, 25], [110], [122], [], [73, 146], [91, 104, 8], [71], [145],
      [61], [120, 7, 43], [74, 3], [], [49, 77], [], [11, 114], [41], [], [113], [], [],
      [], [109], [10, 106], [111], [116, 101, 46], [125, 118, 112], [14], [50], [124, 96], [], [100], [],
      [18, 143], [121, 67, 69], [144, 102], [56, 47], [130], [139, 32], [88], [83, 31, 52], [37], [30, 119, 21], [126], [],
      [], [108], [51], [131, 99], [128, 68], [], [34, 137], [], [], [132, 44], [], [98],
      [38, 62], [39], [], [20], [45, 36], [117], [93, 64]]"
definition kw_hashes :: "nat list" where
  "kw_hashes = [40, 16, 74, 62, 62, 41, 73, 69, 34, 86, 78, 14, 31, 90, 16, 44, 56, 96,
      23, 123, 105, 31, 60, 54, 64, 61, 58, 51, 5, 105, 103, 101, 26, 114, 14, 124,
      104, 120, 121, 28, 79, 18, 73, 117, 124, 88, 99, 51, 76, 91, 110, 103, 13, 20,
      2, 99, 58, 47, 20, 63, 72, 120, 28, 126, 43, 8, 97, 112, 97, 59, 70, 11,
      68, 74, 37, 47, 76, 40, 37, 38, 48, 3, 103, 0, 10, 15, 45, 102, 21, 53,
      69, 1, 126, 8, 28, 92, 19, 119, 111, 94, 88, 98, 44, 69, 4, 86, 32, 109,
      85, 65, 87, 89, 81, 78, 48, 88, 125, 89, 105, 73, 97, 66, 37, 92, 89, 106,
      21, 112, 29, 100, 111, 117, 18, 2, 22, 47, 114, 28, 101, 26, 58, 64, 96, 98,
      71, 68, 45]"

lemma kw_path_simps: "kw_path 5 i = (if i = 0 then Some [] else map_option (Cons i) (kw_path 4 (aKWNext ! i)))"
 "kw_path 4 i = (if i = 0 then Some [] else map_option (Cons i) (kw_path 3 (aKWNext ! i)))"
 "kw_path 3 i = (if i = 0 then Some [] else map_option (Cons i) (kw_path 2 (aKWNext ! i)))"
 "kw_path 2 i = (if i = 0 then Some [] else map_option (Cons i) (kw_path 1 (aKWNext ! i)))"
 "kw_path 1 i = (if i = 0 then Some [] else None)"
  by (simp_all add: eval_nat_numeral)

fun kw_cut :: "string \<Rightarrow> nat \<Rightarrow> nat list \<Rightarrow> nat list \<Rightarrow> string list \<Rightarrow> bool" where
  "kw_cut t base (n # ns) (off # offs) (k # ks) = (take n (drop (off - base) t) = k \<and> base \<le> off \<and> 
      kw_cut (drop (off - base) t) off ns offs ks)"
| "kw_cut t base ns offs ks = (ns = [] \<and> offs = [] \<and> ks = [])"

lemma kw_cut_ok: "kw_cut zKWText 0 (tl aKWLen) (tl aKWOffset) (map fst sql_keywords)"
  by (simp add: aKWLen_def aKWOffset_def zKWText_def sql_keywords_def)

lemma kw_paths: "map (kw_path 5) aKWHash = map Some kw_buckets"
  by (simp add: aKWHash_def kw_buckets_def kw_path_simps aKWNext_def)
lemma length_sql_keywords [simp]: "length sql_keywords = 147"
  by (simp add: sql_keywords_def)

lemma kw_codes: "tl aKWCode = map snd sql_keywords"
  by (simp add: aKWCode_def sql_keywords_def)
lemma kw_lens: "tl aKWLen = map (length \<circ> fst) sql_keywords"
  by (simp add: aKWLen_def sql_keywords_def)
lemma kw_distinct: "distinct (map fst sql_keywords)"
  by (simp add: sql_keywords_def)
lemma kw_hash: "map2 (\<lambda>k n. kw_index (bytes_of (fst k)) n) sql_keywords (tl aKWLen) = kw_hashes"
  by (simp add: sql_keywords_def aKWLen_def kw_hashes_def kw_index_def bytes_of_def UpperToLower_eq byte_of_def)
lemma kw_member: "list_all (\<lambda>(i, h). i \<in> set (kw_buckets ! h)) (enumerate 1 kw_hashes)"
  by (simp add: kw_buckets_def kw_hashes_def)
lemma kw_cut_nth:
  "kw_cut t base ns offs ks \<Longrightarrow> i < length ks \<Longrightarrow>
   base \<le> offs ! i \<and> take (ns ! i) (drop (offs ! i - base) t) = ks ! i"
proof (induction t base ns offs ks arbitrary: i rule: kw_cut.induct)
  case (1 t base n ns off offs k ks)
  then show ?case
    by (cases i) (fastforce simp: add.commute)+
qed auto

lemma kw_entry:
  assumes "i < 147"
  shows "aKWLen ! Suc i = length (fst (sql_keywords ! i))"
    and "aKWCode ! Suc i = snd (sql_keywords ! i)"
    and "take (aKWLen ! Suc i) (drop (aKWOffset ! Suc i) zKWText) = fst (sql_keywords ! i)"
    and "kw_index (bytes_of (fst (sql_keywords ! i))) (aKWLen ! Suc i) = kw_hashes ! i"
    and "Suc i \<in> set (kw_buckets ! (kw_hashes ! i))"
proof -
  have n: "length aKWLen = 148" "length aKWCode = 148" "length aKWOffset = 148"
    "length kw_hashes = 147"
    by (simp_all add: aKWLen_def aKWCode_def aKWOffset_def kw_hashes_def)
  have l: "aKWLen ! Suc i = tl aKWLen ! i" "aKWCode ! Suc i = tl aKWCode ! i" "aKWOffset ! Suc i = tl aKWOffset ! i"
    using assms n by (simp_all add: nth_tl)
  show "aKWLen ! Suc i = length (fst (sql_keywords ! i))" "aKWCode ! Suc i = snd (sql_keywords ! i)"
    using assms n by (simp_all add: l kw_lens kw_codes)
  show "take (aKWLen ! Suc i) (drop (aKWOffset ! Suc i) zKWText) = fst (sql_keywords ! i)"
    using kw_cut_nth [OF kw_cut_ok, of i] assms n by (simp add: l)
  show "kw_index (bytes_of (fst (sql_keywords ! i))) (aKWLen ! Suc i) = kw_hashes ! i"
    using arg_cong [OF kw_hash, of "\<lambda>xs. xs ! i"] assms n by (simp add: l)
  show "Suc i \<in> set (kw_buckets ! (kw_hashes ! i))"
    using kw_member assms n by (auto simp: list_all_iff in_set_enumerate_eq)
qed

lemma kw_chain_path:
  "kw_path fuel i = Some is \<Longrightarrow> fuel \<le> fuel' \<Longrightarrow>
   kw_chain fuel' z n t i = Some (case find (kw_here z n) is of None \<Rightarrow> t | Some j \<Rightarrow> aKWCode ! j)"
proof (induction fuel i arbitrary: "is" fuel' rule: kw_path.induct)
  case (2 fuel i)
  then obtain f where "fuel' = Suc f" "fuel \<le> f" by (cases fuel') auto
  with 2 show ?case by (cases fuel') (auto split: if_splits)
qed simp

lemma kw_chain_bucket:
  assumes "h < 127"
  shows "kw_chain 148 z n t (aKWHash ! h) =
    Some (case find (kw_here z n) (kw_buckets ! h) of None \<Rightarrow> t | Some j \<Rightarrow> aKWCode ! j)"
proof -
  have "length aKWHash = 127" "length kw_buckets = 127" by (simp_all add: aKWHash_def kw_buckets_def)
  with assms have "kw_path 5 (aKWHash ! h) = Some (kw_buckets ! h)"
    using arg_cong [OF kw_paths, of "\<lambda>xs. xs ! h"] by simp
  then show ?thesis by (rule kw_chain_path) simp
qed

lemma kw_buckets_range: "list_all (list_all (\<lambda>i. 1 \<le> i \<and> i < 148)) kw_buckets"
  by (simp add: kw_buckets_def)

lemma kw_same_iff:
  "kw_same z i j k \<longleftrightarrow> (\<forall>m < k. upcase (at z (j + m)) = kw_char i (j + m))"
proof (induction k arbitrary: j)
  case (Suc k)
  show ?case by (auto simp: Suc.IH upcase_def less_Suc_eq_0_disj)
qed simp

lemma kw_here_iff:
  assumes "i < 147" "2 \<le> n" "n \<le> length z"
  shows "kw_here z n (Suc i) \<longleftrightarrow> map upcase (take n z) = bytes_of (fst (sql_keywords ! i))"
proof -
  let ?k = "fst (sql_keywords ! i)"
  have ch: "kw_char (Suc i) m = byte_of (?k ! m)" if "m < length ?k" for m
  proof -
    have "m < length (drop (aKWOffset ! Suc i) zKWText)"
      using that arg_cong [OF kw_entry(3) [OF assms(1)], of length] by simp
    then show ?thesis
      using that by (simp add: kw_char_def flip: kw_entry(1,3) [OF assms(1)])
  qed
  have "kw_here z n (Suc i) \<longleftrightarrow> length ?k = n \<and> (\<forall>m < n. upcase (at z m) = kw_char (Suc i) m)"
  proof -
    obtain k where "n = Suc (Suc k)"
      using assms(2) by (metis Suc_le_D numeral_2_eq_2 Suc_le_mono)
    then show ?thesis
      by (auto simp: kw_here_def kw_same_iff kw_entry(1) [OF assms(1)] upcase_def All_less_Suc2)
  qed
  also have "\<dots> \<longleftrightarrow> map upcase (take n z) = bytes_of ?k"
    using assms ch by (auto simp: list_eq_iff_nth_eq bytes_of_def)
  finally show ?thesis .
qed

lemma upcase_table: "map (\<lambda>n. unat (upcase (of_nat n))) [0..<256] = map up_nat [0..<256]"
  by (simp add: upt_256 up_nat_def upcase_def)

lemma upcase_eq: "unat (upcase b) = up_nat (unat b)"
proof -
  have "unat b < 256" using unsigned_less [of b] by simp
  then show ?thesis using arg_cong [OF upcase_table, of "\<lambda>xs. xs ! unat b"] by simp
qed

lemma unat_UpperToLower: "unat (UpperToLower b) = fold_nat (unat b)"
  using unsigned_less [of b] by (auto simp: UpperToLower_eq fold_nat_def word_le_nat_alt unat_word_ariths)

lemma up_nat_eq:
  assumes "64 \<le> c" "c < 96"
  shows "up_nat b = c \<longleftrightarrow> b = c \<or> b = c + 32"
proof -
  have "c div 32 = 2" "(c + 32) div 32 = 3" using assms by auto
  then show ?thesis using assms by (auto simp: up_nat_def)
qed

lemma upcase_letter:
  assumes "kw_letter c"
  shows "upcase b = c \<longleftrightarrow> (UpperToLower b = UpperToLower c \<or> b = 0x7F \<and> c = 0x5F)"
proof -
  have l: "unat b < 256" using unsigned_less [of b] by simp
  have c: "65 \<le> unat c \<and> unat c \<le> 90 \<or> unat c = 95"
    using assms by (auto simp: kw_letter_def word_le_nat_alt)
  have "upcase b = c \<longleftrightarrow> up_nat (unat b) = unat c"
    by (metis upcase_eq word_unat_eq_iff)
  also have "\<dots> \<longleftrightarrow> (fold_nat (unat b) = fold_nat (unat c) \<or> unat b = 127 \<and> unat c = 95)"
    using up_nat_eq [of "unat c" "unat b"] c l by (auto simp: fold_nat_def)
  also have "\<dots> \<longleftrightarrow> (UpperToLower b = UpperToLower c \<or> b = 0x7F \<and> c = 0x5F)"
    by (simp add: word_unat_eq_iff unat_UpperToLower)
  finally show ?thesis .
qed
lemma kw_ascii: "list_all (\<lambda>k. 2 \<le> length (fst k) \<and> list_all (\<lambda>c. kw_letter (byte_of c)) (fst k) \<and> hd (fst k) \<noteq> CHR ''_'' \<and> last (fst k) \<noteq> CHR ''_'') sql_keywords"
  by (simp add: sql_keywords_def kw_letter_def byte_of_def)
lemma keyword_match:
  assumes "k \<in> set sql_keywords" "0x7F \<notin> set w"
  shows "map upcase w = bytes_of (fst k) \<longleftrightarrow> map UpperToLower (bytes_of (fst k)) = map UpperToLower w"
proof -
  have "upcase a = b \<longleftrightarrow> UpperToLower b = UpperToLower a" if "a \<in> set w" "b \<in> set (bytes_of (fst k))" for a b
    using that assms kw_ascii upcase_letter [of b a] by (auto simp: list_all_iff bytes_of_def)
  then show ?thesis
    by (auto simp: list_eq_iff_nth_eq)
qed

lemma keyword_hash:
  assumes "i < 147" "n \<le> length z" "map upcase (take n z) = bytes_of (fst (sql_keywords ! i))"
  shows "kw_index z n = kw_hashes ! i"
proof -
  let ?k = "fst (sql_keywords ! i)"
  have n: "length ?k = n" using assms(2,3) by (metis bytes_of_def length_map length_take min.absorb2)
  have mem: "sql_keywords ! i \<in> set sql_keywords"
    using assms(1) by simp
  have k: "2 \<le> n" "hd ?k \<noteq> CHR ''_''" "last ?k \<noteq> CHR ''_''" "\<forall>c \<in> set ?k. kw_letter (byte_of c)"
    using kw_ascii mem n by (auto simp: list_all_iff)
  have up: "upcase (z ! m) = byte_of (?k ! m)" if "m < n" for m
    using arg_cong [OF assms(3), of "\<lambda>xs. xs ! m"] that assms(2) n by (simp add: bytes_of_def)
  have "UpperToLower (z ! m) = UpperToLower (byte_of (?k ! m))" if "m < n" "?k ! m \<noteq> CHR ''_''" for m
  proof -
    have "byte_of (?k ! m) \<noteq> 0x5F" using that(2) byte_of_inj [of "?k ! m" "CHR ''_''"] by (simp add: byte_of_def)
    then show ?thesis using upcase_letter [of "byte_of (?k ! m)" "z ! m"] up [OF that(1)] k(4) n that(1) by simp
  qed
  note lower = this
  have "0 < n" "n - 1 < n" "?k \<noteq> []" "z \<noteq> []" using k(1) n assms(2) by auto
  then have "UpperToLower (at z 0) = UpperToLower (at (bytes_of ?k) 0)"
    "UpperToLower (at z (n - 1)) = UpperToLower (at (bytes_of ?k) (n - 1))"
    using lower [of 0] lower [of "n - 1"] k(2,3) n assms(2)
    by (simp_all add: bytes_of_def hd_conv_nth last_conv_nth at_def)
  then show ?thesis
    using kw_entry(1,4) [OF assms(1)] n by (simp add: kw_index_def)
qed

lemma bytes_of_inj: "bytes_of s = bytes_of t \<longleftrightarrow> s = t"
  unfolding bytes_of_def by (rule inj_map_eq_map) (auto intro: injI)

lemma length_kw_buckets [simp]: "length kw_buckets = 127"
  by (simp add: kw_buckets_def)

lemma find_unique:
  assumes "x \<in> set xs" "P x" "\<And>y. y \<in> set xs \<Longrightarrow> P y \<Longrightarrow> y = x"
  shows "find P xs = Some x"
proof (cases "find P xs")
  case (Some y)
  then have "y \<in> set xs" "P y" by (auto simp: find_Some_iff)
  with assms(3) Some show ?thesis by simp
qed (use assms(1,2) in \<open>auto simp: find_None_iff\<close>)

lemma keywordCode_eq:
  assumes n: "2 \<le> n" "n \<le> length z"
  shows "keywordCode z n t =
    Some (case find (\<lambda>k. map upcase (take n z) = bytes_of (fst k)) sql_keywords of None \<Rightarrow> t | Some k \<Rightarrow> snd k)"
    (is "_ = Some (case find ?P _ of None \<Rightarrow> _ | Some k \<Rightarrow> _ k)")
proof -
  let ?b = "kw_buckets ! kw_index z n"
  have h: "kw_index z n < 127" by (simp add: kw_index_def)
  have b: "\<exists>i < 147. j = Suc i" if "j \<in> set ?b" for j
  proof -
    have "?b \<in> set kw_buckets" using h by simp
    then show ?thesis using kw_buckets_range that by (cases j) (fastforce simp: list_all_iff)+
  qed
  have here: "kw_here z n (Suc i) \<longleftrightarrow> ?P (sql_keywords ! i)" if "i < 147" for i
    using kw_here_iff [OF that n] .
  have uniq: "i = j" if "i < 147" "j < 147" "?P (sql_keywords ! i)" "?P (sql_keywords ! j)" for i j
    using that nth_eq_iff_index_eq [OF kw_distinct, of i j] by (simp add: bytes_of_inj)
  show ?thesis
  proof (cases "\<exists>i < 147. ?P (sql_keywords ! i)")
    case True
    then obtain i where i: "i < 147" "?P (sql_keywords ! i)" by blast
    have "find (kw_here z n) ?b = Some (Suc i)"
      using i b here uniq kw_entry(5) [OF i(1)] keyword_hash [OF i(1) n(2) i(2)]
      by (intro find_unique) auto
    moreover have "find ?P sql_keywords = Some (sql_keywords ! i)"
    proof (rule find_unique)
      fix k assume "k \<in> set sql_keywords" "?P k"
      then obtain j where "j < 147" "k = sql_keywords ! j" by (auto simp: in_set_conv_nth)
      with \<open>?P k\<close> i uniq [of j i] show "k = sql_keywords ! i" by simp
    qed (use i in auto)
    ultimately show ?thesis
      using kw_entry(2) [OF i(1)] by (simp add: keywordCode_def kw_chain_bucket [OF h])
  next
    case False
    have "find (kw_here z n) ?b = None" using False b here by (auto simp: find_None_iff)
    moreover have "find ?P sql_keywords = None"
      using False by (auto simp: find_None_iff in_set_conv_nth)
    ultimately show ?thesis by (simp add: keywordCode_def kw_chain_bucket [OF h])
  qed
qed

lemma sqlite3KeywordCode_eq:
  assumes "n \<le> length z" "0x7F \<notin> set (take n z)"
  shows "sqlite3KeywordCode z n = Some (sql_word_code (take n z))"
proof (cases "2 \<le> n")
  case True
  have "find (\<lambda>k. map upcase (take n z) = bytes_of (fst k)) sql_keywords =
    find (\<lambda>k. map UpperToLower (bytes_of (fst k)) = map UpperToLower (take n z)) sql_keywords"
    using keyword_match assms(2) by (intro find_cong) auto
  with True assms(1) show ?thesis
    by (simp add: sqlite3KeywordCode_def keywordCode_eq sql_word_code_def)
next
  case False
  have "map UpperToLower (bytes_of (fst k)) \<noteq> map UpperToLower (take n z)" if "k \<in> set sql_keywords" for k
  proof
    assume "map UpperToLower (bytes_of (fst k)) = map UpperToLower (take n z)"
    then have "length (fst k) = length (take n z)" by (metis bytes_of_def length_map)
    with False that kw_ascii show False by (auto simp: list_all_iff)
  qed
  then have "find (\<lambda>k. map UpperToLower (bytes_of (fst k)) = map UpperToLower (take n z)) sql_keywords = None"
    by (auto simp: find_None_iff)
  with False show ?thesis by (simp add: sqlite3KeywordCode_def sql_word_code_def)
qed

text \<open>A DEL byte in the place of an underscore is not noticed.\<close>

lemma keyword_with_del:
  "sqlite3KeywordCode (bytes_of ''CURRENT'' @ [0x7F] @ bytes_of ''DATE'') 12 = Some TK_CTIME_KW"
  by (simp add: sqlite3KeywordCode_def keywordCode_eq upcase_def bytes_of_def byte_of_def sql_keywords_def)

lemma sqlite3_keyword_name_eq:
  "sqlite3_keyword_name i =
     (if 0 \<le> i \<and> i < sqlite3_keyword_count then Some (fst (sql_keywords ! nat i)) else None)"
  using kw_entry(3) [of "nat i"]
  by (auto simp: sqlite3_keyword_name_def sqlite3_keyword_count_def nat_add_distrib)

end
