(* ===== verification/Sqlite_Tokenize.thy ===== *)
theory Sqlite_Tokenize
  imports Sqlite_Keywords
begin

text \<open>
  The tokenizer of the bundled SQLite (\<^verbatim>\<open>tokenize.c\<close> in \<^verbatim>\<open>sqlite3/sqlite3.c\<close>, ASCII build): the character
  classes and \<^verbatim>\<open>sqlite3GetToken\<close>, one definition per loop and per non-trivial branch of its switch.
  A text is the list of its bytes before the terminator; reading past the end gives the
  terminator (\<open>at\<close>). Every call returns, consumes at least one byte of a non-empty text, ends the token
  within it and does not depend on the bytes behind the terminator; quoted text and words are single
  tokens.
\<close>

section \<open>Character classes\<close>

abbreviation (input) CC_X :: nat where "CC_X \<equiv> 0"
abbreviation (input) CC_KYWD0 :: nat where "CC_KYWD0 \<equiv> 1"
abbreviation (input) CC_KYWD :: nat where "CC_KYWD \<equiv> 2"
abbreviation (input) CC_DIGIT :: nat where "CC_DIGIT \<equiv> 3"
abbreviation (input) CC_DOLLAR :: nat where "CC_DOLLAR \<equiv> 4"
abbreviation (input) CC_VARALPHA :: nat where "CC_VARALPHA \<equiv> 5"
abbreviation (input) CC_VARNUM :: nat where "CC_VARNUM \<equiv> 6"
abbreviation (input) CC_SPACE :: nat where "CC_SPACE \<equiv> 7"
abbreviation (input) CC_QUOTE :: nat where "CC_QUOTE \<equiv> 8"
abbreviation (input) CC_QUOTE2 :: nat where "CC_QUOTE2 \<equiv> 9"
abbreviation (input) CC_PIPE :: nat where "CC_PIPE \<equiv> 10"
abbreviation (input) CC_MINUS :: nat where "CC_MINUS \<equiv> 11"
abbreviation (input) CC_LT :: nat where "CC_LT \<equiv> 12"
abbreviation (input) CC_GT :: nat where "CC_GT \<equiv> 13"
abbreviation (input) CC_EQ :: nat where "CC_EQ \<equiv> 14"
abbreviation (input) CC_BANG :: nat where "CC_BANG \<equiv> 15"
abbreviation (input) CC_SLASH :: nat where "CC_SLASH \<equiv> 16"
abbreviation (input) CC_LP :: nat where "CC_LP \<equiv> 17"
abbreviation (input) CC_RP :: nat where "CC_RP \<equiv> 18"
abbreviation (input) CC_SEMI :: nat where "CC_SEMI \<equiv> 19"
abbreviation (input) CC_PLUS :: nat where "CC_PLUS \<equiv> 20"
abbreviation (input) CC_STAR :: nat where "CC_STAR \<equiv> 21"
abbreviation (input) CC_PERCENT :: nat where "CC_PERCENT \<equiv> 22"
abbreviation (input) CC_COMMA :: nat where "CC_COMMA \<equiv> 23"
abbreviation (input) CC_AND :: nat where "CC_AND \<equiv> 24"
abbreviation (input) CC_TILDA :: nat where "CC_TILDA \<equiv> 25"
abbreviation (input) CC_DOT :: nat where "CC_DOT \<equiv> 26"
abbreviation (input) CC_ID :: nat where "CC_ID \<equiv> 27"
abbreviation (input) CC_ILLEGAL :: nat where "CC_ILLEGAL \<equiv> 28"
abbreviation (input) CC_NUL :: nat where "CC_NUL \<equiv> 29"
abbreviation (input) CC_BOM :: nat where "CC_BOM \<equiv> 30"

definition aiClass :: "nat list" where
  "aiClass =
     [29, 28, 28, 28, 28, 28, 28, 28, 28, 7, 7, 28, 7, 7, 28, 28,
      28, 28, 28, 28, 28, 28, 28, 28, 28, 28, 28, 28, 28, 28, 28, 28,
      7, 15, 8, 5, 4, 22, 24, 8, 17, 18, 21, 20, 23, 11, 26, 16,
      3, 3, 3, 3, 3, 3, 3, 3, 3, 3, 5, 19, 12, 14, 13, 6,
      5, 1, 1, 1, 1, 1, 1, 1, 1, 1, 1, 1, 1, 1, 1, 1,
      1, 1, 1, 1, 1, 1, 1, 1, 0, 2, 2, 9, 28, 28, 28, 2,
      8, 1, 1, 1, 1, 1, 1, 1, 1, 1, 1, 1, 1, 1, 1, 1,
      1, 1, 1, 1, 1, 1, 1, 1, 0, 2, 2, 28, 10, 28, 25, 28,
      27, 27, 27, 27, 27, 27, 27, 27, 27, 27, 27, 27, 27, 27, 27, 27,
      27, 27, 27, 27, 27, 27, 27, 27, 27, 27, 27, 27, 27, 27, 27, 27,
      27, 27, 27, 27, 27, 27, 27, 27, 27, 27, 27, 27, 27, 27, 27, 27,
      27, 27, 27, 27, 27, 27, 27, 27, 27, 27, 27, 27, 27, 27, 27, 27,
      27, 27, 27, 27, 27, 27, 27, 27, 27, 27, 27, 27, 27, 27, 27, 27,
      27, 27, 27, 27, 27, 27, 27, 27, 27, 27, 27, 27, 27, 27, 27, 27,
      27, 27, 27, 27, 27, 27, 27, 27, 27, 27, 27, 27, 27, 27, 27, 30,
      27, 27, 27, 27, 27, 27, 27, 27, 27, 27, 27, 27, 27, 27, 27, 27]"

definition char_class :: "u8 \<Rightarrow> nat" where
  "char_class b = aiClass ! unat b"

section \<open>Loops\<close>

text \<open>
  \<open>run P z i\<close> is \<^verbatim>\<open>while( P(z[i]) ) i++\<close>. The source has no test of the length: the conditions it uses
  are false of the terminator. Here the loop also ends with the list, which stands for the end of
  the memory; that no call depends on this is shown below for lists that go on behind the
  terminator (\<open>sqlite3GetToken_terminated\<close>).
\<close>

function run :: "(u8 \<Rightarrow> bool) \<Rightarrow> u8 list \<Rightarrow> nat \<Rightarrow> nat" where
  "run P z i = (if i < length z \<and> P (at z i) then run P z (Suc i) else i)"
  by pat_completeness auto
termination
  by (relation "measure (\<lambda>(P, z, i). length z - i)") auto

text \<open>The loop over digits and digit separators, which turns the token into a quoted number.\<close>

function digit_loop :: "(u8 \<Rightarrow> bool) \<Rightarrow> u8 list \<Rightarrow> nat \<Rightarrow> nat \<Rightarrow> nat \<times> nat" where
  "digit_loop D z i t =
     (if i < length z \<and> D (at z i) then digit_loop D z (Suc i) t
      else if i < length z \<and> at z i = 0x5F then digit_loop D z (Suc i) TK_QNUMBER
      else (i, t))"
  by pat_completeness auto
termination
  by (relation "measure (\<lambda>(D, z, i, t). length z - i)") auto

text \<open>The body of a C comment; the result is the last value of \<^verbatim>\<open>c\<close> and the position.\<close>

function comment_loop :: "u8 list \<Rightarrow> u8 \<Rightarrow> nat \<Rightarrow> u8 \<times> nat" where
  "comment_loop z c i =
     (if c \<noteq> 0x2A \<or> at z i \<noteq> 0x2F
      then (if at z i \<noteq> 0 then comment_loop z (at z i) (Suc i) else (0, i))
      else (c, i))"
  by pat_completeness auto
termination
  by (relation "measure (\<lambda>(z, c, i). length z - i)") (auto simp: at_def split: if_splits)

text \<open>Quoted text, where a doubled delimiter stands for one.\<close>

function quote_loop :: "u8 \<Rightarrow> u8 list \<Rightarrow> nat \<Rightarrow> u8 \<times> nat" where
  "quote_loop delim z i =
     (if at z i = 0 then (0, i)
      else if at z i = delim
           then (if at z (Suc i) = delim then quote_loop delim z (i + 2) else (delim, i))
           else quote_loop delim z (Suc i))"
  by pat_completeness auto
termination
  by (relation "measure (\<lambda>(d, z, i). length z - i)") (auto simp: at_def split: if_splits)

function bracket_loop :: "u8 list \<Rightarrow> u8 \<Rightarrow> nat \<Rightarrow> u8 \<times> nat" where
  "bracket_loop z c i =
     (if c \<noteq> 0x5D
      then (if at z i \<noteq> 0 then bracket_loop z (at z i) (Suc i) else (0, i))
      else (c, i))"
  by pat_completeness auto
termination
  by (relation "measure (\<lambda>(z, c, i). length z - i)") (auto simp: at_def split: if_splits)

text \<open>
  The name of a variable: \<open>n\<close> counts its identifier characters; a parenthesised suffix and the
  double colon belong to Tcl variable names. The result is the position, the count and the type.
\<close>

definition paren_suffix :: "u8 list \<Rightarrow> nat \<Rightarrow> nat \<Rightarrow> nat \<Rightarrow> nat \<times> nat \<times> nat" where
  "paren_suffix z i n t =
     (let i = run (\<lambda>c. c \<noteq> 0 \<and> \<not> sqlite3Isspace c \<and> c \<noteq> 0x29) z (Suc i)
      in if at z i = 0x29 then (Suc i, n, t) else (i, n, TK_ILLEGAL))"

function variable_loop :: "u8 list \<Rightarrow> nat \<Rightarrow> nat \<Rightarrow> nat \<Rightarrow> nat \<times> nat \<times> nat" where
  "variable_loop z i n t =
     (if at z i = 0 then (i, n, t)
      else if IdChar (at z i) then variable_loop z (Suc i) (Suc n) t
      else if at z i = 0x28 \<and> n > 0 then paren_suffix z i n t
      else if at z i = 0x3A \<and> at z (Suc i) = 0x3A then variable_loop z (i + 2) n t
      else (i, n, t))"
  by pat_completeness auto
termination
  by (relation "measure (\<lambda>(z, i, n, t). length z - i)") (auto simp: at_def split: if_splits)

lemmas loop_simps =
  run.simps digit_loop.simps comment_loop.simps quote_loop.simps bracket_loop.simps variable_loop.simps

declare loop_simps [simp del]

section \<open>Tokens\<close>

text \<open>
  Each branch gives the length of the token and its type. \<open>id_tail\<close> is the code behind the switch,
  reached by \<^verbatim>\<open>break\<close>.
\<close>

definition id_tail :: "u8 list \<Rightarrow> nat \<Rightarrow> nat \<times> nat" where
  "id_tail z i = (run IdChar z i, TK_ID)"

definition minus_token :: "u8 list \<Rightarrow> nat \<times> nat" where
  "minus_token z =
     (if at z 1 = 0x2D then (run (\<lambda>c. c \<noteq> 0 \<and> c \<noteq> 0x0A) z 2, TK_COMMENT)
      else if at z 1 = 0x3E then (2 + (if at z 2 = 0x3E then 1 else 0), TK_PTR)
      else (1, TK_MINUS))"

definition slash_token :: "u8 list \<Rightarrow> nat \<times> nat" where
  "slash_token z =
     (if at z 1 \<noteq> 0x2A \<or> at z 2 = 0 then (1, TK_SLASH)
      else let (c, i) = comment_loop z (at z 2) 3
           in (if c \<noteq> 0 then Suc i else i, TK_COMMENT))"

definition quote_token :: "u8 list \<Rightarrow> nat \<times> nat" where
  "quote_token z =
     (let (c, i) = quote_loop (at z 0) z 1
      in if c = 0x27 then (Suc i, TK_STRING) else if c \<noteq> 0 then (Suc i, TK_ID) else (i, TK_ILLEGAL))"

definition exponent :: "u8 list \<Rightarrow> nat \<times> nat \<Rightarrow> nat \<times> nat" where
  "exponent z = (\<lambda>(i, t).
     if (at z i = 0x65 \<or> at z i = 0x45) \<and>
        (sqlite3Isdigit (at z (i + 1)) \<or>
         (at z (i + 1) = 0x2B \<or> at z (i + 1) = 0x2D) \<and> sqlite3Isdigit (at z (i + 2)))
     then digit_loop sqlite3Isdigit z (i + 2) (if t = TK_INTEGER then TK_FLOAT else t)
     else (i, t))"

definition fraction :: "u8 list \<Rightarrow> nat \<times> nat \<Rightarrow> nat \<times> nat" where
  "fraction z = (\<lambda>(i, t).
     if at z i = 0x2E
     then digit_loop sqlite3Isdigit z (Suc i) (if t = TK_INTEGER then TK_FLOAT else t)
     else (i, t))"

definition number_token :: "u8 list \<Rightarrow> nat \<times> nat" where
  "number_token z =
     (let (i, t) =
        (if at z 0 = 0x30 \<and> (at z 1 = 0x78 \<or> at z 1 = 0x58) \<and> sqlite3Isxdigit (at z 2)
         then digit_loop sqlite3Isxdigit z 3 TK_INTEGER
         else exponent z (fraction z (digit_loop sqlite3Isdigit z 0 TK_INTEGER)))
      in if IdChar (at z i) then (run IdChar z i, TK_ILLEGAL) else (i, t))"

definition bracket_token :: "u8 list \<Rightarrow> nat \<times> nat" where
  "bracket_token z =
     (let (c, i) = bracket_loop z (at z 0) 1 in (i, if c = 0x5D then TK_ID else TK_ILLEGAL))"

definition variable_token :: "u8 list \<Rightarrow> nat \<times> nat" where
  "variable_token z =
     (let (i, n, t) = variable_loop z 1 0 TK_VARIABLE in (i, if n = 0 then TK_ILLEGAL else t))"

definition word_token :: "u8 list \<Rightarrow> (nat \<times> nat) option" where
  "word_token z =
     (if char_class (at z 1) > CC_KYWD then Some (id_tail z 1)
      else let i = run (\<lambda>c. char_class c \<le> CC_KYWD) z 2
           in if IdChar (at z i) then Some (id_tail z (Suc i))
              else map_option (Pair i) (keywordCode z i TK_ID))"

definition x_token :: "u8 list \<Rightarrow> nat \<times> nat" where
  "x_token z =
     (if at z 1 = 0x27
      then let i = run sqlite3Isxdigit z 2;
               bad = (at z i \<noteq> 0x27 \<or> odd i);
               i = (if bad then run (\<lambda>c. c \<noteq> 0 \<and> c \<noteq> 0x27) z i else i)
           in (if at z i \<noteq> 0 then Suc i else i, if bad then TK_ILLEGAL else TK_BLOB)
      else id_tail z 1)"

definition sqlite3GetToken :: "u8 list \<Rightarrow> (nat \<times> nat) option" where
  "sqlite3GetToken z =
     (let c = char_class (at z 0)
      in if c = CC_SPACE then Some (run sqlite3Isspace z 1, TK_SPACE)
         else if c = CC_MINUS then Some (minus_token z)
         else if c = CC_LP then Some (1, TK_LP)
         else if c = CC_RP then Some (1, TK_RP)
         else if c = CC_SEMI then Some (1, TK_SEMI)
         else if c = CC_PLUS then Some (1, TK_PLUS)
         else if c = CC_STAR then Some (1, TK_STAR)
         else if c = CC_SLASH then Some (slash_token z)
         else if c = CC_PERCENT then Some (1, TK_REM)
         else if c = CC_EQ then Some (1 + (if at z 1 = 0x3D then 1 else 0), TK_EQ)
         else if c = CC_LT then
           Some (if at z 1 = 0x3D then (2, TK_LE) else if at z 1 = 0x3E then (2, TK_NE)
                 else if at z 1 = 0x3C then (2, TK_LSHIFT) else (1, TK_LT))
         else if c = CC_GT then
           Some (if at z 1 = 0x3D then (2, TK_GE) else if at z 1 = 0x3E then (2, TK_RSHIFT)
                 else (1, TK_GT))
         else if c = CC_BANG then Some (if at z 1 \<noteq> 0x3D then (1, TK_ILLEGAL) else (2, TK_NE))
         else if c = CC_PIPE then Some (if at z 1 \<noteq> 0x7C then (1, TK_BITOR) else (2, TK_CONCAT))
         else if c = CC_COMMA then Some (1, TK_COMMA)
         else if c = CC_AND then Some (1, TK_BITAND)
         else if c = CC_TILDA then Some (1, TK_BITNOT)
         else if c = CC_QUOTE then Some (quote_token z)
         else if c = CC_DOT then
           Some (if \<not> sqlite3Isdigit (at z 1) then (1, TK_DOT) else number_token z)
         else if c = CC_DIGIT then Some (number_token z)
         else if c = CC_QUOTE2 then Some (bracket_token z)
         else if c = CC_VARNUM then Some (run sqlite3Isdigit z 1, TK_VARIABLE)
         else if c = CC_DOLLAR \<or> c = CC_VARALPHA then Some (variable_token z)
         else if c = CC_KYWD0 then word_token z
         else if c = CC_X then Some (x_token z)
         else if c = CC_KYWD \<or> c = CC_ID then Some (id_tail z 1)
         else if c = CC_BOM then
           Some (if at z 1 = 0xBB \<and> at z 2 = 0xBF then (3, TK_SPACE) else id_tail z 1)
         else if c = CC_NUL then Some (0, TK_ILLEGAL)
         else Some (1, TK_ILLEGAL))"

section \<open>Character classes by their members\<close>

definition class_nat :: "nat \<Rightarrow> nat" where
  "class_nat n =
     (if n = 0 then CC_NUL
      else if n \<in> {9, 10, 12, 13, 32} then CC_SPACE
      else if n \<in> {34, 39, 96} then CC_QUOTE
      else if n = 33 then CC_BANG else if n \<in> {35, 58, 64} then CC_VARALPHA
      else if n = 36 then CC_DOLLAR else if n = 37 then CC_PERCENT else if n = 38 then CC_AND
      else if n = 40 then CC_LP else if n = 41 then CC_RP else if n = 42 then CC_STAR
      else if n = 43 then CC_PLUS else if n = 44 then CC_COMMA else if n = 45 then CC_MINUS
      else if n = 46 then CC_DOT else if n = 47 then CC_SLASH
      else if 48 \<le> n \<and> n \<le> 57 then CC_DIGIT
      else if n = 59 then CC_SEMI else if n = 60 then CC_LT else if n = 61 then CC_EQ
      else if n = 62 then CC_GT else if n = 63 then CC_VARNUM
      else if n \<in> {88, 120} then CC_X
      else if 65 \<le> n \<and> n \<le> 87 \<or> 97 \<le> n \<and> n \<le> 119 then CC_KYWD0
      else if n \<in> {89, 90, 95, 121, 122} then CC_KYWD
      else if n = 91 then CC_QUOTE2 else if n = 124 then CC_PIPE else if n = 126 then CC_TILDA
      else if n = 239 then CC_BOM else if 128 \<le> n then CC_ID else CC_ILLEGAL)"

lemma class_table: "aiClass = map class_nat [0..<256]"
  by (simp add: upt_256 aiClass_def class_nat_def)

lemma char_class_eq: "char_class b = class_nat (unat b)"
  using u8_lt [of b] by (simp add: char_class_def class_table)

lemma char_class_iffs:
  "char_class b = CC_SPACE \<longleftrightarrow> b = 0x09 \<or> b = 0x0A \<or> b = 0x0C \<or> b = 0x0D \<or> b = 0x20"
  "char_class b = CC_QUOTE \<longleftrightarrow> b = 0x22 \<or> b = 0x27 \<or> b = 0x60"
  "char_class b = CC_DIGIT \<longleftrightarrow> sqlite3Isdigit b"
  "char_class b = CC_DOT \<longleftrightarrow> b = 0x2E"
  "char_class b = CC_NUL \<longleftrightarrow> b = 0"
  "char_class b = CC_X \<longleftrightarrow> b = 0x58 \<or> b = 0x78"
  "char_class b = CC_BOM \<longleftrightarrow> b = 0xEF"
  unfolding char_class_eq class_nat_def sqlite3Isdigit_iff word_le_nat_alt word_unat_eq_iff
  by simp_all

lemma char_class_word:
  "char_class b \<le> CC_KYWD \<longleftrightarrow> sqlite3Isalpha b \<or> b = 0x5F"
  unfolding char_class_eq class_nat_def sqlite3Isalpha_iff word_le_nat_alt word_unat_eq_iff
  by simp presburger

section \<open>Every token makes progress\<close>

text \<open>In a text without an embedded terminator.\<close>

lemma at_nonzero_iff: "0 \<notin> set z \<Longrightarrow> at z i \<noteq> 0 \<longleftrightarrow> i < length z"
  by (auto simp: at_def dest: nth_mem)

lemma at_cases: "at z i = c \<Longrightarrow> c \<noteq> 0 \<Longrightarrow> i < length z"
  using at_nonzero_less by blast

lemma run_eq: "run P z i = i + length (takeWhile P (drop i z))"
proof (induction P z i rule: run.induct)
  case (1 P z i)
  show ?case
  proof (cases "i < length z")
    case True
    with 1 show ?thesis
      by (subst run.simps) (simp flip: Cons_nth_drop_Suc)
  qed (simp add: run.simps)
qed

lemma run_bounds: "i \<le> length z \<Longrightarrow> i \<le> run P z i \<and> run P z i \<le> length z"
  using length_takeWhile_le [of P "drop i z"] by (simp add: run_eq)

lemma digit_loop_bounds:
  "i \<le> length z \<Longrightarrow> i \<le> fst (digit_loop D z i t) \<and> fst (digit_loop D z i t) \<le> length z"
proof (induction D z i t rule: digit_loop.induct)
  case (1 D z i t)
  then show ?case by (subst (1 2) digit_loop.simps) (auto simp: Suc_le_eq)
qed

lemma digit_loop_ge [intro]: "j \<le> i \<Longrightarrow> i \<le> length z \<Longrightarrow> j \<le> fst (digit_loop D z i t)"
  and digit_loop_le [intro]: "i \<le> length z \<Longrightarrow> fst (digit_loop D z i t) \<le> length z"
  and run_ge [intro]: "j \<le> i \<Longrightarrow> j \<le> run P z i"
  and run_le [intro]: "i \<le> length z \<Longrightarrow> run P z i \<le> length z"
  using digit_loop_bounds [of i z D t] run_bounds [of i z P] by (auto simp: run_eq)

lemma comment_loop_bounds:
  "comment_loop z c i = (c', i') \<Longrightarrow> i \<le> length z \<Longrightarrow> 0 \<notin> set z \<Longrightarrow>
   i \<le> i' \<and> i' \<le> length z \<and> (c' \<noteq> 0 \<longrightarrow> i' < length z)"
proof (induction z c i rule: comment_loop.induct)
  case (1 z c i)
  from "1.prems" show ?case
    using "1.IH" at_cases [of z i "0x2F"] at_nonzero_iff [of z i]
    by (subst (asm) comment_loop.simps) (auto split: if_splits)
qed

lemma quote_loop_bounds:
  "quote_loop d z i = (c', i') \<Longrightarrow> i \<le> length z \<Longrightarrow> 0 \<notin> set z \<Longrightarrow>
   i \<le> i' \<and> i' \<le> length z \<and> (c' \<noteq> 0 \<longrightarrow> i' < length z)"
proof (induction d z i rule: quote_loop.induct)
  case (1 d z i)
  from "1.prems" show ?case
    using "1.IH" at_nonzero_iff [of z i] at_nonzero_iff [of z "Suc i"]
    by (subst (asm) quote_loop.simps) (auto split: if_splits)
qed

lemma bracket_loop_bounds:
  "bracket_loop z c i = (c', i') \<Longrightarrow> i \<le> length z \<Longrightarrow> 0 \<notin> set z \<Longrightarrow> i \<le> i' \<and> i' \<le> length z"
proof (induction z c i rule: bracket_loop.induct)
  case (1 z c i)
  from "1.prems" show ?case
    using "1.IH" at_nonzero_iff [of z i]
    by (subst (asm) bracket_loop.simps) (auto split: if_splits)
qed

lemma paren_suffix_bounds:
  "paren_suffix z i n t = (i', n', t') \<Longrightarrow> i < length z \<Longrightarrow> i \<le> i' \<and> i' \<le> length z"
  using run_bounds [of "Suc i" z "\<lambda>c. c \<noteq> 0 \<and> \<not> sqlite3Isspace c \<and> c \<noteq> 0x29"]
  by (auto simp: paren_suffix_def Let_def dest: at_cases split: if_splits)

lemma variable_loop_bounds:
  "variable_loop z i n t = (i', n', t') \<Longrightarrow> i \<le> length z \<Longrightarrow> 0 \<notin> set z \<Longrightarrow> i \<le> i' \<and> i' \<le> length z"
proof (induction z i n t rule: variable_loop.induct)
  case (1 z i n t)
  from "1.prems" show ?case
    using "1.IH" at_nonzero_iff [of z i] at_nonzero_iff [of z "Suc i"] paren_suffix_bounds [of z i n t i' n' t']
    by (subst (asm) variable_loop.simps) (auto split: if_splits)
qed

lemma IdChar_0 [simp]: "\<not> IdChar 0"
  by (simp add: IdChar_iff sqlite3Isalpha_iff sqlite3Isdigit_iff)

lemma id_tail_bounds: "1 \<le> i \<Longrightarrow> i \<le> length z \<Longrightarrow> id_tail z i = (n, t) \<Longrightarrow> 1 \<le> n \<and> n \<le> length z"
  using run_bounds [of i z IdChar] by (auto simp: id_tail_def)

lemma fraction_bounds:
  "fst p \<le> length z \<Longrightarrow> fst p \<le> fst (fraction z p) \<and> fst (fraction z p) \<le> length z \<and>
   (at z (fst p) = 0x2E \<longrightarrow> fst p < fst (fraction z p))"
  using digit_loop_ge [of "Suc (fst p)" "Suc (fst p)" z] at_cases [of z "fst p" "0x2E"]
  by (auto simp: fraction_def case_prod_beta Suc_le_eq less_imp_le)

lemma exponent_bounds:
  "fst p \<le> length z \<Longrightarrow> fst p \<le> fst (exponent z p) \<and> fst (exponent z p) \<le> length z"
proof -
  assume p: "fst p \<le> length z"
  have "fst p + 2 \<le> length z" if "at z (fst p + 1) \<noteq> 0"
    using at_nonzero_less [OF that] by simp
  moreover have "\<not> sqlite3Isdigit 0" by (simp add: sqlite3Isdigit_iff)
  ultimately have "fst p + 2 \<le> length z"
    if "sqlite3Isdigit (at z (fst p + 1)) \<or> at z (fst p + 1) = 0x2B \<or> at z (fst p + 1) = 0x2D"
    using that by force
  then show ?thesis
    using p digit_loop_ge [of "fst p" "fst p + 2" z sqlite3Isdigit] digit_loop_le [of "fst p + 2" z sqlite3Isdigit]
    by (simp add: exponent_def case_prod_beta) blast
qed

lemma number_token_bounds:
  assumes "sqlite3Isdigit (at z 0) \<or> at z 0 = 0x2E" "number_token z = (n, t)"
  shows "1 \<le> n \<and> n \<le> length z"
proof -
  let ?p = "digit_loop sqlite3Isdigit z 0 TK_INTEGER"
  have z: "z \<noteq> []" using assms(1) by (auto simp: sqlite3Isdigit_iff)
  have x: "3 \<le> length z" if "sqlite3Isxdigit (at z 2)"
  proof -
    have "at z 2 \<noteq> 0" using that by (auto simp: sqlite3Isxdigit_iff)
    then show ?thesis using at_nonzero_less [of z 2] by simp
  qed
  have "1 \<le> fst (fraction z ?p) \<and> fst (fraction z ?p) \<le> length z"
  proof (cases "sqlite3Isdigit (at z 0)")
    case True
    then have "?p = digit_loop sqlite3Isdigit z 1 TK_INTEGER"
      using z by (subst digit_loop.simps) simp
    then show ?thesis
      using digit_loop_bounds [of 1 z sqlite3Isdigit TK_INTEGER] fraction_bounds [of ?p z] z
      by (simp add: Suc_le_eq)
  next
    case False
    then have "?p = (0, TK_INTEGER)" using assms(1) by (subst digit_loop.simps) auto
    then show ?thesis using fraction_bounds [of ?p z] False assms(1) by simp
  qed
  then have "1 \<le> fst (exponent z (fraction z ?p)) \<and> fst (exponent z (fraction z ?p)) \<le> length z"
    using exponent_bounds [of "fraction z ?p" z] by simp
  moreover have "1 \<le> fst (digit_loop sqlite3Isxdigit z 3 TK_INTEGER) \<and>
    fst (digit_loop sqlite3Isxdigit z 3 TK_INTEGER) \<le> length z" if "sqlite3Isxdigit (at z 2)"
    using digit_loop_bounds [of 3 z sqlite3Isxdigit TK_INTEGER] x [OF that] by simp
  ultimately show ?thesis
    using assms(2) run_bounds [of _ z IdChar]
    by (fastforce simp: number_token_def Let_def split: prod.splits if_splits)
qed

lemma word_token_bounds:
  assumes "z \<noteq> []" "0 \<notin> set z"
  shows "\<exists>n t. word_token z = Some (n, t) \<and> 1 \<le> n \<and> n \<le> length z"
proof (cases "char_class (at z 1) > CC_KYWD")
  case True
  then show ?thesis
    using id_tail_bounds [of 1 z] assms(1) by (auto simp: word_token_def Suc_le_eq id_tail_def)
next
  case False
  let ?i = "run (\<lambda>c. char_class c \<le> CC_KYWD) z 2"
  have "at z 1 \<noteq> 0" using False by (auto simp: char_class_word not_less sqlite3Isalpha_iff)
  then have "2 \<le> length z" using at_nonzero_less [of z 1] by simp
  then have i: "2 \<le> ?i" "?i \<le> length z" using run_bounds [of 2 z] by auto
  show ?thesis
  proof (cases "IdChar (at z ?i)")
    case True
    have "?i < length z" using True at_nonzero_less [of z ?i] IdChar_0 by metis
    then show ?thesis
      using True False run_bounds [of "Suc ?i" z IdChar] by (auto simp: word_token_def Let_def id_tail_def)
  next
    case False
    with i \<open>\<not> char_class (at z 1) > CC_KYWD\<close> show ?thesis
      by (auto simp: word_token_def Let_def keywordCode_eq)
  qed
qed

lemma variable_token_bounds:
  "z \<noteq> [] \<Longrightarrow> 0 \<notin> set z \<Longrightarrow> variable_token z = (n, t) \<Longrightarrow> 1 \<le> n \<and> n \<le> length z"
  using variable_loop_bounds [of z 1 0 TK_VARIABLE]
  by (auto simp: variable_token_def Suc_le_eq split: prod.splits)

lemma quote_token_bounds:
  "z \<noteq> [] \<Longrightarrow> 0 \<notin> set z \<Longrightarrow> quote_token z = (n, t) \<Longrightarrow> 1 \<le> n \<and> n \<le> length z"
  using quote_loop_bounds [of "at z 0" z 1]
  by (fastforce simp: quote_token_def Suc_le_eq split: prod.splits if_splits)

lemma bracket_token_bounds:
  "z \<noteq> [] \<Longrightarrow> 0 \<notin> set z \<Longrightarrow> bracket_token z = (n, t) \<Longrightarrow> 1 \<le> n \<and> n \<le> length z"
  using bracket_loop_bounds [of z "at z 0" 1]
  by (auto simp: bracket_token_def Suc_le_eq split: prod.splits)

lemma slash_token_bounds:
  "z \<noteq> [] \<Longrightarrow> 0 \<notin> set z \<Longrightarrow> slash_token z = (n, t) \<Longrightarrow> 1 \<le> n \<and> n \<le> length z"
  using comment_loop_bounds [of z "at z 2" 3] at_nonzero_less [of z 2]
  by (fastforce simp: slash_token_def Suc_le_eq split: prod.splits if_splits)

lemma minus_token_bounds:
  "z \<noteq> [] \<Longrightarrow> minus_token z = (n, t) \<Longrightarrow> 1 \<le> n \<and> n \<le> length z"
  using run_ge [of 1 2 "\<lambda>c. c \<noteq> 0 \<and> c \<noteq> 0x0A" z] run_le [of 2 z] at_cases [of z 1] at_cases [of z 2]
  by (auto simp: minus_token_def Suc_le_eq split: if_splits)

lemma x_token_bounds:
  assumes "z \<noteq> []" "x_token z = (n, t)"
  shows "1 \<le> n \<and> n \<le> length z"
proof (cases "at z 1 = 0x27")
  case True
  define i where "i = run sqlite3Isxdigit z 2"
  define bad where "bad \<longleftrightarrow> at z i \<noteq> 0x27 \<or> odd i"
  define j where "j = (if bad then run (\<lambda>c. c \<noteq> 0 \<and> c \<noteq> 0x27) z i else i)"
  have "2 \<le> length z" using True at_cases [of z 1 "0x27"] by simp
  then have i: "1 \<le> i" "i \<le> length z" unfolding i_def by (auto intro: run_ge [of 1])
  then have j: "1 \<le> j" "j \<le> length z" unfolding j_def by (auto intro: run_ge [of 1])
  have "x_token z = (if at z j \<noteq> 0 then Suc j else j, if bad then TK_ILLEGAL else TK_BLOB)"
    using True by (simp add: x_token_def Let_def j_def i_def bad_def)
  with assms(2) j show ?thesis using at_nonzero_less [of z j] by (auto split: if_splits)
next
  case False
  then show ?thesis using assms id_tail_bounds [of 1 z n t] by (simp add: x_token_def Suc_le_eq)
qed

text \<open>A token that makes progress within the text.\<close>

definition token_ok :: "u8 list \<Rightarrow> (nat \<times> nat) option \<Rightarrow> bool" where
  "token_ok z r \<longleftrightarrow> (\<exists>n t. r = Some (n, t) \<and> 1 \<le> n \<and> n \<le> length z)"

lemma token_ok_pair [simp]: "token_ok z (Some (n, t)) \<longleftrightarrow> 1 \<le> n \<and> n \<le> length z"
  by (simp add: token_ok_def)

lemma token_ok_if:
  "(b \<Longrightarrow> token_ok z r) \<Longrightarrow> (\<not> b \<Longrightarrow> token_ok z s) \<Longrightarrow> token_ok z (if b then r else s)"
  "(b \<Longrightarrow> token_ok z (Some p)) \<Longrightarrow> (\<not> b \<Longrightarrow> token_ok z (Some q)) \<Longrightarrow> token_ok z (Some (if b then p else q))"
  by simp_all

lemma token_ok_branches:
  assumes "z \<noteq> []" "0 \<notin> set z"
  shows "token_ok z (Some (quote_token z))" "token_ok z (Some (bracket_token z))"
    "token_ok z (Some (slash_token z))" "token_ok z (Some (minus_token z))"
    "token_ok z (Some (variable_token z))" "token_ok z (Some (x_token z))" "token_ok z (word_token z)"
    "token_ok z (Some (id_tail z 1))" "token_ok z (Some (run P z 1, t))"
    "sqlite3Isdigit (at z 0) \<or> at z 0 = 0x2E \<Longrightarrow> token_ok z (Some (number_token z))"
proof -
  have ok: "token_ok z (Some p)" if "\<And>n t. p = (n, t) \<Longrightarrow> 1 \<le> n \<and> n \<le> length z" for p
    using that by (cases p) simp
  have one: "1 \<le> length z" using assms(1) by (simp add: Suc_le_eq)
  show "token_ok z (Some (quote_token z))" "token_ok z (Some (bracket_token z))"
    "token_ok z (Some (slash_token z))" "token_ok z (Some (minus_token z))"
    "token_ok z (Some (variable_token z))" "token_ok z (Some (x_token z))"
    by (rule ok, rule quote_token_bounds bracket_token_bounds slash_token_bounds minus_token_bounds
        variable_token_bounds x_token_bounds, (assumption | rule assms)+)+
  show "token_ok z (word_token z)" unfolding token_ok_def by (rule word_token_bounds [OF assms])
  show "token_ok z (Some (id_tail z 1))" by (rule ok, rule id_tail_bounds [OF order_refl one])
  show "token_ok z (Some (run P z 1, t))" using run_bounds [OF one] by simp
  show "sqlite3Isdigit (at z 0) \<or> at z 0 = 0x2E \<Longrightarrow> token_ok z (Some (number_token z))"
    by (rule ok, rule number_token_bounds)
qed

lemma sqlite3GetToken_ok:
  assumes z: "z \<noteq> []" "0 \<notin> set z"
  shows "token_ok z (sqlite3GetToken z)"
proof -
  have one: "1 \<le> length z" and nz: "at z 0 \<noteq> 0"
    using z at_nonzero_iff [OF z(2), of 0] by (auto simp: Suc_le_eq)
  have two: "2 \<le> length z" if "at z 1 = c" "c \<noteq> 0" for c
    using at_cases [OF that] by simp
  have three: "3 \<le> length z" if "at z 2 = c" "c \<noteq> 0" for c
    using at_cases [OF that] by simp
  show ?thesis
    unfolding sqlite3GetToken_def Let_def
    by (intro token_ok_if token_ok_branches z)
      (use one nz two three in \<open>auto simp: char_class_iffs Suc_le_eq\<close>)
qed

section \<open>Nothing behind the terminator matters\<close>

text \<open>
  In memory a text is followed by its terminator and by bytes that belong to something else. None of
  the loops, and none of the tests ahead of them, looks at those.
\<close>

declare at_eq_nth [simp del]

lemma takeWhile_stop: "\<not> P x \<Longrightarrow> takeWhile P (xs @ x # ys) = takeWhile P xs"
  by (induction xs) simp_all

lemma at_terminated: "i \<le> length z \<Longrightarrow> at (z @ 0 # junk) i = at z i"
  by (auto simp: at_def nth_append)

lemma at_end [simp]: "at z (length z) = 0"
  by (simp add: at_def)

lemma run_terminated:
  assumes "i \<le> length z" "\<not> P 0"
  shows "run P (z @ 0 # junk) i = run P z i"
  using assms by (simp add: run_eq takeWhile_stop)

lemma digit_loop_terminated:
  "i \<le> length z \<Longrightarrow> \<not> D 0 \<Longrightarrow> digit_loop D (z @ 0 # junk) i t = digit_loop D z i t"
proof (induction D z i t rule: digit_loop.induct)
  case (1 D z i t)
  then show ?case
    by (subst (1 2) digit_loop.simps) (cases "i < length z"; auto simp: at_terminated)
qed

lemma comment_loop_terminated:
  "i \<le> length z \<Longrightarrow> 0 \<notin> set z \<Longrightarrow> comment_loop (z @ 0 # junk) c i = comment_loop z c i"
proof (induction z c i rule: comment_loop.induct)
  case (1 z c i)
  then show ?case
    using at_nonzero_iff [of z i]
    by (subst (1 2) comment_loop.simps) (auto simp: at_terminated)
qed

lemma quote_loop_terminated:
  "i \<le> length z \<Longrightarrow> 0 \<notin> set z \<Longrightarrow> d \<noteq> 0 \<Longrightarrow> quote_loop d (z @ 0 # junk) i = quote_loop d z i"
proof (induction d z i rule: quote_loop.induct)
  case (1 d z i)
  then show ?case
    using at_nonzero_iff [of z i] at_nonzero_iff [of z "Suc i"]
    by (subst (1 2) quote_loop.simps) (auto simp: at_terminated)
qed

lemma bracket_loop_terminated:
  "i \<le> length z \<Longrightarrow> 0 \<notin> set z \<Longrightarrow> bracket_loop (z @ 0 # junk) c i = bracket_loop z c i"
proof (induction z c i rule: bracket_loop.induct)
  case (1 z c i)
  then show ?case
    using at_nonzero_iff [of z i]
    by (subst (1 2) bracket_loop.simps) (auto simp: at_terminated)
qed

lemma paren_suffix_terminated:
  assumes "i < length z"
  shows "paren_suffix (z @ 0 # junk) i n t = paren_suffix z i n t"
proof -
  let ?P = "\<lambda>c. c \<noteq> 0 \<and> \<not> sqlite3Isspace c \<and> c \<noteq> 0x29"
  have "run ?P z (Suc i) \<le> length z" using run_bounds [of "Suc i" z ?P] assms by simp
  then show ?thesis using run_terminated [of "Suc i" z ?P] assms
    by (simp add: paren_suffix_def at_terminated)
qed

lemma variable_loop_terminated:
  "i \<le> length z \<Longrightarrow> 0 \<notin> set z \<Longrightarrow> variable_loop (z @ 0 # junk) i n t = variable_loop z i n t"
proof (induction z i n t rule: variable_loop.induct)
  case (1 z i n t)
  show ?case
  proof (cases "i = length z")
    case True
    then show ?thesis by (subst (1 2) variable_loop.simps) (simp add: at_terminated at_def)
  next
    case False
    then have i: "i < length z" "at z i \<noteq> 0" using "1.prems" at_nonzero_iff [of z i] by auto
    have "at (z @ 0 # junk) i = at z i" "at (z @ 0 # junk) (Suc i) = at z (Suc i)"
      using i by (simp_all add: at_terminated)
    moreover have "variable_loop (z @ 0 # junk) (i + 2) n t = variable_loop z (i + 2) n t"
      if "\<not> IdChar (at z i)" "\<not> (at z i = 0x28 \<and> n > 0)" "at z i = 0x3A" "at z (Suc i) = 0x3A"
      using "1.IH"(2) that i "1.prems" at_cases [of z "Suc i"] by simp
    moreover have "variable_loop (z @ 0 # junk) (Suc i) (Suc n) t = variable_loop z (Suc i) (Suc n) t"
      if "IdChar (at z i)"
      using "1.IH"(1) that i "1.prems" by simp
    ultimately show ?thesis
      using i paren_suffix_terminated [OF i(1)] by (subst (1 2) variable_loop.simps) auto
  qed
qed

lemma class_0: "char_class 0 = CC_NUL"
  by (simp add: char_class_iffs)

lemma digit_0 [simp]: "\<not> sqlite3Isdigit 0" "\<not> sqlite3Isxdigit 0" "\<not> sqlite3Isspace 0"
  by (simp_all add: sqlite3Isdigit_iff sqlite3Isxdigit_iff sqlite3Isspace_iff)

lemma id_tail_terminated: "i \<le> length z \<Longrightarrow> id_tail (z @ 0 # junk) i = id_tail z i"
  by (simp add: id_tail_def run_terminated)

lemma minus_token_terminated:
  assumes "z \<noteq> []"
  shows "minus_token (z @ 0 # junk) = minus_token z"
proof -
  have one: "at (z @ 0 # junk) 1 = at z 1" using assms by (intro at_terminated) (simp add: Suc_le_eq)
  have "2 \<le> length z" if "at z 1 = c" "c \<noteq> 0" for c using at_cases [OF that] by simp
  then show ?thesis unfolding minus_token_def one
    by (simp add: run_terminated at_terminated)
qed

lemma slash_token_terminated:
  assumes "z \<noteq> []" "0 \<notin> set z"
  shows "slash_token (z @ 0 # junk) = slash_token z"
proof -
  have one: "at (z @ 0 # junk) 1 = at z 1" using assms by (intro at_terminated) (simp add: Suc_le_eq)
  have two: "2 \<le> length z" if "at z 1 = 0x2A" using at_cases [OF that] by simp
  have "3 \<le> length z" if "at z 2 \<noteq> 0" using at_nonzero_less [OF that] by simp
  then show ?thesis unfolding slash_token_def one
    using two assms(2) by (cases "at z 1 = 0x2A"; cases "at z 2 = 0") (simp_all add: at_terminated comment_loop_terminated)
qed

lemma quote_token_terminated:
  "z \<noteq> [] \<Longrightarrow> 0 \<notin> set z \<Longrightarrow> quote_token (z @ 0 # junk) = quote_token z"
  using at_nonzero_iff [of z 0]
  by (simp add: quote_token_def at_terminated quote_loop_terminated Suc_le_eq)

lemma bracket_token_terminated:
  "z \<noteq> [] \<Longrightarrow> 0 \<notin> set z \<Longrightarrow> bracket_token (z @ 0 # junk) = bracket_token z"
  by (simp add: bracket_token_def at_terminated bracket_loop_terminated Suc_le_eq)

lemma variable_token_terminated:
  "z \<noteq> [] \<Longrightarrow> 0 \<notin> set z \<Longrightarrow> variable_token (z @ 0 # junk) = variable_token z"
  by (simp add: variable_token_def variable_loop_terminated Suc_le_eq)

lemma fraction_terminated:
  "fst p \<le> length z \<Longrightarrow> fraction (z @ 0 # junk) p = fraction z p"
  using at_cases [of z "fst p" "0x2E"]
  by (auto simp: fraction_def case_prod_beta at_terminated digit_loop_terminated)

lemma exponent_terminated:
  assumes "fst p \<le> length z"
  shows "exponent (z @ 0 # junk) p = exponent z p"
proof (cases "at z (fst p) = 0x65 \<or> at z (fst p) = 0x45")
  case True
  let ?i = "fst p"
  have 1: "?i + 1 \<le> length z" using True at_cases [of z ?i] by fastforce
  have e: "at (z @ 0 # junk) ?i = at z ?i" "at (z @ 0 # junk) (?i + 1) = at z (?i + 1)"
    using 1 by (simp_all add: at_terminated)
  have 2: "?i + 2 \<le> length z" if "at z (?i + 1) \<noteq> 0" using at_nonzero_less [OF that] by simp
  have c: "sqlite3Isdigit (at z (?i + 1)) \<or>
      (at z (?i + 1) = 0x2B \<or> at z (?i + 1) = 0x2D) \<and> sqlite3Isdigit (at (z @ 0 # junk) (?i + 2)) \<longleftrightarrow>
    sqlite3Isdigit (at z (?i + 1)) \<or>
      (at z (?i + 1) = 0x2B \<or> at z (?i + 1) = 0x2D) \<and> sqlite3Isdigit (at z (?i + 2))"
  proof (cases "at z (?i + 1) = 0")
    case False
    then show ?thesis using 2 by (simp add: at_terminated)
  qed auto
  have d: "digit_loop sqlite3Isdigit (z @ 0 # junk) (?i + 2) t = digit_loop sqlite3Isdigit z (?i + 2) t"
    if "sqlite3Isdigit (at z (?i + 1)) \<or>
      (at z (?i + 1) = 0x2B \<or> at z (?i + 1) = 0x2D) \<and> sqlite3Isdigit (at z (?i + 2))" for t
  proof -
    have "at z (?i + 1) \<noteq> 0" using that by auto
    then show ?thesis by (intro digit_loop_terminated 2) simp_all
  qed
  show ?thesis unfolding exponent_def case_prod_beta e c using d by auto
qed (use assms in \<open>simp add: exponent_def case_prod_beta at_terminated\<close>)

lemma number_token_terminated:
  assumes "z \<noteq> []"
  shows "number_token (z @ 0 # junk) = number_token z"
proof -
  let ?y = "z @ 0 # junk"
  let ?p = "digit_loop sqlite3Isdigit z 0 TK_INTEGER"
  have at01: "at ?y 0 = at z 0" "at ?y 1 = at z 1" using assms by (simp_all add: at_terminated Suc_le_eq)
  have p: "fst ?p \<le> length z" using digit_loop_bounds [of 0 z] by simp
  then have f: "fst (fraction z ?p) \<le> length z" using fraction_bounds by blast
  have dec: "exponent ?y (fraction ?y (digit_loop sqlite3Isdigit ?y 0 TK_INTEGER)) = exponent z (fraction z ?p)"
    by (simp add: digit_loop_terminated fraction_terminated [OF p] exponent_terminated [OF f])
  have two: "2 \<le> length z" if "at z 1 = 0x78 \<or> at z 1 = 0x58"
    using that at_cases [of z 1] by fastforce
  have three: "3 \<le> length z" if "sqlite3Isxdigit (at z 2)"
  proof -
    have "at z 2 \<noteq> 0" using that by auto
    then show ?thesis using at_nonzero_less [of z 2] by simp
  qed
  have hex: "(at z 1 = 0x78 \<or> at z 1 = 0x58) \<and> sqlite3Isxdigit (at ?y 2) \<longleftrightarrow>
      (at z 1 = 0x78 \<or> at z 1 = 0x58) \<and> sqlite3Isxdigit (at z 2)"
    using two by (auto simp: at_terminated)
  let ?q = "\<lambda>y. if at z 0 = 0x30 \<and> (at z 1 = 0x78 \<or> at z 1 = 0x58) \<and> sqlite3Isxdigit (at z 2)
     then digit_loop sqlite3Isxdigit y 3 TK_INTEGER
     else exponent y (fraction y (digit_loop sqlite3Isdigit y 0 TK_INTEGER))"
  have "digit_loop sqlite3Isxdigit ?y 3 TK_INTEGER = digit_loop sqlite3Isxdigit z 3 TK_INTEGER"
    if "sqlite3Isxdigit (at z 2)"
    using three [OF that] by (simp add: digit_loop_terminated)
  then have q: "?q ?y = ?q z" unfolding dec by auto
  have le: "fst (?q z) \<le> length z"
    using digit_loop_bounds [of 3 z sqlite3Isxdigit TK_INTEGER] three exponent_bounds [OF f] by simp
  show ?thesis
    unfolding number_token_def at01 hex q Let_def case_prod_beta
    using le by (simp only: at_terminated run_terminated [OF le, of IdChar, OF IdChar_0])
qed

lemma x_token_terminated:
  assumes "z \<noteq> []"
  shows "x_token (z @ 0 # junk) = x_token z"
proof (cases "at z 1 = 0x27")
  case True
  let ?y = "z @ 0 # junk" and ?P = "\<lambda>c. c \<noteq> 0 \<and> c \<noteq> 0x27"
  have two: "2 \<le> length z" using True at_cases [of z 1 "0x27"] by simp
  define i where "i = run sqlite3Isxdigit z 2"
  have i: "run sqlite3Isxdigit ?y 2 = i" "i \<le> length z"
    using two run_bounds [of 2 z sqlite3Isxdigit] by (simp_all add: i_def run_terminated)
  have j: "run ?P ?y i = run ?P z i" "run ?P z i \<le> length z"
    using i(2) run_bounds [of i z ?P] by (simp_all add: run_terminated)
  have one: "at ?y 1 = at z 1" using two by (simp add: at_terminated)
  show ?thesis
    unfolding x_token_def one i(1) i_def [symmetric] Let_def
    using True i(2) j by (auto simp: at_terminated)
next
  case False
  then show ?thesis using assms by (simp add: x_token_def at_terminated id_tail_terminated Suc_le_eq)
qed

lemma word_token_terminated:
  assumes "z \<noteq> []"
  shows "word_token (z @ 0 # junk) = word_token z"
proof (cases "char_class (at z 1) > CC_KYWD")
  case True
  then show ?thesis using assms by (simp add: word_token_def at_terminated id_tail_terminated Suc_le_eq)
next
  case False
  let ?y = "z @ 0 # junk" and ?P = "\<lambda>c. char_class c \<le> CC_KYWD"
  have "at z 1 \<noteq> 0" using False by (auto simp: class_0)
  then have two: "2 \<le> length z" using at_nonzero_less [of z 1] by simp
  define i where "i = run ?P z 2"
  have i: "run ?P ?y 2 = i" "2 \<le> i" "i \<le> length z"
    using two run_bounds [of 2 z ?P] by (simp_all add: i_def run_terminated class_0)
  have one: "at ?y 1 = at z 1" using two by (simp add: at_terminated)
  have "keywordCode ?y i TK_ID = keywordCode z i TK_ID" using i(2,3) by (simp add: keywordCode_eq)
  moreover have "Suc i \<le> length z" if "IdChar (at z i)"
    using that at_nonzero_less [of z i] IdChar_0 by (metis Suc_leI)
  ultimately show ?thesis
    unfolding word_token_def one i(1) i_def [symmetric] Let_def
    using False i(3) by (auto simp: at_terminated id_tail_terminated)
qed

lemma sqlite3GetToken_terminated:
  assumes "0 \<notin> set z"
  shows "sqlite3GetToken (z @ 0 # junk) = sqlite3GetToken z"
proof (cases "z = []")
  case True
  then show ?thesis by (simp add: sqlite3GetToken_def class_0)
next
  case False
  have at01: "at (z @ 0 # junk) 0 = at z 0" "at (z @ 0 # junk) 1 = at z 1"
    using False by (simp_all add: at_terminated Suc_le_eq)
  have bom: "at z 1 = 0xBB \<and> at (z @ 0 # junk) 2 = 0xBF \<longleftrightarrow> at z 1 = 0xBB \<and> at z 2 = 0xBF"
    using at_cases [of z 1 "0xBB"] by (auto simp: at_terminated)
  have one: "1 \<le> length z" using False by (simp add: Suc_le_eq)
  show ?thesis
    unfolding sqlite3GetToken_def at01 bom
    run_terminated [OF one, of sqlite3Isspace, OF digit_0(3)] run_terminated [OF one, of sqlite3Isdigit, OF digit_0(1)]
    minus_token_terminated [OF False] slash_token_terminated [OF False assms]
    quote_token_terminated [OF False assms] bracket_token_terminated [OF False assms]
    variable_token_terminated [OF False assms] number_token_terminated [OF False]
    x_token_terminated [OF False] word_token_terminated [OF False] id_tail_terminated [OF one] ..
qed

declare at_eq_nth [simp]

section \<open>Quoted text and words are single tokens\<close>

lemma at_append: "at (xs @ ys) i = (if i < length xs then at xs i else at ys (i - length xs))"
  by (auto simp: at_def nth_append)

lemma quote_loop_doubled:
  assumes "q \<noteq> 0" "at rest 0 \<noteq> q" "0 \<notin> set s"
  shows "quote_loop q (pre @ concat (map (\<lambda>b. if b = q then [b, b] else [b]) s) @ q # rest) (length pre) =
     (q, length pre + length (concat (map (\<lambda>b. if b = q then [b, b] else [b]) s)))"
  using assms(3)
proof (induction s arbitrary: pre)
  case Nil
  then show ?case using assms(1,2) by (subst quote_loop.simps) (simp add: at_append)
next
  case (Cons b s)
  let ?d = "\<lambda>b. if b = q then [b, b] else [b]"
  have "quote_loop q (pre @ concat (map ?d (b # s)) @ q # rest) (length pre) =
    quote_loop q ((pre @ ?d b) @ concat (map ?d s) @ q # rest) (length (pre @ ?d b))"
    using Cons.prems assms(1) by (subst quote_loop.simps) (simp add: at_append)
  also have "\<dots> = (q, length (pre @ ?d b) + length (concat (map ?d s)))"
    using Cons.prems by (intro Cons.IH) simp
  finally show ?case by simp
qed

lemma quoted_token:
  assumes q: "q \<in> {0x22, 0x27, 0x60}" and "0 \<notin> set s" "at rest 0 \<noteq> q"
  shows "sqlite3GetToken (enquote q s @ rest) =
    Some (length (enquote q s), if q = 0x27 then TK_STRING else TK_ID)"
proof -
  have q': "q \<noteq> 0" "closing q = q" "char_class q = CC_QUOTE"
    using q by (auto simp: closing_def char_class_iffs)
  have "quote_token (enquote q s @ rest) = (length (enquote q s), if q = 0x27 then TK_STRING else TK_ID)"
    using quote_loop_doubled [OF q'(1) assms(3,2), of "[q]"] q'
    by (simp add: quote_token_def enquote_def)
  then show ?thesis
    by (simp add: sqlite3GetToken_def q' enquote_def)
qed

lemma keyword_table_shape:
  "list_all (\<lambda>k. 2 \<le> length (fst k) \<and> list_all (\<lambda>c. kw_letter (byte_of c)) (fst k) \<and>
     65 \<le> (of_char (hd (fst k)) :: nat) \<and> (of_char (hd (fst k)) :: nat) \<le> 87) sql_keywords"
  by (simp add: sql_keywords_def kw_letter_def byte_of_def)

lemma UpperToLower_letter:
  assumes "UpperToLower b = UpperToLower c" "kw_letter c"
  shows "char_class b \<le> CC_KYWD"
  using assms unfolding char_class_word sqlite3Isalpha_iff kw_letter_def word_le_nat_alt word_unat_eq_iff
    unat_UpperToLower fold_nat_def by (auto split: if_splits)

lemma keyword_shape:
  assumes "sql_word_code w \<noteq> TK_ID"
  shows "2 \<le> length w" "\<forall>b \<in> set w. char_class b \<le> CC_KYWD" "char_class (hd w) = CC_KYWD0"
proof -
  obtain k where "find (\<lambda>k. map UpperToLower (bytes_of (fst k)) = map UpperToLower w) sql_keywords = Some k"
    using assms by (auto simp: sql_word_code_def split: option.splits)
  then have k: "k \<in> set sql_keywords" "map UpperToLower (bytes_of (fst k)) = map UpperToLower w"
    unfolding find_Some_iff by (metis nth_mem)+
  have s: "2 \<le> length (fst k)" "\<forall>c \<in> set (fst k). kw_letter (byte_of c)"
    "65 \<le> unat (byte_of (hd (fst k)))" "unat (byte_of (hd (fst k))) \<le> 87"
    using keyword_table_shape k(1) by (auto simp: list_all_iff unat_byte_of)
  have l: "length (fst k) = length w" using k(2) by (metis bytes_of_def length_map)
  show "2 \<le> length w" using s(1) l by simp
  have e: "UpperToLower (w ! i) = UpperToLower (byte_of (fst k ! i))" if "i < length w" for i
    using arg_cong [OF k(2), of "\<lambda>xs. xs ! i"] that l by (simp add: bytes_of_def)
  show "\<forall>b \<in> set w. char_class b \<le> CC_KYWD"
    using e s(2) l UpperToLower_letter by (metis in_set_conv_nth)
  have "UpperToLower (hd w) = UpperToLower (byte_of (hd (fst k)))"
    using e [of 0] s(1) l by (cases w; cases "fst k") auto
  then have "fold_nat (unat (hd w)) = fold_nat (unat (byte_of (hd (fst k))))"
    by (metis unat_UpperToLower)
  then have "65 \<le> unat (hd w) \<and> unat (hd w) \<le> 87 \<or> 97 \<le> unat (hd w) \<and> unat (hd w) \<le> 119"
    using s(3,4) by (auto simp: fold_nat_def split: if_splits)
  then show "char_class (hd w) = CC_KYWD0"
    by (auto simp: char_class_eq class_nat_def)
qed

lemma run_append:
  assumes "\<forall>b \<in> set (drop i w). P b" "i \<le> length w" "\<not> P (at rest 0)"
  shows "run P (w @ rest) i = length w"
proof -
  have "takeWhile P rest = []" if "rest \<noteq> []"
    using that assms(3) by (cases rest) auto
  then have "takeWhile P rest = []" by (cases rest) auto
  with assms show ?thesis by (simp add: run_eq takeWhile_append)
qed

lemma run_next: "i \<le> length z \<Longrightarrow> \<not> P 0 \<Longrightarrow> \<not> P (at z (run P z i))"
  using nth_length_takeWhile [of P "drop i z"]
  by (cases "run P z i < length z") (auto simp: run_eq at_def)

lemma run_stop: "\<not> P (at z j) \<Longrightarrow> i \<le> j \<Longrightarrow> run P z i \<le> j"
proof (induction P z i rule: run.induct)
  case (1 P z i)
  then show ?case by (subst run.simps) (cases "i = j"; auto)
qed

lemma keyword_char_IdChar: "char_class b \<le> CC_KYWD \<Longrightarrow> IdChar b"
  by (auto simp: char_class_word IdChar_iff)

lemma high_class: "0x80 \<le> b \<Longrightarrow> char_class b = CC_ID \<or> char_class b = CC_BOM"
  by (simp add: word_le_nat_alt char_class_eq class_nat_def)

lemma first_class:
  assumes "IdChar b" "\<not> sqlite3Isdigit b" "b \<noteq> 0x24"
  shows "char_class b = CC_KYWD0 \<or> char_class b = CC_X \<or> char_class b = CC_KYWD \<or>
    char_class b = CC_ID \<or> char_class b = CC_BOM"
proof (cases "0x80 \<le> b")
  case False
  then have "char_class b \<le> CC_KYWD" using assms by (auto simp: IdChar_iff char_class_word)
  then show ?thesis by presburger
qed (use high_class in auto)

lemma word_is_token:
  assumes w: "w \<noteq> []" "\<forall>b \<in> set w. IdChar b" "\<not> IdChar (at rest 0)"
    and first: "\<not> sqlite3Isdigit (hd w)" "hd w \<noteq> 0x24" "take 3 w \<noteq> [0xEF, 0xBB, 0xBF]"
    and blob: "w \<in> {[0x78], [0x58]} \<longrightarrow> at rest 0 \<noteq> 0x27"
  shows "sqlite3GetToken (w @ rest) = Some (length w, sql_word_code w)"
proof -
  let ?z = "w @ rest" and ?c = "char_class (hd w)"
  have del: "0x7F \<notin> set w" using w(2) by (auto simp: IdChar_iff sqlite3Isalpha_iff sqlite3Isdigit_iff)
  have z0: "at ?z 0 = hd w" using w(1) by (cases w) auto
  have one: "1 \<le> length w" using w(1) by (simp add: Suc_le_eq)
  have zi: "at ?z i = (if i < length w then w ! i else at rest 0)" if "i \<le> length w" for i
    using that by (auto simp: at_append)
  have idc: "IdChar (at ?z i) \<longleftrightarrow> i < length w" if "i \<le> length w" for i
    using zi [OF that] w(2,3) by auto
  have tail: "id_tail ?z i = (length w, TK_ID)" if "i \<le> length w" for i
    using run_append [of i w IdChar rest] that w by (auto simp: id_tail_def dest: in_set_dropD)
  have id: "sql_word_code w = TK_ID" if "?c \<noteq> CC_KYWD0" using keyword_shape(3) that by blast
  consider "?c = CC_KYWD0" | "?c = CC_X" | "?c = CC_KYWD \<or> ?c = CC_ID" | "?c = CC_BOM"
    using first_class [of "hd w"] w first by (metis hd_in_set)
  then show ?thesis
  proof cases
    case 1
    have "word_token ?z = Some (length w, sql_word_code w)"
    proof (cases "char_class (at ?z 1) > CC_KYWD")
      case True
      have "sql_word_code w = TK_ID"
      proof (rule ccontr)
        assume k: "sql_word_code w \<noteq> TK_ID"
        then have "1 < length w" using keyword_shape(1) by fastforce
        with keyword_shape(2) [OF k] True zi [OF one] show False by (metis not_less nth_mem)
      qed
      with True show ?thesis using tail [OF one] by (simp add: word_token_def)
    next
      case False
      let ?i = "run (\<lambda>c. char_class c \<le> CC_KYWD) ?z 2"
      have two: "2 \<le> length w" using False idc [OF one] keyword_char_IdChar [of "at ?z 1"] by simp
      have i: "?i \<le> length w"
        using run_stop [of "\<lambda>c. char_class c \<le> CC_KYWD" ?z "length w" 2] idc [of "length w"] two
          keyword_char_IdChar by blast
      show ?thesis
      proof (cases "?i < length w")
        case True
        have "\<not> char_class (at ?z ?i) \<le> CC_KYWD"
          by (rule run_next) (use two in \<open>auto simp: char_class_eq class_nat_def\<close>)
        then have "sql_word_code w = TK_ID"
          using keyword_shape(2) [of w] zi [OF i] True by (metis nth_mem)
        with True False show ?thesis
          using idc [OF i] tail [of "Suc ?i"] by (simp add: word_token_def Let_def)
      next
        case False
        then have l: "?i = length w" using i by simp
        have "keywordCode ?z (length w) TK_ID = Some (sql_word_code w)"
          using sqlite3KeywordCode_eq [of "length w" ?z] del two by (simp add: sqlite3KeywordCode_def)
        with \<open>\<not> char_class (at ?z 1) > CC_KYWD\<close> show ?thesis
          using idc [OF i] by (simp add: word_token_def Let_def l)
      qed
    qed
    with 1 show ?thesis by (simp add: sqlite3GetToken_def z0)
  next
    case 2
    have "at ?z 1 \<noteq> 0x27"
    proof (cases "1 < length w")
      case True
      then show ?thesis using idc [OF one] by (auto simp: IdChar_iff sqlite3Isalpha_iff sqlite3Isdigit_iff)
    next
      case False
      then obtain b where "w = [b]" using w(1) by (cases w) auto
      then show ?thesis using 2 blob by (auto simp: char_class_iffs)
    qed
    then show ?thesis using tail [OF one] id 2 by (simp add: sqlite3GetToken_def z0 x_token_def)
  next
    case 3
    then show ?thesis using tail [OF one] id by (auto simp: sqlite3GetToken_def z0)
  next
    case 4
    have "\<not> (at ?z 1 = 0xBB \<and> at ?z 2 = 0xBF)"
    proof
      assume a: "at ?z 1 = 0xBB \<and> at ?z 2 = 0xBF"
      have "IdChar 0xBB" "IdChar 0xBF" by (simp_all add: IdChar_iff)
      with a have "1 < length w" using idc [OF one] by simp
      moreover with a \<open>IdChar 0xBF\<close> have "2 < length w" using idc [of 2] by simp
      ultimately obtain x y u v where "w = x # y # u # v"
        by (cases w; cases "tl w"; cases "tl (tl w)") auto
      with a 4 first(3) show False by (simp add: char_class_iffs)
    qed
    then show ?thesis using tail [OF one] id 4 by (simp add: sqlite3GetToken_def z0)
  qed
qed

section \<open>The tokens of a text\<close>

text \<open>Repeated calls, each at the end of the token before.\<close>

function sql_tokens :: "u8 list \<Rightarrow> (nat \<times> u8 list) list option" where
  "sql_tokens z =
     (if z = [] then Some []
      else case sqlite3GetToken z of
             None \<Rightarrow> None
           | Some (n, t) \<Rightarrow>
               if n = 0 then None else map_option (Cons (t, take n z)) (sql_tokens (drop n z)))"
  by pat_completeness auto
termination
  by (relation "measure length") auto

declare sql_tokens.simps [simp del]

lemma sql_tokens_Nil [simp]: "sql_tokens [] = Some []"
  by (simp add: sql_tokens.simps)

lemma sqlite3GetToken_bounds:
  assumes "z \<noteq> []" "0 \<notin> set z"
  obtains n t where "sqlite3GetToken z = Some (n, t)" "1 \<le> n" "n \<le> length z"
  using sqlite3GetToken_ok [OF assms] by (auto simp: token_ok_def)

lemma sqlite3GetToken_Nil [simp]: "sqlite3GetToken [] = Some (0, TK_ILLEGAL)"
  by (simp add: sqlite3GetToken_def char_class_eq class_nat_def)

lemma sql_tokens_step:
  assumes "sqlite3GetToken z = Some (n, t)" "1 \<le> n" "n \<le> length z"
  shows "sql_tokens z = map_option (Cons (t, take n z)) (sql_tokens (drop n z))"
  using assms by (subst sql_tokens.simps) auto

text \<open>
  What a client of the tokenizer relies on: a function that gives the length and type of the first
  token, and the list of tokens it induces. The tokens take the text apart completely.
\<close>

locale token_source =
  fixes get :: "u8 list \<Rightarrow> (nat \<times> nat) option"
    and toks :: "u8 list \<Rightarrow> (nat \<times> u8 list) list option"
  assumes progress: "z \<noteq> [] \<Longrightarrow> 0 \<notin> set z \<Longrightarrow> \<exists>n t. get z = Some (n, t) \<and> 1 \<le> n \<and> n \<le> length z"
    and toks_Nil: "toks [] = Some []"
    and toks_step: "get z = Some (n, t) \<Longrightarrow> 1 \<le> n \<Longrightarrow> n \<le> length z \<Longrightarrow>
      toks z = map_option (Cons (t, take n z)) (toks (drop n z))"
begin

lemma partition:
  "0 \<notin> set z \<Longrightarrow> \<exists>ts. toks z = Some ts \<and> concat (map snd ts) = z \<and> (\<forall>(t, w) \<in> set ts. w \<noteq> [])"
proof (induction z rule: length_induct)
  case (1 z)
  show ?case
  proof (cases "z = []")
    case False
    then obtain n t where t: "get z = Some (n, t)" "1 \<le> n" "n \<le> length z"
      using "1.prems" progress by blast
    then obtain ts where ts: "toks (drop n z) = Some ts" "concat (map snd ts) = drop n z"
        "\<forall>(t, w) \<in> set ts. w \<noteq> []"
      using "1.IH" [rule_format, of "drop n z"] "1.prems" False by (auto dest: in_set_dropD)
    have "take n z \<noteq> []" using t False by auto
    with ts show ?thesis by (auto simp: toks_step [OF t])
  qed (simp add: toks_Nil)
qed

lemma tokens_total: "0 \<notin> set z \<Longrightarrow> toks z \<noteq> None"
  using partition by blast

lemma text_of_tokens: "toks z = Some ts \<Longrightarrow> 0 \<notin> set z \<Longrightarrow> concat (map snd ts) = z"
  using partition by fastforce

lemma tokens_Cons:
  assumes "toks z = Some ts" "z \<noteq> []" "0 \<notin> set z"
  obtains n t r where "get z = Some (n, t)" "1 \<le> n" "n \<le> length z"
    "ts = (t, take n z) # r" "toks (drop n z) = Some r" "0 \<notin> set (drop n z)"
proof -
  obtain n t where t: "get z = Some (n, t)" "1 \<le> n" "n \<le> length z"
    using progress assms(2,3) by blast
  with assms(1,3) that show thesis by (auto simp: toks_step [OF t] dest: in_set_dropD)
qed

end

interpretation sql_text: token_source sqlite3GetToken sql_tokens
proof unfold_locales
  show "\<exists>n t. sqlite3GetToken z = Some (n, t) \<and> 1 \<le> n \<and> n \<le> length z" if "z \<noteq> []" "0 \<notin> set z" for z
    using sqlite3GetToken_bounds [OF that] by metis
qed (simp_all add: sql_tokens_step)

end
