(* ===== verification/Sqlite_Run_Parser.thy ===== *)
theory Sqlite_Run_Parser
  imports Sqlite_Tokenize
begin

text \<open>
  The loop that feeds the tokens of an SQL text to the parser (\<^verbatim>\<open>tokenize.c\<close> in \<^verbatim>\<open>sqlite3/sqlite3.c\<close>):
  the fallback table, the look-ahead that decides whether \<^verbatim>\<open>WINDOW\<close>, \<^verbatim>\<open>OVER\<close> and \<^verbatim>\<open>FILTER\<close> are keywords,
  and \<^verbatim>\<open>sqlite3RunParser\<close>. The generated parser is a parameter (\<open>feed\<close>), a function of the token and
  the \<^verbatim>\<open>Parse\<close> object. Proved: the assertions on the token types hold, the loop returns for every
  parser, and it feeds exactly the significant tokens of the text.
\<close>

section \<open>State\<close>

text \<open>
  The fields of \<^verbatim>\<open>Parse\<close> that the loop uses; \<open>engine\<close> is the rest of the object with the parser's
  stack. \<open>parse_env\<close> has what the loop reads of the connection: the limit on the length of the
  text, whether comments are ignored (\<^verbatim>\<open>db->init.busy\<close> or the flag), whether errors are suppressed,
  the value of the interrupt flag at each round, and the text of an error code.
\<close>

abbreviation (input) SQLITE_ERROR :: int where "SQLITE_ERROR \<equiv> 1"
abbreviation (input) SQLITE_NOMEM :: int where "SQLITE_NOMEM \<equiv> 7"
abbreviation (input) SQLITE_INTERRUPT :: int where "SQLITE_INTERRUPT \<equiv> 9"
abbreviation (input) SQLITE_TOOBIG :: int where "SQLITE_TOOBIG \<equiv> 18"
abbreviation (input) SQLITE_DONE :: int where "SQLITE_DONE \<equiv> 101"

record 'e parse =
  parse_rc :: int
  nErr :: nat
  zErrMsg :: "u8 list option"
  zTail :: "u8 list"
  sLastToken :: "u8 list"
  mallocFailed :: bool
  engine :: 'e

record parse_env =
  sql_length_limit :: int
  ignore_comments :: bool
  suppressErr :: bool
  isInterrupted :: "nat \<Rightarrow> bool"
  errStr :: "int \<Rightarrow> u8 list"

type_synonym 'e feeder = "nat \<Rightarrow> u8 list \<Rightarrow> 'e parse \<Rightarrow> 'e parse"

section \<open>Look-ahead\<close>

definition yyFallback :: "nat list" where
  "yyFallback =
     [0, 0, 60, 60, 60, 60, 0, 60, 60, 60, 0, 60, 60, 60, 60, 0, 0, 0, 60, 0, 0, 60,
      0, 0, 0, 0, 60, 60, 60, 60, 60, 60, 60, 60, 60, 60, 60, 60, 60, 60, 60, 60, 60, 0,
      0, 0, 0, 60, 60, 0, 0, 0, 0, 0, 0, 0, 0, 0, 0, 0, 0, 60, 60, 60, 60, 60,
      60, 60, 60, 60, 60, 60, 60, 60, 60, 60, 60, 60, 60, 60, 60, 60, 60, 60, 60, 60, 60, 60,
      60, 60, 60, 60, 60, 60, 60, 60, 60, 60, 60, 60, 60, 60, 0, 0, 0, 0, 0, 0, 0, 0,
      0, 0, 0, 0, 0, 0, 0, 0, 0, 0, 0, 0, 0, 0, 0, 0, 0, 0, 0, 0, 0, 0,
      0, 0, 0, 0, 0, 0, 0, 0, 0, 0, 0, 0, 0, 0, 0, 0, 0, 0, 0, 0, 0, 0,
      0, 0, 0, 0, 0, 0, 0, 0, 0, 0, 0, 0, 0, 0, 0, 0, 0, 0, 0, 0, 0, 0,
      0, 0, 0, 0, 0, 0, 0, 0, 0, 0, 0]"

definition sqlite3ParserFallback :: "nat \<Rightarrow> nat" where
  "sqlite3ParserFallback iToken = yyFallback ! iToken"

text \<open>The type that \<open>getToken\<close> returns for a token: names and what may serve as a name are \<open>TK_ID\<close>.\<close>

definition as_id :: "nat \<Rightarrow> nat" where
  "as_id t =
     (if t = TK_ID \<or> t = TK_STRING \<or> t = TK_JOIN_KW \<or> t = TK_WINDOW \<or> t = TK_OVER \<or>
         sqlite3ParserFallback t = TK_ID
      then TK_ID else t)"

partial_function (option) getToken :: "u8 list \<Rightarrow> (nat \<times> u8 list) option" where
  [code]: "getToken z =
     (case sqlite3GetToken z of
        None \<Rightarrow> None
      | Some (n, t) \<Rightarrow>
          if t = TK_SPACE \<or> t = TK_COMMENT then getToken (drop n z) else Some (as_id t, drop n z))"

definition analyzeWindowKeyword :: "u8 list \<Rightarrow> nat option" where
  "analyzeWindowKeyword z =
     (case getToken z of
        None \<Rightarrow> None
      | Some (t, z) \<Rightarrow>
          if t \<noteq> TK_ID then Some TK_ID
          else (case getToken z of
                  None \<Rightarrow> None
                | Some (t, z) \<Rightarrow> if t \<noteq> TK_AS then Some TK_ID else Some TK_WINDOW))"

definition analyzeOverKeyword :: "u8 list \<Rightarrow> nat option \<Rightarrow> nat option" where
  "analyzeOverKeyword z lastToken =
     (if lastToken = Some TK_RP
      then (case getToken z of
              None \<Rightarrow> None
            | Some (t, z) \<Rightarrow> if t = TK_LP \<or> t = TK_ID then Some TK_OVER else Some TK_ID)
      else Some TK_ID)"

definition analyzeFilterKeyword :: "u8 list \<Rightarrow> nat option \<Rightarrow> nat option" where
  "analyzeFilterKeyword z lastToken =
     (if lastToken = Some TK_RP
      then (case getToken z of
              None \<Rightarrow> None
            | Some (t, z) \<Rightarrow> if t = TK_LP then Some TK_FILTER else Some TK_ID)
      else Some TK_ID)"

section \<open>The loop\<close>

text \<open>
  What one round does with the token of length \<open>n\<close> and type \<open>t\<close> at the start of \<open>z\<close>: pass over it, stop
  because of an interrupt, at the end of the input or because of an unrecognized token, or feed
  the parser a token of a type and length. \<open>lastTok\<close> is \<^verbatim>\<open>lastTokenParsed\<close> with \<open>None\<close> for \<^verbatim>\<open>-1\<close>.
\<close>

datatype loop_action = Skip | Interrupted | Finish | Unrecognized | Feed nat nat

definition token_action ::
    "parse_env \<Rightarrow> nat \<Rightarrow> u8 list \<Rightarrow> nat \<Rightarrow> nat \<Rightarrow> nat option \<Rightarrow> loop_action option" where
  "token_action env k z n t lastTok =
     (if t \<ge> TK_WINDOW
      then if isInterrupted env k then Some Interrupted
           else if t = TK_SPACE then Some Skip
           else if at z 0 = 0
                then if lastTok = Some TK_SEMI then Some (Feed 0 0)
                     else if lastTok = Some 0 then Some Finish
                     else Some (Feed TK_SEMI 0)
           else if t = TK_WINDOW then map_option (\<lambda>t. Feed t n) (analyzeWindowKeyword (drop 6 z))
           else if t = TK_OVER then map_option (\<lambda>t. Feed t n) (analyzeOverKeyword (drop 4 z) lastTok)
           else if t = TK_FILTER then map_option (\<lambda>t. Feed t n) (analyzeFilterKeyword (drop 6 z) lastTok)
           else if t = TK_COMMENT \<and> ignore_comments env then Some Skip
           else if t \<noteq> TK_QNUMBER then Some Unrecognized
           else Some (Feed t n)
      else Some (Feed t n))"

text \<open>\<^verbatim>\<open>sqlite3ErrorMsg\<close>, for a message that could be allocated.\<close>

definition sqlite3ErrorMsg :: "parse_env \<Rightarrow> u8 list \<Rightarrow> 'e parse \<Rightarrow> 'e parse" where
  "sqlite3ErrorMsg env zMsg p =
     (if suppressErr env
      then if mallocFailed p then p\<lparr>nErr := nErr p + 1, parse_rc := SQLITE_NOMEM\<rparr> else p
      else p\<lparr>nErr := nErr p + 1, zErrMsg := Some zMsg, parse_rc := SQLITE_ERROR\<rparr>)"

definition unrecognized_token :: "u8 list \<Rightarrow> u8 list" where
  "unrecognized_token w = bytes_of ''unrecognized token: '' @ [0x22] @ w @ [0x22]"

partial_function (option) parse_loop ::
    "parse_env \<Rightarrow> 'e feeder \<Rightarrow> nat \<Rightarrow> u8 list \<Rightarrow> int \<Rightarrow> nat option \<Rightarrow> 'e parse \<Rightarrow>
     ('e parse \<times> u8 list) option" where
  [code]: "parse_loop env feed k zSql mxSqlLen lastTok p =
     (case sqlite3GetToken zSql of
        None \<Rightarrow> None
      | Some (n, t) \<Rightarrow>
          if mxSqlLen - int n < 0
          then Some (p\<lparr>parse_rc := SQLITE_TOOBIG, nErr := nErr p + 1\<rparr>, zSql)
          else (case token_action env k zSql n t lastTok of
                  None \<Rightarrow> None
                | Some act \<Rightarrow>
                    (case act of
                       Skip \<Rightarrow> parse_loop env feed (Suc k) (drop n zSql) (mxSqlLen - int n) lastTok p
                     | Interrupted \<Rightarrow> Some (p\<lparr>parse_rc := SQLITE_INTERRUPT, nErr := nErr p + 1\<rparr>, zSql)
                     | Finish \<Rightarrow> Some (p, zSql)
                     | Unrecognized \<Rightarrow>
                         Some (sqlite3ErrorMsg env (unrecognized_token (take n zSql)) p, zSql)
                     | Feed t' n' \<Rightarrow>
                         (let p' = feed t' (take n' zSql) (p\<lparr>sLastToken := take n' zSql\<rparr>)
                          in if parse_rc p' \<noteq> 0 then Some (p', drop n' zSql)
                             else parse_loop env feed (Suc k) (drop n' zSql) (mxSqlLen - int n)
                                    (Some t') p'))))"

text \<open>The end of \<^verbatim>\<open>sqlite3RunParser\<close>: the error count and the tail of the text.\<close>

definition finish_parse :: "parse_env \<Rightarrow> 'e parse \<times> u8 list \<Rightarrow> nat \<times> 'e parse" where
  "finish_parse env = (\<lambda>(p, zSql).
     let p = (if mallocFailed p then p\<lparr>parse_rc := SQLITE_NOMEM\<rparr> else p);
         bad = (zErrMsg p \<noteq> None \<or> (parse_rc p \<noteq> 0 \<and> parse_rc p \<noteq> SQLITE_DONE));
         p = (if bad \<and> zErrMsg p = None then p\<lparr>zErrMsg := Some (errStr env (parse_rc p))\<rparr> else p)
     in (if bad then 1 else 0, p\<lparr>zTail := zSql\<rparr>))"

definition sqlite3RunParser :: "parse_env \<Rightarrow> 'e feeder \<Rightarrow> 'e parse \<Rightarrow> u8 list \<Rightarrow> (nat \<times> 'e parse) option" where
  "sqlite3RunParser env feed p zSql =
     map_option (finish_parse env)
       (parse_loop env feed 0 zSql (sql_length_limit env) None (p\<lparr>parse_rc := 0, zTail := zSql\<rparr>))"

section \<open>The token types\<close>

text \<open>The assertions of the loop: which types are above \<open>TK_WINDOW\<close>, and the length of the three keywords.\<close>

definition type_ok :: "nat \<times> nat \<Rightarrow> bool" where
  "type_ok = (\<lambda>(n, t).
     t < TK_WINDOW \<or> t \<in> {TK_QNUMBER, TK_SPACE, TK_COMMENT, TK_ILLEGAL} \<or>
     t \<in> {TK_WINDOW, TK_FILTER} \<and> n = 6 \<or> t = TK_OVER \<and> n = 4)"

lemma keyword_types:
  "list_all (\<lambda>k. type_ok (length (fst k), snd k)) sql_keywords"
  by (simp add: sql_keywords_def type_ok_def)

lemma digit_loop_type: "snd (digit_loop D z i t) \<in> {t, TK_QNUMBER}"
proof (induction D z i t rule: digit_loop.induct)
  case (1 D z i t)
  then show ?case by (subst digit_loop.simps) auto
qed

lemma number_token_type: "type_ok (number_token z)"
proof -
  have f: "snd (fraction z p) \<in> {snd p, TK_FLOAT, TK_QNUMBER}" for p
    using digit_loop_type [of sqlite3Isdigit z "Suc (fst p)" "if snd p = TK_INTEGER then TK_FLOAT else snd p"]
    by (auto simp: fraction_def case_prod_beta split: if_splits)
  have g: "snd (exponent z p) \<in> {snd p, TK_FLOAT, TK_QNUMBER}" for p
    using digit_loop_type [of sqlite3Isdigit z "fst p + 2" "if snd p = TK_INTEGER then TK_FLOAT else snd p"]
    by (auto simp: exponent_def case_prod_beta split: if_splits)
  have e: "snd (exponent z (fraction z (digit_loop sqlite3Isdigit z 0 TK_INTEGER)))
      \<in> {TK_INTEGER, TK_FLOAT, TK_QNUMBER}"
    using digit_loop_type [of sqlite3Isdigit z 0 TK_INTEGER] f [of "digit_loop sqlite3Isdigit z 0 TK_INTEGER"]
      g [of "fraction z (digit_loop sqlite3Isdigit z 0 TK_INTEGER)"] by auto
  have x: "snd (digit_loop sqlite3Isxdigit z 3 TK_INTEGER) \<in> {TK_INTEGER, TK_QNUMBER}"
    by (rule digit_loop_type)
  show ?thesis
    using e x by (auto simp: number_token_def Let_def type_ok_def case_prod_beta)
qed

lemma paren_suffix_type: "snd (snd (paren_suffix z i n t)) \<in> {t, TK_ILLEGAL}"
  by (simp add: paren_suffix_def Let_def)

lemma variable_loop_type: "snd (snd (variable_loop z i n t)) \<in> {t, TK_ILLEGAL}"
proof (induction z i n t rule: variable_loop.induct)
  case (1 z i n t)
  then show ?case using paren_suffix_type [of z i n t] by (subst variable_loop.simps) auto
qed

lemma word_token_type:
  assumes "0 \<notin> set z" "word_token z = Some p"
  shows "type_ok p"
proof -
  let ?i = "run (\<lambda>c. char_class c \<le> CC_KYWD) z 2"
  have "type_ok (id_tail z i)" for i by (simp add: id_tail_def type_ok_def)
  moreover have "type_ok (?i, t)" if k: "keywordCode z ?i TK_ID = Some t" "\<not> char_class (at z 1) > CC_KYWD" for t
  proof -
    have "at z 1 \<noteq> 0" using k(2) by (auto simp: char_class_word not_less sqlite3Isalpha_iff)
    then have "2 \<le> length z" using at_nonzero_less [of z 1] by simp
    then have i: "2 \<le> ?i" "?i \<le> length z" using run_bounds [of 2 z] by auto
    show ?thesis
    proof (cases "find (\<lambda>k. map upcase (take ?i z) = bytes_of (fst k)) sql_keywords")
      case None
      with k(1) show ?thesis by (simp add: keywordCode_eq [OF i] type_ok_def)
    next
      case (Some k')
      then have "k' \<in> set sql_keywords" and b: "map upcase (take ?i z) = bytes_of (fst k')"
        unfolding find_Some_iff by (metis nth_mem)+
      then have "type_ok (length (fst k'), snd k')" using keyword_types by (auto simp: list_all_iff)
      moreover have "length (fst k') = ?i"
        using arg_cong [OF b, of length] i(2) by (simp add: bytes_of_def)
      ultimately show ?thesis using k(1) Some by (simp add: keywordCode_eq [OF i])
    qed
  qed
  ultimately show ?thesis
    using assms(2) by (auto simp: word_token_def Let_def split: if_splits)
qed

lemma sqlite3GetToken_type:
  assumes "0 \<notin> set z" "sqlite3GetToken z = Some p"
  shows "type_ok p"
proof -
  have "type_ok (id_tail z i)" for i by (simp add: id_tail_def type_ok_def)
  moreover have "type_ok (quote_token z)" "type_ok (bracket_token z)" "type_ok (slash_token z)"
    "type_ok (minus_token z)" "type_ok (x_token z)"
    by (auto simp: type_ok_def quote_token_def bracket_token_def slash_token_def minus_token_def x_token_def
        id_tail_def Let_def split: prod.splits)
  moreover have "type_ok (variable_token z)"
    using variable_loop_type [of z 1 0 TK_VARIABLE]
    by (auto simp: type_ok_def variable_token_def split: prod.splits)
  moreover have "type_ok (n, t)" if "t < TK_WINDOW \<or> t = TK_SPACE \<or> t = TK_ILLEGAL" for n t
    using that by (auto simp: type_ok_def)
  ultimately show ?thesis
    using assms(2) number_token_type word_token_type [OF assms(1)]
    by (auto simp: sqlite3GetToken_def Let_def split: if_splits)
qed

section \<open>Refinement to token lists\<close>

text \<open>
  \<open>sql_tokens\<close> is the list of all tokens of the text; the loop is described on that list. \<open>next_id\<close> is
  \<open>getToken\<close>, \<open>token_type\<close> the decision on the three special keywords, and \<open>parser_input\<close> the tokens the
  parser is to see.
\<close>

definition blank :: "nat \<times> u8 list \<Rightarrow> bool" where
  "blank = (\<lambda>(t, w). t = TK_SPACE \<or> t = TK_COMMENT)"

definition next_id :: "(nat \<times> u8 list) list \<Rightarrow> nat \<times> (nat \<times> u8 list) list" where
  "next_id ts = (case dropWhile blank ts of [] \<Rightarrow> (TK_ILLEGAL, []) | (t, w) # r \<Rightarrow> (as_id t, r))"

definition token_type :: "nat option \<Rightarrow> nat \<Rightarrow> (nat \<times> u8 list) list \<Rightarrow> nat" where
  "token_type lastTok t ts =
     (let (a, r) = next_id ts
      in if t = TK_WINDOW then (if a = TK_ID \<and> fst (next_id r) = TK_AS then TK_WINDOW else TK_ID)
         else if t = TK_OVER
              then (if lastTok = Some TK_RP \<and> (a = TK_LP \<or> a = TK_ID) then TK_OVER else TK_ID)
         else if t = TK_FILTER then (if lastTok = Some TK_RP \<and> a = TK_LP then TK_FILTER else TK_ID)
         else t)"

lemma as_id_illegal [simp]: "as_id TK_ILLEGAL = TK_ILLEGAL"
  by (simp add: as_id_def sqlite3ParserFallback_def yyFallback_def)

lemma getToken_next_id:
  assumes "sql_tokens z = Some ts" "0 \<notin> set z"
  shows "\<exists>z'. getToken z = Some (fst (next_id ts), z') \<and> sql_tokens z' = Some (snd (next_id ts)) \<and> 0 \<notin> set z'"
  using assms
proof (induction z arbitrary: ts rule: length_induct)
  case (1 z)
  show ?case
  proof (cases "z = []")
    case True
    with "1.prems" show ?thesis by (subst getToken.simps) (simp add: next_id_def)
  next
    case False
    obtain n t r where t: "sqlite3GetToken z = Some (n, t)" "1 \<le> n" "n \<le> length z"
      "ts = (t, take n z) # r" "sql_tokens (drop n z) = Some r" "0 \<notin> set (drop n z)"
      using sql_text.tokens_Cons [OF "1.prems"(1) False "1.prems"(2)] .
    have "\<exists>z'. getToken (drop n z) = Some (fst (next_id r), z') \<and> sql_tokens z' = Some (snd (next_id r)) \<and> 0 \<notin> set z'"
      using "1.IH" [rule_format, of "drop n z" r] t False by simp
    moreover have "next_id ts = next_id r" if "t = TK_SPACE \<or> t = TK_COMMENT"
      using that by (simp add: t(4) next_id_def blank_def)
    moreover have "next_id ts = (as_id t, r)" if "\<not> (t = TK_SPACE \<or> t = TK_COMMENT)"
      using that by (simp add: t(4) next_id_def blank_def)
    ultimately show ?thesis using t by (subst getToken.simps) auto
  qed
qed

lemma analyze_token_type:
  assumes "sql_tokens z = Some ts" "0 \<notin> set z"
  shows "analyzeWindowKeyword z = Some (token_type lastTok TK_WINDOW ts)"
    "analyzeOverKeyword z lastTok = Some (token_type lastTok TK_OVER ts)"
    "analyzeFilterKeyword z lastTok = Some (token_type lastTok TK_FILTER ts)"
proof -
  obtain z' where z': "getToken z = Some (fst (next_id ts), z')" "sql_tokens z' = Some (snd (next_id ts))" "0 \<notin> set z'"
    using getToken_next_id [OF assms] by blast
  obtain z'' where z'': "getToken z' = Some (fst (next_id (snd (next_id ts))), z'')"
    using getToken_next_id [OF z'(2,3)] by blast
  show "analyzeWindowKeyword z = Some (token_type lastTok TK_WINDOW ts)"
    "analyzeOverKeyword z lastTok = Some (token_type lastTok TK_OVER ts)"
    "analyzeFilterKeyword z lastTok = Some (token_type lastTok TK_FILTER ts)"
    using z'(1) z'' by (auto simp: analyzeWindowKeyword_def analyzeOverKeyword_def analyzeFilterKeyword_def
        token_type_def Let_def split: prod.splits)
qed

lemma token_action_cases:
  assumes "sql_tokens z = Some ts" "z \<noteq> []" "0 \<notin> set z" "sqlite3GetToken z = Some (n, t)"
  shows "token_action env k z n t lastTok =
    Some (if t \<ge> TK_WINDOW \<and> isInterrupted env k then Interrupted
          else if t = TK_SPACE \<or> t = TK_COMMENT \<and> ignore_comments env then Skip
          else if t = TK_ILLEGAL \<or> t = TK_COMMENT then Unrecognized
          else Feed (token_type lastTok t (tl ts)) n)"
proof -
  obtain r where r: "ts = (t, take n z) # r" "sql_tokens (drop n z) = Some r" "0 \<notin> set (drop n z)"
    using sql_text.tokens_Cons [OF assms(1-3)] assms(4) by (metis option.inject prod.inject)
  have z0: "at z 0 \<noteq> 0" using at_nonzero_iff [OF assms(3), of 0] assms(2) by simp
  have ty: "type_ok (n, t)" using sqlite3GetToken_type [OF assms(3,4)] .
  consider "t < TK_WINDOW" | "t \<in> {TK_QNUMBER, TK_SPACE, TK_COMMENT, TK_ILLEGAL}" | "t = TK_WINDOW" "n = 6"
    | "t = TK_FILTER" "n = 6" | "t = TK_OVER" "n = 4"
    using ty by (auto simp: type_ok_def)
  then show ?thesis
    using z0 r analyze_token_type [OF r(2,3), of lastTok]
    by cases (auto simp: token_action_def token_type_def Let_def split: prod.splits)
qed

text \<open>
  After the last token the parser is fed a semicolon, unless it has just had one, and the end
  marker. \<open>token_run\<close> is the whole loop for a text within the length limit, with comments ignored and
  no interrupt: the resulting object and the tokens that are left.
\<close>

definition end_tokens :: "nat option \<Rightarrow> (nat \<times> u8 list) list" where
  "end_tokens lastTok =
     (if lastTok = Some TK_SEMI then [(0, [])] else if lastTok = Some 0 then []
      else [(TK_SEMI, []), (0, [])])"

fun feed_all :: "'e feeder \<Rightarrow> (nat \<times> u8 list) list \<Rightarrow> 'e parse \<Rightarrow> 'e parse" where
  "feed_all feed [] p = p"
| "feed_all feed ((t, w) # ts) p =
     (let p' = feed t w (p\<lparr>sLastToken := w\<rparr>) in if parse_rc p' \<noteq> 0 then p' else feed_all feed ts p')"

fun token_run ::
    "parse_env \<Rightarrow> 'e feeder \<Rightarrow> nat option \<Rightarrow> (nat \<times> u8 list) list \<Rightarrow> 'e parse \<Rightarrow>
     'e parse \<times> (nat \<times> u8 list) list" where
  "token_run env feed lastTok [] p = (feed_all feed (end_tokens lastTok) p, [])"
| "token_run env feed lastTok ((t, w) # ts) p =
     (if blank (t, w) then token_run env feed lastTok ts p
      else if t = TK_ILLEGAL then (sqlite3ErrorMsg env (unrecognized_token w) p, (t, w) # ts)
      else let t' = token_type lastTok t ts; p' = feed t' w (p\<lparr>sLastToken := w\<rparr>)
           in if parse_rc p' \<noteq> 0 then (p', ts) else token_run env feed (Some t') ts p')"

lemma parse_loop_end:
  assumes "0 \<le> mx" "\<And>k. \<not> isInterrupted env k"
  shows "parse_loop env feed k [] mx lastTok p = Some (feed_all feed (end_tokens lastTok) p, [])"
proof -
  have act: "token_action env k [] 0 TK_ILLEGAL l =
    Some (if l = Some TK_SEMI then Feed 0 0 else if l = Some 0 then Finish else Feed TK_SEMI 0)" for k l
    using assms(2) by (simp add: token_action_def)
  have fin: "parse_loop env feed k [] mx (Some 0) p = Some (p, [])" for k p
    using assms(1) by (subst parse_loop.simps) (simp add: act)
  have semi: "parse_loop env feed k [] mx (Some TK_SEMI) p = Some (feed_all feed [(0, [])] p, [])" for k p
    using assms(1) by (subst parse_loop.simps) (simp add: act fin Let_def)
  show ?thesis
  proof (cases "lastTok = Some TK_SEMI \<or> lastTok = Some 0")
    case True
    then show ?thesis using fin semi by (auto simp: end_tokens_def)
  next
    case False
    then show ?thesis
      using assms(1) by (subst parse_loop.simps) (simp add: act semi [simplified] end_tokens_def Let_def)
  qed
qed

lemma parse_loop_tokens:
  assumes "sql_tokens z = Some ts" "0 \<notin> set z" "int (length z) \<le> mx"
    and "\<And>k. \<not> isInterrupted env k" "ignore_comments env"
  shows "parse_loop env feed k z mx lastTok p =
    Some (apsnd (\<lambda>r. concat (map snd r)) (token_run env feed lastTok ts p))"
  using assms(1-3)
proof (induction ts arbitrary: z mx k lastTok p)
  case Nil
  then have "z = []" using sql_text.text_of_tokens by fastforce
  with Nil show ?case by (simp add: parse_loop_end assms(4))
next
  case (Cons tw ts)
  have "z \<noteq> []" using Cons.prems(1) by auto
  obtain n t where t: "sqlite3GetToken z = Some (n, t)" "1 \<le> n" "n \<le> length z" "tw = (t, take n z)"
      "sql_tokens (drop n z) = Some ts" "0 \<notin> set (drop n z)"
    using sql_text.tokens_Cons [OF Cons.prems(1) \<open>z \<noteq> []\<close> Cons.prems(2)] by (metis list.inject)
  have act: "token_action env k z n t lastTok =
    Some (if t = TK_SPACE \<or> t = TK_COMMENT then Skip else if t = TK_ILLEGAL then Unrecognized
          else Feed (token_type lastTok t ts) n)"
    using token_action_cases [OF Cons.prems(1) \<open>z \<noteq> []\<close> Cons.prems(2) t(1), of env k lastTok] assms(4,5)
    by simp
  have z: "concat (map snd (tw # ts)) = z" "concat (map snd ts) = drop n z"
    using sql_text.text_of_tokens [OF Cons.prems(1,2)] sql_text.text_of_tokens [OF t(5,6)] by auto
  have mx: "\<not> mx - int n < 0" "int (length (drop n z)) \<le> mx - int n" using Cons.prems(3) t(3) by auto
  show ?case
    using Cons.IH [OF t(5,6) mx(2)] mx(1) z
    by (subst parse_loop.simps) (simp add: t(1,4) act blank_def Let_def)
qed

section \<open>The loop always returns\<close>

definition end_rank :: "nat option \<Rightarrow> nat" where
  "end_rank lastTok = (if lastTok = Some 0 then 0 else if lastTok = Some TK_SEMI then 1 else 2)"

lemma parse_loop_returns:
  "0 \<notin> set z \<Longrightarrow> \<exists>r. parse_loop env feed k z mx lastTok p = Some r"
proof (induction "3 * length z + end_rank lastTok" arbitrary: z k mx lastTok p rule: less_induct)
  case less
  show ?case
  proof (cases "z = []")
    case True
    have step: "\<exists>r. parse_loop env feed k' z mx' (Some t) p' = Some r"
      if "end_rank (Some t) < end_rank lastTok" for k' mx' t p'
      using less.hyps [of z "Some t"] less.prems that by simp
    show ?thesis
      using True step [of TK_SEMI] step [of 0]
      by (subst parse_loop.simps) (auto simp: token_action_def end_rank_def Let_def)
  next
    case False
    obtain ts where ts: "sql_tokens z = Some ts" using sql_text.partition [OF less.prems] by blast
    obtain n t where t: "sqlite3GetToken z = Some (n, t)" "1 \<le> n" "n \<le> length z"
      using sqlite3GetToken_bounds [OF False less.prems] .
    have "3 * length (drop n z) + end_rank l < 3 * length z + end_rank lastTok" for l
    proof -
      have "end_rank l \<le> 2" by (simp add: end_rank_def)
      moreover have "length (drop n z) + 1 \<le> length z" using t(2,3) by simp
      ultimately show ?thesis by linarith
    qed
    then have step: "\<exists>r. parse_loop env feed k' (drop n z) mx' l p' = Some r" for k' mx' l p'
      using less.hyps [of "drop n z" l] less.prems by (metis in_set_dropD)
    show ?thesis
      using step token_action_cases [OF ts False less.prems t(1), of env k lastTok]
      by (subst parse_loop.simps) (auto simp: t(1) Let_def)
  qed
qed

end
