(* ===== verification/Sqlite_Complete.thy ===== *)
theory Sqlite_Complete
  imports Sqlite_Tokenize
begin

text \<open>
  \<^verbatim>\<open>sqlite3_complete\<close> of the bundled SQLite (\<^verbatim>\<open>complete.c\<close> in \<^verbatim>\<open>sqlite3/sqlite3.c\<close>): the state machine that
  tells whether a text ends in a complete statement. It is shown to accept exactly the texts that
  are a sequence of finished statements, where a trigger definition is finished by
  \<^verbatim>\<open>; END ;\<close> and every other statement by its first semicolon.
\<close>

section \<open>Model\<close>

abbreviation (input) tkSEMI :: nat where "tkSEMI \<equiv> 0"
abbreviation (input) tkWS :: nat where "tkWS \<equiv> 1"
abbreviation (input) tkOTHER :: nat where "tkOTHER \<equiv> 2"
abbreviation (input) tkEXPLAIN :: nat where "tkEXPLAIN \<equiv> 3"
abbreviation (input) tkCREATE :: nat where "tkCREATE \<equiv> 4"
abbreviation (input) tkTEMP :: nat where "tkTEMP \<equiv> 5"
abbreviation (input) tkTRIGGER :: nat where "tkTRIGGER \<equiv> 6"
abbreviation (input) tkEND :: nat where "tkEND \<equiv> 7"

definition trans_table :: "nat list list" where
  "trans_table =
     [[1, 0, 2, 3, 4, 2, 2, 2],
      [1, 1, 2, 3, 4, 2, 2, 2],
      [1, 2, 2, 2, 2, 2, 2, 2],
      [1, 3, 3, 2, 4, 2, 2, 2],
      [1, 4, 2, 2, 2, 4, 5, 2],
      [6, 5, 5, 5, 5, 5, 5, 5],
      [6, 6, 5, 5, 5, 5, 5, 7],
      [1, 7, 5, 5, 5, 5, 5, 5]]"

text \<open>
  One round of the switch: leave with 0, leave with the test of the state, or a token and the
  position of its last byte.
\<close>

datatype scan_result = ReturnZero | ReturnState | Token nat "u8 list"

function skip_comment :: "u8 list \<Rightarrow> u8 list" where
  "skip_comment z =
     (if at z 0 \<noteq> 0 \<and> (at z 0 \<noteq> 0x2A \<or> at z 1 \<noteq> 0x2F) then skip_comment (tl z) else z)"
  by pat_completeness auto
termination
  by (relation "measure length") (auto simp: strings_shrink simp del: length_tl)

declare skip_comment.simps [simp del]

definition skip_to :: "u8 \<Rightarrow> u8 list \<Rightarrow> u8 list" where
  "skip_to c z = dropWhile (\<lambda>b. b \<noteq> 0 \<and> b \<noteq> c) z"

definition is_word :: "u8 list \<Rightarrow> nat \<Rightarrow> string \<Rightarrow> bool" where
  "is_word z nId w \<longleftrightarrow>
     nId = length w \<and> sqlite3_strnicmp (Some z) (Some (bytes_of w)) (int (length w)) = 0"

definition word_mark :: "u8 list \<Rightarrow> nat \<Rightarrow> nat" where
  "word_mark z nId =
     (if at z 0 = 0x63 \<or> at z 0 = 0x43 then (if is_word z nId ''create'' then tkCREATE else tkOTHER)
      else if at z 0 = 0x74 \<or> at z 0 = 0x54
           then (if is_word z nId ''trigger'' then tkTRIGGER
                 else if is_word z nId ''temp'' then tkTEMP
                 else if is_word z nId ''temporary'' then tkTEMP else tkOTHER)
      else if at z 0 = 0x65 \<or> at z 0 = 0x45
           then (if is_word z nId ''end'' then tkEND
                 else if is_word z nId ''explain'' then tkEXPLAIN else tkOTHER)
      else tkOTHER)"

definition scan_token :: "u8 list \<Rightarrow> scan_result" where
  "scan_token z =
     (let c = at z 0
      in if c = 0x3B then Token tkSEMI z
         else if c = 0x20 \<or> c = 0x0D \<or> c = 0x09 \<or> c = 0x0A \<or> c = 0x0C then Token tkWS z
         else if c = 0x2F
              then if at z 1 \<noteq> 0x2A then Token tkOTHER z
                   else let z = skip_comment (drop 2 z)
                        in if at z 0 = 0 then ReturnZero else Token tkWS (tl z)
         else if c = 0x2D
              then if at z 1 \<noteq> 0x2D then Token tkOTHER z
                   else let z = skip_to 0x0A z
                        in if at z 0 = 0 then ReturnState else Token tkWS z
         else if c = 0x5B
              then let z = skip_to 0x5D (tl z)
                   in if at z 0 = 0 then ReturnZero else Token tkOTHER z
         else if c = 0x60 \<or> c = 0x22 \<or> c = 0x27
              then let z = skip_to c (tl z)
                   in if at z 0 = 0 then ReturnZero else Token tkOTHER z
         else if IdChar c
              then let nId = run IdChar z 1 in Token (word_mark z nId) (drop (nId - 1) z)
         else Token tkOTHER z)"

lemma skip_comment_length: "length (skip_comment z) \<le> length z"
proof (induction z rule: skip_comment.induct)
  case (1 z)
  then show ?case by (subst skip_comment.simps) (auto intro: le_trans)
qed

lemma skip_to_length: "length (skip_to c z) \<le> length z"
  by (simp add: skip_to_def length_dropWhile_le)

lemma scan_token_length: "scan_token z = Token t z' \<Longrightarrow> length z' \<le> length z"
  using skip_comment_length [of "drop 2 z"] skip_to_length [of _ z] skip_to_length [of _ "tl z"]
  by (auto simp: scan_token_def Let_def split: if_splits)
     (metis diff_le_self le_trans length_tl)+

function complete_loop :: "nat \<Rightarrow> u8 list \<Rightarrow> bool" where
  "complete_loop state z =
     (if at z 0 = 0 then state = 1
      else case scan_token z of
             ReturnZero \<Rightarrow> False
           | ReturnState \<Rightarrow> state = 1
           | Token t z' \<Rightarrow> complete_loop (trans_table ! state ! t) (tl z'))"
  by pat_completeness auto
termination
proof (relation "measure (\<lambda>(s, z). length z)")
  fix state z t z' assume "at z 0 \<noteq> 0" "scan_token z = Token t z'"
  then have "length (tl z') < length z"
    using scan_token_length [of z t z'] at_nonzero_less [of z 0] by (cases z') auto
  then show "((trans_table ! state ! t, tl z'), state, z) \<in> measure (\<lambda>(s, z). length z)" by simp
qed simp

declare complete_loop.simps [simp del]

definition sqlite3_complete :: "u8 list \<Rightarrow> bool" where
  "sqlite3_complete zSql = complete_loop 0 zSql"

section \<open>Specification\<close>

text \<open>
  \<open>sql_marks\<close> is the sequence of the machine's tokens, \<open>None\<close> when a comment or quoted text is not
  closed. On the tokens that are not white space, \<open>trigger_body\<close> recognises the beginning of a trigger
  definition and \<open>after_statement\<close> gives what follows the first statement.
\<close>

function sql_marks :: "u8 list \<Rightarrow> nat list option" where
  "sql_marks z =
     (if at z 0 = 0 then Some []
      else case scan_token z of
             ReturnZero \<Rightarrow> None
           | ReturnState \<Rightarrow> Some []
           | Token t z' \<Rightarrow> map_option (Cons t) (sql_marks (tl z')))"
  by pat_completeness auto
termination
proof (relation "measure length")
  fix z t z' assume "at z 0 \<noteq> 0" "scan_token z = Token t z'"
  then show "(tl z', z) \<in> measure length"
    using scan_token_length [of z t z'] at_nonzero_less [of z 0] by (cases z') auto
qed simp

declare sql_marks.simps [simp del]

fun after_semi :: "nat list \<Rightarrow> nat list option" where
  "after_semi [] = None"
| "after_semi (t # ts) = (if t = tkSEMI then Some ts else after_semi ts)"

fun after_end :: "nat list \<Rightarrow> nat list option" where
  "after_end [] = None"
| "after_end (t # ts) =
     (if t = tkSEMI \<and> take 2 ts = [tkEND, tkSEMI] then Some (drop 2 ts) else after_end ts)"

definition create_body :: "nat list \<Rightarrow> nat list option" where
  "create_body ts =
     (case dropWhile (\<lambda>t. t = tkTEMP) ts of
        [] \<Rightarrow> None | t # r \<Rightarrow> if t = tkTRIGGER then Some r else None)"

definition explain_body :: "nat list \<Rightarrow> nat list option" where
  "explain_body ts =
     (case dropWhile (\<lambda>t. t = tkOTHER) ts of
        [] \<Rightarrow> None | t # r \<Rightarrow> if t = tkCREATE then create_body r else None)"

definition trigger_body :: "nat list \<Rightarrow> nat list option" where
  "trigger_body ts =
     (case ts of
        [] \<Rightarrow> None
      | t # r \<Rightarrow> if t = tkCREATE then create_body r else if t = tkEXPLAIN then explain_body r else None)"

definition after_statement :: "nat list \<Rightarrow> nat list option" where
  "after_statement ts = (case trigger_body ts of None \<Rightarrow> after_semi ts | Some r \<Rightarrow> after_end r)"

lemma after_semi_length: "after_semi ts = Some r \<Longrightarrow> length r < length ts"
  by (induction ts) (auto split: if_splits)

lemma after_end_length: "after_end ts = Some r \<Longrightarrow> length r < length ts"
  by (induction ts) (auto split: if_splits)

lemma create_body_length: "create_body ts = Some r \<Longrightarrow> length r < length ts"
  using length_dropWhile_le [of "\<lambda>t. t = tkTEMP" ts]
  by (auto simp: create_body_def split: list.splits if_splits)

lemma explain_body_length: "explain_body ts = Some r \<Longrightarrow> length r < length ts"
  using length_dropWhile_le [of "\<lambda>t. t = tkOTHER" ts] create_body_length
  by (fastforce simp: explain_body_def split: list.splits if_splits)

lemma trigger_body_length: "trigger_body ts = Some r \<Longrightarrow> length r < length ts"
  using create_body_length explain_body_length
  by (fastforce simp: trigger_body_def split: list.splits if_splits)

lemma after_statement_length: "after_statement ts = Some r \<Longrightarrow> length r < length ts"
  using after_semi_length after_end_length trigger_body_length less_trans
  by (fastforce simp: after_statement_def split: option.splits)

function finished_statements :: "nat list \<Rightarrow> bool" where
  "finished_statements ts \<longleftrightarrow>
     ts = [] \<or> (case after_statement ts of None \<Rightarrow> False | Some r \<Rightarrow> finished_statements r)"
  by pat_completeness auto
termination
  by (relation "measure length") (auto dest: after_statement_length)

declare finished_statements.simps [simp del]

section \<open>The machine accepts exactly the finished statements\<close>

fun machine :: "nat \<Rightarrow> nat list \<Rightarrow> nat" where
  "machine s [] = s"
| "machine s (t # ts) = machine (trans_table ! s ! t) ts"

definition accepts :: "nat \<Rightarrow> nat list \<Rightarrow> bool" where
  "accepts s ts \<longleftrightarrow> machine s ts = 1"

lemma complete_loop_machine:
  "complete_loop s z \<longleftrightarrow> (case sql_marks z of None \<Rightarrow> False | Some ts \<Rightarrow> accepts s ts)"
proof (induction s z rule: complete_loop.induct)
  case (1 s z)
  then show ?case
    by (subst complete_loop.simps, subst sql_marks.simps)
       (auto simp: accepts_def split: scan_result.splits option.splits)
qed

text \<open>The rows of the table, and the tokens that occur.\<close>

lemma less_8: "t < (8 :: nat) \<longleftrightarrow> t \<in> {0, 1, 2, 3, 4, 5, 6, 7}"
  by auto

lemma accepts_Nil [simp]: "accepts s [] \<longleftrightarrow> s = 1"
  by (simp add: accepts_def)

lemma accepts_Cons: "accepts s (t # ts) \<longleftrightarrow> accepts (trans_table ! s ! t) ts"
  by (simp add: accepts_def)

lemma trans_closed: "s < 8 \<Longrightarrow> t < 8 \<Longrightarrow> trans_table ! s ! t < 8"
  by (auto simp: less_8 trans_table_def)

lemma trans_ws: "s < 8 \<Longrightarrow> trans_table ! s ! tkWS = s"
  by (auto simp: less_8 trans_table_def)

lemma accepts_filter:
  "s < 8 \<Longrightarrow> \<forall>t \<in> set ts. t < 8 \<Longrightarrow> accepts s ts \<longleftrightarrow> accepts s (filter (\<lambda>t. t \<noteq> tkWS) ts)"
proof (induction ts arbitrary: s)
  case (Cons t ts)
  then show ?case using trans_closed [of s t] trans_ws [of s] by (auto simp: accepts_Cons)
qed simp
definition marks_ok :: "nat list \<Rightarrow> bool" where
  "marks_ok ts \<longleftrightarrow> (\<forall>t \<in> set ts. t < 8 \<and> t \<noteq> tkWS)"

lemma marks_ok_simps [simp]:
  "marks_ok []" "marks_ok (t # ts) \<longleftrightarrow> t \<in> {0, 2, 3, 4, 5, 6, 7} \<and> marks_ok ts"
  by (auto simp: marks_ok_def)

definition then_accepts :: "nat list option \<Rightarrow> bool" where
  "then_accepts r \<longleftrightarrow> (case r of None \<Rightarrow> False | Some ts \<Rightarrow> accepts 1 ts)"

lemma then_accepts_simps [simp]: "\<not> then_accepts None" "then_accepts (Some ts) \<longleftrightarrow> accepts 1 ts"
  by (simp_all add: then_accepts_def)

lemma accepts_normal: "marks_ok ts \<Longrightarrow> accepts 2 ts \<longleftrightarrow> then_accepts (after_semi ts)"
  by (induction ts) (auto simp: accepts_Cons trans_table_def)

lemma accepts_trigger:
  "marks_ok ts \<Longrightarrow>
     (accepts 5 ts \<longleftrightarrow> then_accepts (after_end ts)) \<and>
     (accepts 6 ts \<longleftrightarrow> then_accepts (after_end (tkSEMI # ts))) \<and>
     (accepts 7 ts \<longleftrightarrow> then_accepts (after_end (tkSEMI # tkEND # ts)))"
proof (induction ts)
  case (Cons t ts)
  then have IH: "accepts 5 ts \<longleftrightarrow> then_accepts (after_end ts)"
    "accepts 6 ts \<longleftrightarrow> then_accepts (after_end (tkSEMI # ts))"
    "accepts 7 ts \<longleftrightarrow> then_accepts (after_end (tkSEMI # tkEND # ts))"
    by auto
  consider "t = tkSEMI" | "t = tkEND" | "t = 2 \<or> t = 3 \<or> t = 4 \<or> t = 5 \<or> t = 6"
    using Cons.prems by auto
  then show ?case
  proof cases
    case 3
    then have "trans_table ! 5 ! t = 5" "trans_table ! 6 ! t = 5" "trans_table ! 7 ! t = 5"
      by (auto simp: trans_table_def)
    with 3 show ?thesis by (auto simp: accepts_Cons IH(1))
  qed (use IH in \<open>simp_all add: accepts_Cons trans_table_def\<close>)
qed (simp add: numeral_2_eq_2)

lemma accepts_2_Cons: "marks_ok (t # ts) \<Longrightarrow> accepts 2 (t # ts) \<longleftrightarrow> (if t = tkSEMI then accepts 1 ts else accepts 2 ts)"
  by (auto simp: accepts_Cons trans_table_def)

lemma create_body_Cons [simp]:
  "create_body (t # ts) = (if t = tkTEMP then create_body ts else if t = tkTRIGGER then Some ts else None)"
  by (simp add: create_body_def)

lemma explain_body_Cons [simp]:
  "explain_body (t # ts) = (if t = tkOTHER then explain_body ts else if t = tkCREATE then create_body ts else None)"
  by (simp add: explain_body_def)

lemma bodies_Nil [simp]: "create_body [] = None" "explain_body [] = None"
  by (simp_all add: create_body_def explain_body_def)

lemma accepts_create:
  "marks_ok ts \<Longrightarrow>
   accepts 4 ts \<longleftrightarrow> (case create_body ts of None \<Rightarrow> accepts 2 ts | Some r \<Rightarrow> accepts 5 r)"
proof (induction ts)
  case (Cons t ts)
  then show ?case
    using accepts_2_Cons [OF Cons.prems]
    by (cases "create_body ts") (auto simp: accepts_Cons [of 4] trans_table_def)
qed simp

lemma accepts_explain:
  "marks_ok ts \<Longrightarrow>
   accepts 3 ts \<longleftrightarrow> (case explain_body ts of None \<Rightarrow> accepts 2 ts | Some r \<Rightarrow> accepts 5 r)"
proof (induction ts)
  case (Cons t ts)
  then show ?case
    using accepts_2_Cons [OF Cons.prems] accepts_create [of ts]
    by (cases "explain_body ts"; cases "create_body ts") (auto simp: accepts_Cons [of 3] trans_table_def)
qed simp

lemma bodies_subset:
  "create_body ts = Some r \<Longrightarrow> set r \<subseteq> set ts" "explain_body ts = Some r \<Longrightarrow> set r \<subseteq> set ts"
  "trigger_body ts = Some r \<Longrightarrow> set r \<subseteq> set ts" "after_semi ts = Some r \<Longrightarrow> set r \<subseteq> set ts"
  "after_end ts = Some r \<Longrightarrow> set r \<subseteq> set ts"
proof -
  have c: "set r \<subseteq> set us" if "create_body us = Some r" for us
    using that by (induction us) (auto split: if_splits)
  have e: "set r \<subseteq> set us" if "explain_body us = Some r" for us
    using that by (induction us) (auto split: if_splits dest: c)
  show "create_body ts = Some r \<Longrightarrow> set r \<subseteq> set ts" "explain_body ts = Some r \<Longrightarrow> set r \<subseteq> set ts"
    "trigger_body ts = Some r \<Longrightarrow> set r \<subseteq> set ts"
    by (auto simp: trigger_body_def split: list.splits if_splits dest: c e)
  show "after_semi ts = Some r \<Longrightarrow> set r \<subseteq> set ts"
    by (induction ts) (auto split: if_splits)
  show "after_end ts = Some r \<Longrightarrow> set r \<subseteq> set ts"
    by (induction ts) (auto split: if_splits dest: in_set_dropD)
qed

lemma marks_ok_mono: "marks_ok ts \<Longrightarrow> set r \<subseteq> set ts \<Longrightarrow> marks_ok r"
  by (auto simp: marks_ok_def)

lemma accepts_start:
  assumes "marks_ok (t # ts)" "s = 0 \<or> s = 1"
  shows "accepts s (t # ts) \<longleftrightarrow> then_accepts (after_statement (t # ts))"
proof -
  have ts: "marks_ok ts" using assms(1) by simp
  have body: "(case b of None \<Rightarrow> accepts 2 ts | Some r \<Rightarrow> accepts 5 r) \<longleftrightarrow>
      then_accepts (case b of None \<Rightarrow> after_semi ts | Some r \<Rightarrow> after_end r)"
    if "\<And>r. b = Some r \<Longrightarrow> marks_ok r" for b
    using that accepts_normal [OF ts] accepts_trigger by (auto split: option.splits)
  consider "t = tkCREATE" | "t = tkEXPLAIN" | "t = tkSEMI" | "t = tkOTHER \<or> t = tkTEMP \<or> t = tkTRIGGER \<or> t = tkEND"
    using assms(1) by auto
  then show ?thesis
  proof cases
    case 1
    then have "accepts s (t # ts) \<longleftrightarrow> accepts 4 ts" using assms(2) by (auto simp: accepts_Cons trans_table_def)
    then show ?thesis using 1 body [OF marks_ok_mono [OF ts bodies_subset(1)]] accepts_create [OF ts]
      by (simp add: after_statement_def trigger_body_def cong: option.case_cong)
  next
    case 2
    then have "accepts s (t # ts) \<longleftrightarrow> accepts 3 ts" using assms(2) by (auto simp: accepts_Cons trans_table_def)
    then show ?thesis using 2 body [OF marks_ok_mono [OF ts bodies_subset(2)]] accepts_explain [OF ts]
      by (simp add: after_statement_def trigger_body_def cong: option.case_cong)
  next
    case 3
    then show ?thesis using assms(2)
      by (auto simp: accepts_Cons trans_table_def after_statement_def trigger_body_def)
  next
    case 4
    then have "accepts s (t # ts) \<longleftrightarrow> accepts 2 ts" using assms(2) by (auto simp: accepts_Cons trans_table_def)
    then show ?thesis using 4 accepts_normal [OF ts]
      by (auto simp: after_statement_def trigger_body_def)
  qed
qed

lemma marks_ok_after:
  assumes "marks_ok ts" "after_statement ts = Some r"
  shows "marks_ok r"
proof (cases "trigger_body ts")
  case None
  with assms show ?thesis using bodies_subset(4) by (auto simp: after_statement_def intro: marks_ok_mono)
next
  case (Some b)
  with assms(2) have "after_end b = Some r" by (simp add: after_statement_def)
  then show ?thesis
    using bodies_subset(3) [OF Some] bodies_subset(5) assms(1) by (blast intro: marks_ok_mono)
qed

lemma accepts_finished: "marks_ok ts \<Longrightarrow> accepts 1 ts \<longleftrightarrow> finished_statements ts"
proof (induction ts rule: finished_statements.induct)
  case (1 ts)
  show ?case
  proof (cases ts)
    case (Cons t us)
    then have "accepts 1 ts \<longleftrightarrow> then_accepts (after_statement ts)" using accepts_start [of t us 1] 1 by blast
    then show ?thesis
      using Cons 1 marks_ok_after [OF "1.prems"]
      by (subst finished_statements.simps) (cases "after_statement ts"; simp del: marks_ok_simps)
  qed (simp add: finished_statements.simps)
qed

lemma word_mark_range: "word_mark z n < 8"
  by (simp add: word_mark_def)

lemma scan_token_range: "scan_token z = Token t z' \<Longrightarrow> t < 8"
  using word_mark_range by (auto simp: scan_token_def Let_def split: if_splits)

lemma sql_marks_range: "sql_marks z = Some ts \<Longrightarrow> \<forall>t \<in> set ts. t < 8"
proof (induction z arbitrary: ts rule: sql_marks.induct)
  case (1 z)
  from "1.prems" show ?case
    using "1.IH" scan_token_range [of z]
    by (subst (asm) sql_marks.simps) (auto split: if_splits scan_result.splits)
qed

definition nonblank :: "nat list \<Rightarrow> nat list" where
  "nonblank ts = filter (\<lambda>t. t \<noteq> tkWS) ts"

lemma sqlite3_complete_eq:
  "sqlite3_complete z \<longleftrightarrow>
     (case sql_marks z of
        None \<Rightarrow> False | Some ts \<Rightarrow> nonblank ts \<noteq> [] \<and> finished_statements (nonblank ts))"
proof (cases "sql_marks z")
  case (Some ts)
  have ok: "marks_ok (nonblank ts)" using sql_marks_range [OF Some] by (auto simp: marks_ok_def nonblank_def)
  have "sqlite3_complete z \<longleftrightarrow> accepts 0 (nonblank ts)"
    using Some accepts_filter [of 0 ts] sql_marks_range [OF Some]
    by (simp add: sqlite3_complete_def complete_loop_machine nonblank_def)
  also have "\<dots> \<longleftrightarrow> nonblank ts \<noteq> [] \<and> accepts 1 (nonblank ts)"
    using ok by (cases "nonblank ts") (auto simp: accepts_start)
  finally show ?thesis using Some accepts_finished [OF ok] by simp
qed (simp add: sqlite3_complete_def complete_loop_machine)

end
