(* ===== verification/Sqlite_Properties.thy ===== *)
theory Sqlite_Properties
  imports Sqlite_Busy Sqlite_Varint Sqlite_Numbers Sqlite_Hash Sqlite_Run_Parser Sqlite_Complete Demo_Platform
begin

text \<open>
  The properties of the bundled SQLite's components, each with a witness at a concrete input where
  it has hypotheses.
\<close>

section \<open>Waiting for locks\<close>

text \<open>
  C30: With a busy timeout of \<open>ms\<close> milliseconds, a statement that keeps finding the database locked
  sleeps exactly \<open>ms\<close> milliseconds altogether and then gives up, for every timeout up to 2147483528;
  for the 119 larger ones the callback's sum overflows its \<^verbatim>\<open>int\<close> before it gives up. One call of the
  handler per millisecond and one more is enough in either case.
\<close>

theorem busy_timeout_waits_exactly:
  assumes "0 < ms" and "ms < 2 ^ 31"
  shows "(ms \<le> 2147483528 \<longrightarrow>
      (\<exists>db'. wait_for_lock (nat ms + 1) (sqlite3_busy_timeout ms db) 0 = Gave_up ms db' \<and> nBusy db' = -1)) \<and>
    (2147483528 < ms \<longrightarrow>
      wait_for_lock (nat ms + 1) (sqlite3_busy_timeout ms db) 0 = Overflowed)"
proof -
  have db: "sqlite3_busy_timeout ms db = \<lparr>xBusyHandler = True, nBusy = int 0, busyTimeout = ms\<rparr>"
    using assms(1) by (simp add: sqlite3_busy_timeout_def sqlite3_busy_handler_def)
  have "\<exists>db'. wait_for_lock (nat ms + 1) (sqlite3_busy_timeout ms db) 0 = Gave_up ms db' \<and> nBusy db' = -1"
    if "ms \<le> 2147483528"
    unfolding db by (rule wait_for_lock_total)
      (use assms(1) that busy_delay_bounds [of 0] in auto)
  moreover have "wait_for_lock (nat ms + 1) (sqlite3_busy_timeout ms db) 0 = Overflowed"
    if "2147483528 < ms"
    unfolding db by (rule wait_for_lock_overflows) (use assms that in auto)
  ultimately show ?thesis by blast
qed

theorem busy_timeout_waits_exactly_witness:
  "(\<exists>db'. wait_for_lock (nat 5000 + 1) (sqlite3_busy_timeout 5000 \<lparr>xBusyHandler = False, nBusy = 0, busyTimeout = 0\<rparr>) 0 =
      Gave_up 5000 db' \<and> nBusy db' = -1) \<and>
   wait_for_lock (nat 2147483647 + 1)
     (sqlite3_busy_timeout 2147483647 \<lparr>xBusyHandler = False, nBusy = 0, busyTimeout = 0\<rparr>) 0 = Overflowed"
  using busy_timeout_waits_exactly [of 5000] busy_timeout_waits_exactly [of 2147483647] by simp

text \<open>
  C34: A database the handler opens waits for a lock as long as the configuration says only if the
  configured number of milliseconds is below \<open>2 ^ 31\<close> (and not so near to it that the callback
  overflows); from \<open>2 ^ 31\<close> on, as for zero, the connection has no busy handler at all and a locked
  database is reported at once. \<open>busy_of\<close> reads the busy handler of a connection from the engine's
  state; the engine's entry point is taken to do what its source does.
\<close>

theorem configured_timeout_is_waited:
  assumes "m_databases h name = None"
    and "sq_open A (c_str (path_append P (databases_folder c) name)) w = ((SQLITE_OK, db), w1)"
    and "\<forall>ms. busy_of (sq_busy_timeout A db ms w1) db = sqlite3_busy_timeout ms (busy_of w1 db)"
  shows "\<exists>w2. get_database_connection P A c name (h, w) =
      Some (Inr db, (h\<lparr>m_databases := (m_databases h)(name \<mapsto> db)\<rparr>, w2)) \<and>
    (unat (busy_timeout_ms c) = 0 \<or> 2 ^ 31 \<le> unat (busy_timeout_ms c) \<longrightarrow>
      (\<exists>b. wait_for_lock 1 (busy_of w2 db) 0 = Gave_up 0 b)) \<and>
    (0 < unat (busy_timeout_ms c) \<and> unat (busy_timeout_ms c) \<le> 2147483528 \<longrightarrow>
      (\<exists>b. wait_for_lock (unat (busy_timeout_ms c) + 1) (busy_of w2 db) 0 =
         Gave_up (int (unat (busy_timeout_ms c))) b))"
proof (rule exI [of _ "sq_busy_timeout A db (sint (busy_timeout_ms c)) w1"], intro conjI impI)
  let ?t = "busy_timeout_ms c" and ?w2 = "sq_busy_timeout A db (sint (busy_timeout_ms c)) w1"
  show "get_database_connection P A c name (h, w) =
      Some (Inr db, (h\<lparr>m_databases := (m_databases h)(name \<mapsto> db)\<rparr>, ?w2))"
    using assms(1,2) by (simp add: get_database_connection_def make_SQLDatabase_def)
  have busy: "busy_of ?w2 db = sqlite3_busy_timeout (sint ?t) (busy_of w1 db)" using assms(3) by simp
  show "\<exists>b. wait_for_lock 1 (busy_of ?w2 db) 0 = Gave_up 0 b"
    if "unat ?t = 0 \<or> 2 ^ 31 \<le> unat ?t"
  proof -
    have "uint ?t < 2 ^ LENGTH(32)" by (rule unsigned_less)
    then have "sint ?t \<le> 0" using that sint_u32_cases [of ?t] by (auto simp: unat_eq_0)
    then show ?thesis
      by (simp add: busy sqlite3_busy_timeout_def sqlite3_busy_handler_def sqlite3InvokeBusyHandler_def)
  qed
  show "\<exists>b. wait_for_lock (unat ?t + 1) (busy_of ?w2 db) 0 = Gave_up (int (unat ?t)) b"
    if t: "0 < unat ?t \<and> unat ?t \<le> 2147483528"
  proof -
    define n where "n = unat ?t"
    have n: "0 < n" "n \<le> 2147483528" using t by (simp_all add: n_def)
    have s: "sint ?t = int n" using t sint_u32_cases [of ?t] by (auto simp: n_def)
    have "sqlite3_busy_timeout (int n) (busy_of w1 db) =
        \<lparr>xBusyHandler = True, nBusy = int 0, busyTimeout = int n\<rparr>"
      using n by (simp add: sqlite3_busy_timeout_def sqlite3_busy_handler_def)
    moreover have "\<exists>b. wait_for_lock (n + 1) \<lparr>xBusyHandler = True, nBusy = int 0, busyTimeout = int n\<rparr> 0 =
        Gave_up (int n) b \<and> nBusy b = -1"
      by (rule wait_for_lock_total) (use n busy_delay_bounds [of 0] in auto)
    ultimately have "\<exists>b. wait_for_lock (n + 1) (busy_of ?w2 db) 0 = Gave_up (int n) b"
      unfolding busy [unfolded s] s by metis
    then show ?thesis unfolding n_def .
  qed
qed

theorem configured_timeout_is_waited_witness:
  "\<exists>w2. get_database_connection demo_platform (demo_api\<lparr>sq_busy_timeout := (\<lambda>db ms w. nat ms)\<rparr>)
        (demo_config\<lparr>busy_timeout_ms := 3000000000\<rparr>) ''d'' (new_RequestHandler, 7) =
      Some (Inr 1, (new_RequestHandler\<lparr>m_databases := [''d'' \<mapsto> 1]\<rparr>, w2)) \<and>
    (\<exists>b. wait_for_lock 1 \<lparr>xBusyHandler = (0 < w2), nBusy = 0, busyTimeout = int w2\<rparr> 0 = Gave_up 0 b)"
proof -
  let ?A = "demo_api\<lparr>sq_busy_timeout := (\<lambda>db ms w. nat ms)\<rparr>"
  let ?b = "\<lambda>(w::nat) (db::nat). \<lparr>xBusyHandler = (0 < w), nBusy = 0, busyTimeout = int w\<rparr>"
  have "\<forall>ms. ?b (sq_busy_timeout ?A 1 ms 7) 1 = sqlite3_busy_timeout ms (?b 7 1)"
    by (auto simp: sqlite3_busy_timeout_def sqlite3_busy_handler_def)
  from configured_timeout_is_waited [where h = new_RequestHandler and busy_of = ?b and A = ?A and
      P = demo_platform and c = "demo_config\<lparr>busy_timeout_ms := 3000000000\<rparr>" and name = "''d''" and w = 7,
      OF _ _ this]
  show ?thesis by (simp add: new_RequestHandler_def demo_api_fields)
qed

section \<open>Names\<close>

text \<open>
  The comparison of names is the lexicographic order of the ASCII-case-folded texts: it is
  zero exactly when the folded texts are equal, and negative exactly when the first is smaller.
\<close>

theorem stricmp_is_folded_order:
  "(sqlite3StrICmp a b = 0 \<longleftrightarrow> folded a = folded b) \<and> (sqlite3StrICmp a b < 0 \<longleftrightarrow> folded a < folded b)"
  by (simp add: sqlite3StrICmp_eq_0 sqlite3StrICmp_less)

text \<open>
  C17: Storing a value under a name (or a null pointer, which deletes it) never dereferences a null or
  dangling pointer, returns the old value, keeps the table well-formed, and every later lookup, in
  any case, sees the updated map.
\<close>

theorem hash_table_implements_map:
  assumes "hash_inv pH" "good_env env pH"
  shows "\<exists>pH'. sqlite3HashInsert (fst env) (Some (snd env)) pH k data = Some (hash_abs pH (folded k), pH') \<and>
    hash_inv pH' \<and> (\<forall>q. sqlite3HashFind pH' q = Some (((hash_abs pH)(folded k := data)) (folded q)))"
proof -
  obtain pH' where s: "sqlite3HashInsert (fst env) (Some (snd env)) pH k data = Some (hash_abs pH (folded k), pH')"
    "hash_inv pH'"
    using hash_table.store_tbl [OF assms] by blast
  moreover have "sqlite3HashFind pH' q = Some (((hash_abs pH)(folded k := data)) (folded q))" for q
    using hash_table.lookup_after_store [OF assms s(1)] assms(1) by (simp add: hash_table.lookup_tbl)
  ultimately show ?thesis by blast
qed

theorem hash_table_implements_map_witness:
  "hash_inv (sqlite3HashInit :: nat Hash) \<and> good_env (Some, 4096) (sqlite3HashInit :: nat Hash) \<and>
   (\<exists>pH'. sqlite3HashInsert Some (Some 4096) sqlite3HashInit [0x54] (Some (7 :: nat)) = Some (None, pH') \<and>
     hash_inv pH' \<and> sqlite3HashFind pH' [0x74] = Some (Some 7))"
proof -
  have g: "hash_inv (sqlite3HashInit :: nat Hash)" "good_env (Some, 4096) (sqlite3HashInit :: nat Hash)"
    by (rule hash_init, simp add: good_env_def alloc_law_def sqlite3HashInit_def)
  have f: "folded [0x54] = folded [0x74]"
    by (simp add: folded_def c_bytes_def UpperToLower_eq)
  from hash_table_implements_map [OF g, of "[0x54]" "Some 7"] g f show ?thesis
    by (auto simp: hash_init)
qed

text \<open>
  When the memory for a new element cannot be allocated, the table is unchanged and the new
  value is handed back, which is how callers detect the failure.
\<close>

theorem hash_insert_out_of_memory:
  assumes "hash_inv pH" "hash_abs pH (folded k) = None"
  shows "sqlite3HashInsert alloc None pH k (Some d) = Some (Some d, pH)"
  using assms by (simp add: sqlite3HashInsert_def findElementWithHash_eq hash_abs_find)

theorem hash_insert_out_of_memory_witness:
  "hash_inv (sqlite3HashInit :: nat Hash) \<and> hash_abs (sqlite3HashInit :: nat Hash) (folded [0x54]) = None \<and>
   sqlite3HashInsert Some None sqlite3HashInit [0x54] (Some (7 :: nat)) = Some (Some 7, sqlite3HashInit)"
  using hash_insert_out_of_memory [of "sqlite3HashInit :: nat Hash" "[0x54]" Some 7] by (simp add: hash_init)

section \<open>Integers\<close>

text \<open>
  C29: The decoder of variable-length integers, with its two interleaved 32-bit accumulators and
  precomputed masks, computes the seven-bits-per-byte reference definition on every input, value
  and length.
\<close>

theorem varint_decoder_is_reference: "sqlite3GetVarint p = varint_value p"
  by (rule sqlite3GetVarint_eq)

text \<open>
  C28: Decoding what the encoder wrote for any 64-bit value gives the value back and consumes exactly
  the bytes written, between one and nine, whatever follows them in the buffer.
\<close>

theorem varint_round_trip:
  "sqlite3GetVarint (sqlite3PutVarint v @ p) = (v, length (sqlite3PutVarint v)) \<and>
   1 \<le> length (sqlite3PutVarint v) \<and> length (sqlite3PutVarint v) \<le> 9"
  using get_put_varint put_varint_length_bounds by blast

text \<open>
  The routine that predicts the encoded length is right for values below \<open>2 ^ 63\<close>; for larger
  ones it says ten bytes while the encoder writes nine.
\<close>

theorem varint_length_prediction:
  "sqlite3VarintLen v = (if unat v < 2 ^ 63 then length (sqlite3PutVarint v) else 10)"
  by (rule varintLen_cases)

text \<open>
  The 32-bit reader returns the value read by the 64-bit reader, saturated at \<open>2 ^ 32 - 1\<close>, and
  the same length.
\<close>

theorem varint32_saturates:
  "getVarint32 p =
     (let (v, n) = sqlite3GetVarint p in (if unat v < 2 ^ 32 then ucast v else 0xffffffff, n))"
  by (rule getVarint32_eq)

text \<open>
  C33: 64-bit addition, subtraction and multiplication detect overflow exactly, whichever body is
  compiled: they store the mathematical result and return 0 when it is representable, and return 1
  otherwise. On overflow the portable body leaves the operand unchanged, as the comment says; the
  body compiled by GCC replaces it by the result modulo \<open>2 ^ 64\<close>.
\<close>

theorem int64_overflow_detection:
  assumes "i64 a" "i64 b"
  shows "(\<forall>gcc. sqlite3AddInt64 gcc a b =
      (if i64 (a + b) then (0, a + b)
       else (1, if gcc then (a + b + 2 ^ 63) mod 2 ^ 64 - 2 ^ 63 else a))) \<and>
    (\<forall>gcc. sqlite3SubInt64 gcc a b =
      (if i64 (a - b) then (0, a - b)
       else (1, if gcc then (a - b + 2 ^ 63) mod 2 ^ 64 - 2 ^ 63 else a))) \<and>
    (\<forall>gcc. sqlite3MulInt64 gcc a b =
      (if i64 (a * b) then (0, a * b)
       else (1, if gcc then (a * b + 2 ^ 63) mod 2 ^ 64 - 2 ^ 63 else a)))"
proof -
  have "sqlite3AddInt64 True a b = builtin_overflow (a + b)"
    "sqlite3SubInt64 True a b = builtin_overflow (a - b)"
    "sqlite3MulInt64 True a b = builtin_overflow (a * b)"
    by (simp_all add: sqlite3AddInt64_def sqlite3SubInt64_def sqlite3MulInt64_def)
  then show ?thesis
    using add_int64_exact [OF assms] sub_int64_exact [OF assms] mul_int64_exact [OF assms]
    unfolding all_bool_eq builtin_overflow_eq by simp
qed

theorem int64_overflow_detection_witness:
  "sqlite3AddInt64 True (2 ^ 62) 2 = (0, 2 ^ 62 + 2) \<and> sqlite3SubInt64 False (2 ^ 62) 2 = (0, 2 ^ 62 - 2) \<and>
   sqlite3MulInt64 False (2 ^ 62) 2 = (1, 2 ^ 62) \<and> sqlite3MulInt64 True (2 ^ 62) 2 = (1, - (2 ^ 63))"
proof -
  have "i64 (2 ^ 62)" "i64 2" by (simp_all add: i64_bounds)
  from int64_overflow_detection [OF this] show ?thesis by (simp add: i64_bounds)
qed

text \<open>
  C31: On every UTF-8 text the integer reader gives the code and value of its description: white
  space, an optional sign, digits; -1 without digits, 1 with trailing text, 2 and the nearest limit
  on overflow, and 3 for the number \<open>2 ^ 63\<close> without a sign.
\<close>

theorem atoi64_meets_description: "sqlite3Atoi64 z (length z) SQLITE_UTF8 = atoi64_spec z"
  by (rule atoi64_utf8)

text \<open>
  C32: Rendering a 64-bit integer, two digits at a time from a table, and reading the text back gives
  the integer, the smallest one included.
\<close>

theorem int64_text_round_trip:
  assumes "i64 v"
  shows "sqlite3Atoi64 (sqlite3Int64ToText v) (length (sqlite3Int64ToText v)) SQLITE_UTF8 = (0, v)"
  using assms by (rule atoi64_of_text)

theorem int64_text_round_trip_witness:
  "i64 (- (2 ^ 63)) \<and>
   sqlite3Atoi64 (sqlite3Int64ToText (- (2 ^ 63))) (length (sqlite3Int64ToText (- (2 ^ 63)))) SQLITE_UTF8 =
     (0, - (2 ^ 63))"
  using int64_text_round_trip [of "- (2 ^ 63)"] by (simp add: i64_bounds)

text \<open>
  The reader of unsigned 32-bit integers accepts a text of digits up to and including the
  number \<open>2 ^ 32\<close>, which does not fit and is stored as 0.
\<close>

theorem getUInt32_accepts_two_to_32:
  "sqlite3GetUInt32 z =
     (let ds = takeWhile sqlite3Isdigit z; rest = dropWhile sqlite3Isdigit z
      in if ds \<noteq> [] \<and> at rest 0 = 0 \<and> dec ds \<le> 2 ^ 32 then (True, of_nat (dec ds)) else (False, 0)) \<and>
   sqlite3GetUInt32 (bytes_of ''4294967296'') = (True, 0)"
proof
  have d: "takeWhile sqlite3Isdigit (bytes_of ''4294967296'') = bytes_of ''4294967296''"
    "dropWhile sqlite3Isdigit (bytes_of ''4294967296'') = []"
    by (simp_all add: bytes_of_def byte_of_def sqlite3Isdigit_iff)
  have "dec (bytes_of ''4294967296'') = 2 ^ 32"
    by (simp add: bytes_of_def byte_of_def dec_def digit_of_def)
  with d show "sqlite3GetUInt32 (bytes_of ''4294967296'') = (True, 0)"
    by (simp add: getUInt32_eq) (simp add: bytes_of_def)
qed (rule getUInt32_eq)

section \<open>SQL text\<close>

text \<open>
  C38: The keyword search, which hashes a word into chains over one overlapping text, agrees with the
  list of the 147 keywords: it finds the token code of the keyword that the word is when case is
  ignored, and the code of an identifier when there is none. The word must not contain the DEL
  byte, which the search takes for an underscore.
\<close>

theorem keyword_lookup_exact:
  assumes "n \<le> length z" "0x7F \<notin> set (take n z)"
  shows "sqlite3KeywordCode z n = Some (sql_word_code (take n z))"
  by (rule sqlite3KeywordCode_eq [OF assms])

theorem keyword_lookup_exact_witness:
  "sqlite3KeywordCode (bytes_of ''iNDex'') 5 = Some TK_INDEX"
proof -
  have "sqlite3KeywordCode (bytes_of ''iNDex'') 5 = Some (sql_word_code (take 5 (bytes_of ''iNDex'')))"
    by (rule keyword_lookup_exact) (simp_all add: bytes_of_def byte_of_def)
  then show ?thesis
    by (simp add: bytes_of_def byte_of_def sql_word_code_def sql_keywords_def UpperToLower_eq)
qed

text \<open>
  C35: The tokenizer returns on every text without an embedded terminator, and what it returns does
  not depend on the bytes that follow the terminator in memory. On a non-empty text the token has at
  least one byte and does not reach past the end, so that repeated calls take the text apart
  completely: the tokens are not empty and joined together they are the text.
\<close>

theorem tokens_partition_text:
  assumes "0 \<notin> set z"
  shows "(\<exists>n t. sqlite3GetToken z = Some (n, t) \<and> (\<forall>junk. sqlite3GetToken (z @ 0 # junk) = Some (n, t)) \<and>
      n \<le> length z \<and> (n = 0 \<longleftrightarrow> z = []))
    \<and> (\<exists>ts. sql_tokens z = Some ts \<and> concat (map snd ts) = z \<and> (\<forall>(t, w) \<in> set ts. w \<noteq> []))"
proof -
  have "\<exists>n t. sqlite3GetToken z = Some (n, t) \<and> n \<le> length z \<and> (n = 0 \<longleftrightarrow> z = [])"
  proof (cases "z = []")
    case False
    then show ?thesis using sqlite3GetToken_bounds [OF False assms] by (metis not_one_le_zero)
  qed simp
  then show ?thesis
    using sql_text.partition [OF assms] by (auto simp: sqlite3GetToken_terminated [OF assms])
qed

theorem tokens_partition_text_witness:
  "(\<exists>n t. sqlite3GetToken (bytes_of ''a b'') = Some (n, t) \<and>
      sqlite3GetToken (bytes_of ''a b'' @ 0 # bytes_of ''c'') = Some (n, t)) \<and>
   (\<exists>ts. sql_tokens (bytes_of ''a b'') = Some ts \<and> concat (map snd ts) = bytes_of ''a b'')"
proof -
  have "0 \<notin> set (bytes_of ''a b'')" by (simp add: bytes_of_def byte_of_def)
  from tokens_partition_text [OF this] show ?thesis by blast
qed

text \<open>
  C37: Text in single quotes, double quotes or grave accents, with the quotes inside it doubled, is
  read as one token of exactly that extent, a string for single quotes and a name otherwise, and
  removing the quotes gives the text back. Nothing inside the quotes can end the token.
\<close>

theorem quoted_text_is_one_token:
  assumes "q \<in> {0x22, 0x27, 0x60}" "0 \<notin> set s" "at rest 0 \<noteq> q"
  shows "\<exists>n. sqlite3GetToken (enquote q s @ rest) = Some (n, if q = 0x27 then TK_STRING else TK_ID) \<and>
    take n (enquote q s @ rest) = enquote q s \<and>
    sqlite3Dequote (take n (enquote q s @ rest)) = Some s"
proof -
  have "sqlite3Isquote q" using assms(1) by (auto simp: sqlite3Isquote_iff)
  then show ?thesis
    using quoted_token [OF assms] dequote_enquote [of q s] assms(2) by simp
qed

theorem quoted_text_is_one_token_witness:
  "\<exists>n. sqlite3GetToken (enquote 0x27 [0x27, 0x3B] @ [0x3B]) = Some (n, TK_STRING) \<and>
    sqlite3Dequote (take n (enquote 0x27 [0x27, 0x3B] @ [0x3B])) = Some [0x27, 0x3B]"
  using quoted_text_is_one_token [of "0x27" "[0x27, 0x3B]" "[0x3B]"] by auto

text \<open>
  A maximal run of identifier characters that begins neither with a digit nor with a dollar
  sign is one token, of the type that the list of keywords gives the word. Excepted are the start
  of a blob literal (\<^verbatim>\<open>x\<close> before a quote) and a byte order mark.
\<close>

theorem word_is_one_token:
  assumes "w \<noteq> []" "\<forall>b \<in> set w. IdChar b" "\<not> IdChar (at rest 0)"
    and "\<not> sqlite3Isdigit (hd w)" "hd w \<noteq> 0x24" "take 3 w \<noteq> [0xEF, 0xBB, 0xBF]"
    and "w \<in> {[0x78], [0x58]} \<longrightarrow> at rest 0 \<noteq> 0x27"
  shows "sqlite3GetToken (w @ rest) = Some (length w, sql_word_code w)"
  by (rule word_is_token [OF assms])

theorem word_is_one_token_witness:
  "sqlite3GetToken (bytes_of ''index'' @ [0x3B]) = Some (5, TK_INDEX)"
proof -
  have "sqlite3GetToken (bytes_of ''index'' @ [0x3B]) = Some (length (bytes_of ''index''), sql_word_code (bytes_of ''index''))"
    by (rule word_is_one_token)
       (simp_all add: bytes_of_def byte_of_def IdChar_iff sqlite3Isalpha_iff sqlite3Isdigit_iff)
  then show ?thesis
    by (simp add: bytes_of_def byte_of_def sql_word_code_def sql_keywords_def UpperToLower_eq)
qed

text \<open>
  C36: For a text within the length limit, with comments ignored and no interrupt, the parser is fed
  exactly the significant tokens of the text in order, followed by a semicolon, unless it has just
  had one, and the end marker; \<^verbatim>\<open>WINDOW\<close>, \<^verbatim>\<open>OVER\<close> and \<^verbatim>\<open>FILTER\<close> are turned into names by what surrounds them.
  Feeding stops at the first token that the tokenizer rejects or after which the parser reports
  an error, and the tail of the text begins there. This holds for every parser.
\<close>

theorem parser_sees_the_tokens:
  assumes "0 \<notin> set z" "int (length z) \<le> sql_length_limit env"
    and "\<forall>k. \<not> isInterrupted env k" "ignore_comments env"
  shows "\<exists>ts. sql_tokens z = Some ts \<and>
    sqlite3RunParser env feed p z =
      Some (finish_parse env (apsnd (\<lambda>r. concat (map snd r))
        (token_run env feed None ts (p\<lparr>parse_rc := 0, zTail := z\<rparr>))))"
proof -
  obtain ts where ts: "sql_tokens z = Some ts" using sql_text.partition [OF assms(1)] by blast
  have "parse_loop env feed 0 z (sql_length_limit env) None (p\<lparr>parse_rc := 0, zTail := z\<rparr>) =
    Some (apsnd (\<lambda>r. concat (map snd r)) (token_run env feed None ts (p\<lparr>parse_rc := 0, zTail := z\<rparr>)))"
    using assms(3) by (intro parse_loop_tokens [OF ts assms(1,2) _ assms(4)]) blast
  with ts show ?thesis unfolding sqlite3RunParser_def by (metis option.simps(9))
qed

theorem parser_sees_the_tokens_witness:
  "\<exists>ts. sql_tokens (bytes_of ''commit'') = Some ts \<and>
    sqlite3RunParser \<lparr>sql_length_limit = 100, ignore_comments = True, suppressErr = False,
        isInterrupted = \<lambda>_. False, errStr = \<lambda>_. []\<rparr>
      (\<lambda>t w p. p\<lparr>engine := t # engine p\<rparr>)
      \<lparr>parse_rc = 0, nErr = 0, zErrMsg = None, zTail = [], sLastToken = [], mallocFailed = False, engine = []\<rparr>
      (bytes_of ''commit'') =
    Some (finish_parse \<lparr>sql_length_limit = 100, ignore_comments = True, suppressErr = False,
        isInterrupted = \<lambda>_. False, errStr = \<lambda>_. []\<rparr> (apsnd (\<lambda>r. concat (map snd r))
      (token_run \<lparr>sql_length_limit = 100, ignore_comments = True, suppressErr = False,
          isInterrupted = \<lambda>_. False, errStr = \<lambda>_. []\<rparr> (\<lambda>t w p. p\<lparr>engine := t # engine p\<rparr>) None ts
        \<lparr>parse_rc = 0, nErr = 0, zErrMsg = None, zTail = bytes_of ''commit'', sLastToken = [],
         mallocFailed = False, engine = []\<rparr>)))"
proof -
  let ?env = "\<lparr>sql_length_limit = 100, ignore_comments = True, suppressErr = False,
    isInterrupted = \<lambda>_. False, errStr = \<lambda>_. []\<rparr>"
  have "0 \<notin> set (bytes_of ''commit'')" "int (length (bytes_of ''commit'')) \<le> sql_length_limit ?env"
    by (simp_all add: bytes_of_def byte_of_def)
  from parser_sees_the_tokens [OF this, of "\<lambda>t w p. p\<lparr>engine := t # engine p\<rparr>"
      "\<lparr>parse_rc = 0, nErr = 0, zErrMsg = None, zTail = [], sLastToken = [], mallocFailed = False, engine = []\<rparr>"]
  show ?thesis by simp
qed

text \<open>
  C40: Running the parser on a text without an embedded terminator ends, whatever the parser does with
  the tokens, whatever the limits are and whenever an interrupt arrives.
\<close>

theorem parser_run_returns:
  assumes "0 \<notin> set z"
  shows "\<exists>nErr p'. sqlite3RunParser env feed p z = Some (nErr, p')"
  using parse_loop_returns [OF assms, of env feed 0 "sql_length_limit env" None "p\<lparr>parse_rc := 0, zTail := z\<rparr>"]
  by (auto simp: sqlite3RunParser_def)

theorem parser_run_returns_witness:
  "\<exists>nErr p'. sqlite3RunParser \<lparr>sql_length_limit = 3, ignore_comments = True, suppressErr = False,
      isInterrupted = \<lambda>k. k = 7, errStr = \<lambda>_. []\<rparr> (\<lambda>t w p. p)
      \<lparr>parse_rc = 0, nErr = 0, zErrMsg = None, zTail = [], sLastToken = [], mallocFailed = False, engine = ()\<rparr>
      [0x3B, 0x20] = Some (nErr, p')"
  by (rule parser_run_returns) simp

text \<open>
  C39: \<^verbatim>\<open>sqlite3_complete\<close> accepts a text exactly when every comment and every quoted text in it is
  closed (a line comment may run to the end) and its tokens are one or more finished statements: a
  trigger definition, possibly temporary or explained, is finished by a semicolon, \<^verbatim>\<open>END\<close> and another
  semicolon, every other statement by its first semicolon.
\<close>

theorem complete_means_finished_statements:
  "sqlite3_complete z \<longleftrightarrow>
     (case sql_marks z of
        None \<Rightarrow> False | Some ts \<Rightarrow> nonblank ts \<noteq> [] \<and> finished_statements (nonblank ts))"
  by (rule sqlite3_complete_eq)

end
