(* ===== verification/Sqlite_Bitvec.thy ===== *)
theory Sqlite_Bitvec
  imports Prelude
begin

text \<open>
  \<^verbatim>\<open>bitvec.c\<close> of the bundled SQLite (\<^verbatim>\<open>sqlite3/sqlite3.c\<close>): the set of page numbers that the pager uses, kept
  as a bitmap when it is small, as a hash table with linear probing while it is sparse, and
  divided into sub-bitmaps otherwise. Sizes are those of a machine with 64-bit pointers. The
  structure is shown to implement a set, whatever its shape, also when memory runs out.
\<close>

section \<open>Model\<close>

abbreviation (input) BITVEC_NELEM :: nat where "BITVEC_NELEM \<equiv> 496"
abbreviation (input) BITVEC_NBIT :: nat where "BITVEC_NBIT \<equiv> 3968"
abbreviation (input) BITVEC_NINT :: nat where "BITVEC_NINT \<equiv> 124"
abbreviation (input) BITVEC_MXHASH :: nat where "BITVEC_MXHASH \<equiv> 62"
abbreviation (input) BITVEC_NPTR :: nat where "BITVEC_NPTR \<equiv> 62"

text \<open>
  The three uses of the union, each with \<^verbatim>\<open>iSize\<close>; the second field of \<open>HashTable\<close> is \<^verbatim>\<open>nSet\<close>, that of
  \<open>Divided\<close> is \<^verbatim>\<open>iDivisor\<close>, which is 0 in the other two. A slot of the hash table holds a bit number
  counted from 1, or 0. The numbers stay below \<open>2\<^sup>3\<^sup>2\<close> by the invariant below.
\<close>

datatype bitvec =
    Bitmap nat "u8 list"
  | HashTable nat nat "nat list"
  | Divided nat nat "bitvec option list"

fun bv_iSize :: "bitvec \<Rightarrow> nat" where
  "bv_iSize (Bitmap n a) = n"
| "bv_iSize (HashTable n s a) = n"
| "bv_iSize (Divided n d subs) = n"

definition bv_new :: "nat \<Rightarrow> bitvec" where
  "bv_new n =
     (if n \<le> BITVEC_NBIT then Bitmap n (replicate BITVEC_NELEM 0)
      else HashTable n 0 (replicate BITVEC_NINT 0))"

definition sqlite3BitvecCreate :: "bool \<Rightarrow> u32 \<Rightarrow> bitvec option" where
  "sqlite3BitvecCreate alloc iSize = (if alloc then Some (bv_new (unat iSize)) else None)"

text \<open>
  The loops over the slots of a hash table. A table without a free slot would keep the code in
  such a loop for ever; the models give up after one round with \<open>None\<close>.
\<close>

fun probe_test :: "nat \<Rightarrow> nat list \<Rightarrow> nat \<Rightarrow> nat \<Rightarrow> bool option" where
  "probe_test 0 a v h = None"
| "probe_test (Suc f) a v h =
     (if a ! h = 0 then Some False
      else if a ! h = v then Some True
      else probe_test f a v ((h + 1) mod BITVEC_NINT))"

text \<open>The search of an insertion after a collision: \<open>Some None\<close> when the value is there already.\<close>

fun probe_insert :: "nat \<Rightarrow> nat list \<Rightarrow> nat \<Rightarrow> nat \<Rightarrow> nat option option" where
  "probe_insert 0 a v h = None"
| "probe_insert (Suc f) a v h =
     (if a ! h = v then Some None
      else let h = (if h + 1 \<ge> BITVEC_NINT then 0 else h + 1)
           in if a ! h \<noteq> 0 then probe_insert f a v h else Some (Some h))"

fun probe_free :: "nat \<Rightarrow> nat list \<Rightarrow> nat \<Rightarrow> nat option" where
  "probe_free 0 a h = None"
| "probe_free (Suc f) a h =
     (if a ! h \<noteq> 0 then probe_free f a (if h + 1 \<ge> BITVEC_NINT then 0 else h + 1) else Some h)"

text \<open>Bit numbers below are counted from 0, as in the code after \<^verbatim>\<open>i--\<close>.\<close>

function bv_test :: "bitvec \<Rightarrow> nat \<Rightarrow> bool option" where
  "bv_test (Bitmap n a) i = Some (bit (a ! (i div 8)) (i mod 8))"
| "bv_test (HashTable n s a) i = probe_test BITVEC_NINT a (i + 1) (i mod BITVEC_NINT)"
| "bv_test (Divided n d subs) i =
     (if i div d < length subs
      then (case subs ! (i div d) of None \<Rightarrow> Some False | Some q \<Rightarrow> bv_test q (i mod d))
      else None)"
  by pat_completeness auto

lemma sub_size: "subs ! b = Some q \<Longrightarrow> b < length subs \<Longrightarrow> size q < Suc (size_list (size_option size) subs)"
  by (induction subs arbitrary: b) (auto simp: nth_Cons' split: if_splits, fastforce)

termination bv_test
  by (relation "measure (\<lambda>(p, i). size p)") (auto dest: sub_size)

definition sqlite3BitvecTestNotNull :: "bitvec \<Rightarrow> u32 \<Rightarrow> bool option" where
  "sqlite3BitvecTestNotNull p i =
     (let i = i - 1 in if unat i \<ge> bv_iSize p then Some False else bv_test p (unat i))"

definition sqlite3BitvecTest :: "bitvec option \<Rightarrow> u32 \<Rightarrow> bool option" where
  "sqlite3BitvecTest p i = (case p of None \<Rightarrow> Some False | Some p \<Rightarrow> sqlite3BitvecTestNotNull p i)"

definition bv_divisor :: "nat \<Rightarrow> nat" where
  "bv_divisor n =
     (let d = n div BITVEC_NPTR; d = (if n mod BITVEC_NPTR \<noteq> 0 then d + 1 else d)
      in if d < BITVEC_NBIT then BITVEC_NBIT else d)"

text \<open>
  Setting a bit. \<open>alloc k\<close> tells whether the \<open>k\<close>-th allocation succeeds; the result is the return code
  (0 or \<^verbatim>\<open>SQLITE_NOMEM\<close>), the new structure and the number of allocations made. The first argument
  bounds the depth of the recursion, with \<open>None\<close> when it is exhausted.
\<close>

primrec bv_set :: "nat \<Rightarrow> (nat \<Rightarrow> bool) \<Rightarrow> bitvec \<Rightarrow> nat \<Rightarrow> nat \<Rightarrow> (int \<times> bitvec \<times> nat) option" where
  "bv_set 0 alloc p i k = None"
| "bv_set (Suc f) alloc p i k =
     (case p of
        Divided n d subs \<Rightarrow>
          let bin = i div d; i = i mod d
          in if bin < length subs
             then (case subs ! bin of
                     None \<Rightarrow>
                       if alloc k
                       then map_option (\<lambda>(rc, q, k). (rc, Divided n d (subs[bin := Some q]), k))
                              (bv_set f alloc (bv_new d) i (Suc k))
                       else Some (7, p, Suc k)
                   | Some q \<Rightarrow>
                       map_option (\<lambda>(rc, q, k). (rc, Divided n d (subs[bin := Some q]), k))
                         (bv_set f alloc q i k))
             else None
      | Bitmap n a \<Rightarrow> Some (0, Bitmap n (a[i div 8 := a ! (i div 8) OR push_bit (i mod 8) 1]), k)
      | HashTable n s a \<Rightarrow>
          let h = i mod BITVEC_NINT; v = i + 1
          in case (if a ! h = 0 then Some (Some h) else probe_insert BITVEC_NINT a v h) of
               None \<Rightarrow> None
             | Some None \<Rightarrow> Some (0, p, k)
             | Some (Some h') \<Rightarrow>
                 if \<not> (a ! h = 0 \<and> s < BITVEC_NINT - 1) \<and> s \<ge> BITVEC_MXHASH
                 then if alloc k
                      then foldl
                             (\<lambda>r v. if v = 0 then r
                                else case r of None \<Rightarrow> None
                                     | Some (rc, p, k) \<Rightarrow>
                                         map_option (\<lambda>(rc', p, k). (rc OR rc', p, k))
                                           (bv_set f alloc p (v - 1) k))
                             (bv_set f alloc (Divided n (bv_divisor n) (replicate BITVEC_NPTR None))
                               i (Suc k))
                             a
                      else Some (7, p, Suc k)
                 else Some (0, HashTable n (s + 1) (a[h' := v]), k))"

text \<open>Depth 9 is enough for every size below \<open>2\<^sup>3\<^sup>2\<close>, as shown below.\<close>

definition sqlite3BitvecSet :: "(nat \<Rightarrow> bool) \<Rightarrow> bitvec option \<Rightarrow> u32 \<Rightarrow> (int \<times> bitvec option) option" where
  "sqlite3BitvecSet alloc p i =
     (case p of
        None \<Rightarrow> Some (0, None)
      | Some p \<Rightarrow> map_option (\<lambda>(rc, p, k). (rc, Some p)) (bv_set 9 alloc p (unat (i - 1)) 0))"

text \<open>Clearing a bit rebuilds a hash table without it.\<close>

definition rebuild :: "nat \<Rightarrow> nat list \<Rightarrow> (nat \<times> nat list) option" where
  "rebuild v a =
     foldl (\<lambda>r x.
        if x \<noteq> 0 \<and> x \<noteq> v
        then (case r of None \<Rightarrow> None
              | Some (s, b) \<Rightarrow>
                  map_option (\<lambda>h. (s + 1, b[h := x])) (probe_free BITVEC_NINT b ((x - 1) mod BITVEC_NINT)))
        else r)
      (Some (0, replicate BITVEC_NINT 0)) a"

function bv_clear :: "bitvec \<Rightarrow> nat \<Rightarrow> bitvec option" where
  "bv_clear (Bitmap n a) i = Some (Bitmap n (a[i div 8 := a ! (i div 8) AND NOT (push_bit (i mod 8) 1)]))"
| "bv_clear (HashTable n s a) i = map_option (\<lambda>(s, a). HashTable n s a) (rebuild (i + 1) a)"
| "bv_clear (Divided n d subs) i =
     (if i div d < length subs
      then (case subs ! (i div d) of
              None \<Rightarrow> Some (Divided n d subs)
            | Some q \<Rightarrow>
                map_option (\<lambda>q. Divided n d (subs[i div d := Some q])) (bv_clear q (i mod d)))
      else None)"
  by pat_completeness auto

termination bv_clear
  by (relation "measure (\<lambda>(p, i). size p)") (auto dest: sub_size)

definition sqlite3BitvecClear :: "bitvec option \<Rightarrow> u32 \<Rightarrow> bitvec option option" where
  "sqlite3BitvecClear p i =
     (case p of None \<Rightarrow> Some None | Some p \<Rightarrow> map_option Some (bv_clear p (unat (i - 1))))"

definition sqlite3BitvecSize :: "bitvec \<Rightarrow> u32" where
  "sqlite3BitvecSize p = of_nat (bv_iSize p)"

section \<open>Linear probing\<close>

text \<open>\<open>slot h k\<close> is the \<open>k\<close>-th slot that a search from \<open>h\<close> visits, \<open>gap a h\<close> the length of the run of used slots.\<close>

definition slot :: "nat \<Rightarrow> nat \<Rightarrow> nat" where
  "slot h k = (h + k) mod BITVEC_NINT"

definition gap :: "nat list \<Rightarrow> nat \<Rightarrow> nat" where
  "gap a h = (LEAST k. a ! slot h k = 0)"

definition home :: "nat \<Rightarrow> nat" where
  "home v = (v - 1) mod BITVEC_NINT"

text \<open>A table with a free slot in which every value is found by a search from its home.\<close>

definition probing :: "nat list \<Rightarrow> bool" where
  "probing a \<longleftrightarrow> length a = BITVEC_NINT \<and> 0 \<in> set a \<and>
     (\<forall>x < BITVEC_NINT. a ! x \<noteq> 0 \<longrightarrow> (\<exists>k < gap a (home (a ! x)). x = slot (home (a ! x)) k))"

lemma slot_less [simp]: "slot h k < BITVEC_NINT"
  by (simp add: slot_def)

lemma slot_0 [simp]: "h < BITVEC_NINT \<Longrightarrow> slot h 0 = h"
  by (simp add: slot_def)

lemma slot_Suc: "slot h (Suc k) = (slot h k + 1) mod BITVEC_NINT"
  by (simp add: slot_def mod_Suc_eq)

lemma slot_wrap:
  "123 \<le> slot h k \<Longrightarrow> slot h (Suc k) = 0" "\<not> 123 \<le> slot h k \<Longrightarrow> slot h (Suc k) = Suc (slot h k)"
proof -
  assume "123 \<le> slot h k"
  then have "slot h k = 123" using slot_less [of h k] by linarith
  then show "slot h (Suc k) = 0" by (simp add: slot_Suc)
qed (simp add: slot_Suc)

lemma ex_from: "k < g \<Longrightarrow> (\<exists>j < g. k \<le> j \<and> P j) \<longleftrightarrow> P k \<or> (\<exists>j < g. Suc k \<le> j \<and> P j)" for k g :: nat
  by (auto simp: Suc_le_eq le_less)

lemma slot_reach: "h < BITVEC_NINT \<Longrightarrow> x < BITVEC_NINT \<Longrightarrow> \<exists>k < BITVEC_NINT. x = slot h k"
proof (cases "h \<le> x")
  case True
  assume "h < BITVEC_NINT" "x < BITVEC_NINT"
  with True show ?thesis by (intro exI [of _ "x - h"]) (simp add: slot_def)
next
  case False
  assume "h < BITVEC_NINT" "x < BITVEC_NINT"
  with False show ?thesis by (intro exI [of _ "x + BITVEC_NINT - h"]) (simp add: slot_def)
qed

lemma gap_free:
  assumes "length a = BITVEC_NINT" "0 \<in> set a" "h < BITVEC_NINT"
  shows "gap a h < BITVEC_NINT" "a ! slot h (gap a h) = 0"
proof -
  obtain x where "x < BITVEC_NINT" "a ! x = 0" using assms(1,2) by (auto simp: in_set_conv_nth)
  then obtain k where k: "k < BITVEC_NINT" "a ! slot h k = 0" using slot_reach [OF assms(3)] by blast
  show "a ! slot h (gap a h) = 0" unfolding gap_def by (rule LeastI [of _ k]) (fact k(2))
  show "gap a h < BITVEC_NINT" unfolding gap_def using Least_le [where P = "\<lambda>k. a ! slot h k = 0", OF k(2)] k(1) by linarith
qed

lemma gap_used: "k < gap a h \<Longrightarrow> a ! slot h k \<noteq> 0"
  unfolding gap_def by (rule not_less_Least)

lemma gap_eqI: "a ! slot h k = 0 \<Longrightarrow> (\<And>j. j < k \<Longrightarrow> a ! slot h j \<noteq> 0) \<Longrightarrow> gap a h = k"
  unfolding gap_def by (rule Least_equality, assumption) (metis not_less)

lemma home_less [simp]: "home v < BITVEC_NINT"
  by (simp add: home_def)

lemma in_run_iff:
  assumes "probing a" "v \<noteq> 0"
  shows "v \<in> set a \<longleftrightarrow> (\<exists>k < gap a (home v). a ! slot (home v) k = v)"
  using assms unfolding probing_def
  by (metis in_set_conv_nth nth_mem slot_less)

lemma probe_test_run:
  assumes "k \<le> gap a h" "gap a h - k < f" "a ! slot h (gap a h) = 0" "v \<noteq> 0"
  shows "probe_test f a v (slot h k) = Some (\<exists>j < gap a h. k \<le> j \<and> a ! slot h j = v)"
  using assms(1,2)
proof (induction f arbitrary: k)
  case (Suc f)
  show ?case
  proof (cases "k = gap a h")
    case True
    then show ?thesis using assms(3) by auto
  next
    case False
    then have k: "k < gap a h" using Suc.prems(1) by simp
    have "probe_test f a v (slot h (Suc k)) = Some (\<exists>j < gap a h. Suc k \<le> j \<and> a ! slot h j = v)"
      using k Suc.prems by (intro Suc.IH) auto
    then show ?thesis using gap_used [OF k] by (simp add: slot_Suc ex_from [OF k])
  qed
qed simp

lemma probe_insert_run:
  assumes "k < gap a h" "gap a h - k < f" "a ! slot h (gap a h) = 0"
  shows "probe_insert f a v (slot h k) =
    Some (if \<exists>j < gap a h. k \<le> j \<and> a ! slot h j = v then None else Some (slot h (gap a h)))"
  using assms(1,2)
proof (induction f arbitrary: k)
  case (Suc f)
  note ex = ex_from [OF Suc.prems(1)]
  show ?case
  proof (cases "Suc k = gap a h")
    case True
    then have "\<not> (\<exists>j < gap a h. Suc k \<le> j \<and> a ! slot h j = v)" by auto
    then show ?thesis
      using True assms(3) slot_wrap [of h k] by (cases "123 \<le> slot h k") (auto simp: Let_def ex)
  next
    case False
    then have k: "Suc k < gap a h" using Suc.prems(1) by simp
    then have "probe_insert f a v (slot h (Suc k)) =
        Some (if \<exists>j < gap a h. Suc k \<le> j \<and> a ! slot h j = v then None else Some (slot h (gap a h)))"
      using Suc.prems by (intro Suc.IH) auto
    then show ?thesis
      using gap_used [OF k] slot_wrap [of h k] by (cases "123 \<le> slot h k") (simp_all add: Let_def ex)
  qed
qed simp

lemma probe_free_run:
  assumes "k \<le> gap a h" "gap a h - k < f" "a ! slot h (gap a h) = 0"
  shows "probe_free f a (slot h k) = Some (slot h (gap a h))"
  using assms(1,2)
proof (induction f arbitrary: k)
  case (Suc f)
  show ?case
  proof (cases "k = gap a h")
    case False
    then have k: "k < gap a h" using Suc.prems(1) by simp
    then have "probe_free f a (slot h (Suc k)) = Some (slot h (gap a h))"
      using Suc.prems by (intro Suc.IH) auto
    then show ?thesis
      using gap_used [OF k] slot_wrap [of h k] by (cases "123 \<le> slot h k") simp_all
  qed (use assms(3) in simp)
qed simp

section \<open>Hash tables\<close>

definition used :: "nat list \<Rightarrow> nat list" where
  "used a = filter (\<lambda>v. v \<noteq> 0) a"

lemma set_used [simp]: "set (used a) = set a - {0}"
  by (auto simp: used_def)

lemma length_used_zero: "length (used a) < length a \<longleftrightarrow> 0 \<in> set a"
  by (induction a) (auto simp: used_def less_Suc_eq_le)

lemma used_update:
  assumes "x < length a" "a ! x = 0" "v \<noteq> 0"
  shows "length (used (a[x := v])) = Suc (length (used a))" "set (used (a[x := v])) = insert v (set (used a))"
    "v \<notin> set a \<Longrightarrow> distinct (used a) \<Longrightarrow> distinct (used (a[x := v]))"
proof -
  have a: "a = take x a @ 0 # drop (Suc x) a" using id_take_nth_drop [OF assms(1)] assms(2) by simp
  have a': "a[x := v] = take x a @ v # drop (Suc x) a" using assms(1) by (simp add: upd_conv_take_nth_drop)
  have u: "used a = used (take x a) @ used (drop (Suc x) a)"
    by (subst a) (simp add: used_def)
  have u': "used (a[x := v]) = used (take x a) @ v # used (drop (Suc x) a)"
    using assms(3) by (simp add: a' used_def)
  show "length (used (a[x := v])) = Suc (length (used a))" unfolding u u' by simp
  show "set (used (a[x := v])) = insert v (set (used a))" unfolding u u' by simp
  show "distinct (used (a[x := v]))" if "v \<notin> set a" "distinct (used a)"
  proof -
    have "v \<notin> set (used a)" using that(1) by simp
    with that(2) show ?thesis unfolding u u' by auto
  qed
qed

definition hash_ok :: "nat list \<Rightarrow> bool" where
  "hash_ok a \<longleftrightarrow> probing a \<and> distinct (used a)"

lemma hash_ok_empty: "hash_ok (replicate BITVEC_NINT 0)"
proof -
  have "used (replicate BITVEC_NINT 0) = []" by (simp add: used_def)
  then show ?thesis by (auto simp: hash_ok_def probing_def)
qed

lemma hash_ok_insert:
  assumes "hash_ok a" "v \<noteq> 0" "v \<notin> set a" "length (used a) < BITVEC_NINT - 1"
  shows "hash_ok (a[slot (home v) (gap a (home v)) := v])"
proof -
  let ?x = "slot (home v) (gap a (home v))" and ?a = "a[slot (home v) (gap a (home v)) := v]"
  have p: "length a = BITVEC_NINT" "0 \<in> set a" using assms(1) by (auto simp: hash_ok_def probing_def)
  have x: "?x < length a" "a ! ?x = 0" using p gap_free(2) [OF p home_less] by auto
  have "length (used ?a) < length ?a" using used_update(1) [OF x assms(2)] assms(4) p by simp
  then have z: "0 \<in> set ?a" using length_used_zero by blast
  have pa: "length ?a = BITVEC_NINT" using p by simp
  have sup: "?a ! y \<noteq> 0" if "a ! y \<noteq> 0" "y < BITVEC_NINT" for y
    using that x assms(2) p by (cases "y = ?x") auto
  have mono: "gap a h \<le> gap ?a h" if "h < BITVEC_NINT" for h
  proof (rule ccontr)
    assume "\<not> gap a h \<le> gap ?a h"
    then have "a ! slot h (gap ?a h) \<noteq> 0" using gap_used by simp
    with sup [of "slot h (gap ?a h)"] gap_free(2) [OF pa z that] show False by simp
  qed
  have "gap ?a (home v) \<noteq> gap a (home v)"
    using gap_free(2) [OF pa z home_less] x assms(2) by (metis nth_list_update_eq)
  with mono [OF home_less, of v] have own: "gap a (home v) < gap ?a (home v)" by simp
  have "\<exists>k < gap ?a (home (?a ! y)). y = slot (home (?a ! y)) k" if "y < BITVEC_NINT" "?a ! y \<noteq> 0" for y
  proof (cases "y = ?x")
    case True
    then show ?thesis using own x by auto
  next
    case False
    then have "?a ! y = a ! y" by simp
    moreover have "\<exists>k < gap a (home (a ! y)). y = slot (home (a ! y)) k"
      using assms(1) that calculation by (auto simp: hash_ok_def probing_def)
    ultimately show ?thesis using mono [OF home_less, of "a ! y"] by (metis order_less_le_trans)
  qed
  then show ?thesis
    using pa z used_update(3) [OF x assms(2,3)] assms(1) by (auto simp: hash_ok_def probing_def)
qed

lemma hash_ok_length: "hash_ok a \<Longrightarrow> length a = BITVEC_NINT" "hash_ok a \<Longrightarrow> length (used a) < BITVEC_NINT"
  using length_used_zero [of a] by (auto simp: hash_ok_def probing_def)

lemma hash_gap: "hash_ok a \<Longrightarrow> gap a (home v) < BITVEC_NINT" "hash_ok a \<Longrightarrow> a ! slot (home v) (gap a (home v)) = 0"
  using gap_free [of a "home v"] by (auto simp: hash_ok_def probing_def)

lemma probe_test_eq:
  assumes "hash_ok a" "v \<noteq> 0"
  shows "probe_test BITVEC_NINT a v (home v) = Some (v \<in> set a)"
  using probe_test_run [of 0 a "home v" BITVEC_NINT v] hash_gap [OF assms(1), of v] assms
    in_run_iff [of a v] by (simp add: hash_ok_def)

lemma probe_insert_eq:
  assumes "hash_ok a" "v \<noteq> 0" "a ! home v \<noteq> 0"
  shows "probe_insert BITVEC_NINT a v (home v) =
    Some (if v \<in> set a then None else Some (slot (home v) (gap a (home v))))"
proof -
  have "gap a (home v) \<noteq> 0" using hash_gap(2) [OF assms(1), of v] assms(3) by (metis slot_0 home_less)
  then show ?thesis
    using probe_insert_run [of 0 a "home v" BITVEC_NINT v] hash_gap [OF assms(1), of v] assms
      in_run_iff [of a v] by (simp add: hash_ok_def)
qed

lemma probe_free_eq: "hash_ok a \<Longrightarrow> probe_free BITVEC_NINT a (home v) = Some (slot (home v) (gap a (home v)))"
  using probe_free_run [of 0 a "home v" BITVEC_NINT] hash_gap [of a v] by simp

lemma gap_0: "hash_ok a \<Longrightarrow> a ! home v = 0 \<Longrightarrow> gap a (home v) = 0"
  by (rule gap_eqI) auto

lemma not_in_if_free: "hash_ok a \<Longrightarrow> v \<noteq> 0 \<Longrightarrow> a ! home v = 0 \<Longrightarrow> v \<notin> set a"
  using in_run_iff [of a v] gap_0 by (auto simp: hash_ok_def)

definition rebuild_step :: "nat \<Rightarrow> (nat \<times> nat list) option \<Rightarrow> nat \<Rightarrow> (nat \<times> nat list) option" where
  "rebuild_step v r x =
     (if x \<noteq> 0 \<and> x \<noteq> v
      then (case r of None \<Rightarrow> None
            | Some (s, b) \<Rightarrow>
                map_option (\<lambda>h. (s + 1, b[h := x])) (probe_free BITVEC_NINT b ((x - 1) mod BITVEC_NINT)))
      else r)"

lemma rebuild_foldl: "rebuild v a = foldl (rebuild_step v) (Some (0, replicate BITVEC_NINT 0)) a"
  by (simp add: rebuild_def rebuild_step_def [abs_def])

lemma rebuild_prefix:
  assumes "distinct (used a)" "length (used a) < BITVEC_NINT"
  shows "\<exists>b. foldl (rebuild_step v) (Some (0, replicate BITVEC_NINT 0)) a = Some (length (used b), b) \<and>
    hash_ok b \<and> set (used b) = set (used a) - {v} \<and> length (used b) \<le> length (used a)"
  using assms
proof (induction a rule: rev_induct)
  case Nil
  have "used (replicate BITVEC_NINT 0) = []" by (simp add: used_def)
  then show ?case using hash_ok_empty by (auto simp: used_def)
next
  case (snoc x a)
  have u: "used (a @ [x]) = (if x = 0 then used a else used a @ [x])" by (simp add: used_def)
  then have d: "distinct (used a)" "length (used a) < BITVEC_NINT" "x \<noteq> 0 \<Longrightarrow> x \<notin> set (used a)"
    "x \<noteq> 0 \<Longrightarrow> length (used a) < BITVEC_NINT - 1"
    using snoc.prems by (auto split: if_splits)
  obtain b where b: "foldl (rebuild_step v) (Some (0, replicate BITVEC_NINT 0)) a = Some (length (used b), b)"
    "hash_ok b" "set (used b) = set (used a) - {v}" "length (used b) \<le> length (used a)"
    using snoc.IH [OF d(1,2)] by blast
  show ?case
  proof (cases "x \<noteq> 0 \<and> x \<noteq> v")
    case False
    then have "rebuild_step v r x = r" for r by (auto simp: rebuild_step_def)
    then have "foldl (rebuild_step v) (Some (0, replicate BITVEC_NINT 0)) (a @ [x]) = Some (length (used b), b)"
      using b(1) by simp
    moreover have "set (used b) = set (used (a @ [x])) - {v}" "length (used b) \<le> length (used (a @ [x]))"
      using False b(3,4) u by auto
    ultimately show ?thesis using b(2) by blast
  next
    case True
    let ?y = "slot (home x) (gap b (home x))"
    have x: "x \<notin> set b" "length (used b) < BITVEC_NINT - 1"
      using True b(3,4) d(3,4) by auto
    have y: "?y < length b" "b ! ?y = 0" using hash_ok_length(1) [OF b(2)] hash_gap(2) [OF b(2)] by auto
    have "rebuild_step v (Some (length (used b), b)) x = Some (Suc (length (used b)), b[?y := x])"
      using True probe_free_eq [OF b(2), of x] by (simp add: rebuild_step_def home_def)
    moreover have "hash_ok (b[?y := x])" using hash_ok_insert [OF b(2) _ x] True by simp
    ultimately show ?thesis
      using b(1,3,4) True u used_update [OF y, of x] by auto
  qed
qed

lemma rebuild_eq:
  assumes "hash_ok a"
  shows "\<exists>b. rebuild v a = Some (length (used b), b) \<and> hash_ok b \<and> set (used b) = set (used a) - {v}"
  using rebuild_prefix [of a v] assms hash_ok_length(2) [OF assms]
  by (auto simp: rebuild_foldl hash_ok_def)

section \<open>The invariant\<close>

inductive bv_ok :: "bitvec \<Rightarrow> bool" where
  bitmap: "n \<le> BITVEC_NBIT \<Longrightarrow> length a = BITVEC_NELEM \<Longrightarrow> bv_ok (Bitmap n a)"
| hash: "BITVEC_NBIT < n \<Longrightarrow> hash_ok a \<Longrightarrow> s = length (used a) \<Longrightarrow> \<forall>v \<in> set a. v \<le> n \<Longrightarrow> bv_ok (HashTable n s a)"
| divided: "BITVEC_NBIT < n \<Longrightarrow> length subs = BITVEC_NPTR \<Longrightarrow> d = bv_divisor n \<Longrightarrow>
    (\<And>q. Some q \<in> set subs \<Longrightarrow> bv_ok q) \<Longrightarrow> (\<And>q. Some q \<in> set subs \<Longrightarrow> bv_iSize q = d) \<Longrightarrow>
    bv_ok (Divided n d subs)"

inductive_simps bv_ok_simps:
  "bv_ok (Bitmap n a)" "bv_ok (HashTable n s a)" "bv_ok (Divided n d subs)"

lemma bv_divisor_bounds:
  assumes "BITVEC_NBIT < n"
  shows "0 < bv_divisor n" "bv_divisor n < n" "i < n \<Longrightarrow> i div bv_divisor n < BITVEC_NPTR"
    "n \<le> BITVEC_NPTR * m \<Longrightarrow> BITVEC_NBIT \<le> m \<Longrightarrow> bv_divisor n \<le> m"
proof -
  define q r where "q = n div 62" and "r = n mod 62"
  define c where "c = (if r \<noteq> 0 then q + 1 else q)"
  have n: "n = 62 * q + r" "r < 62" by (simp_all add: q_def r_def)
  have d: "bv_divisor n = (if c < BITVEC_NBIT then BITVEC_NBIT else c)"
    unfolding bv_divisor_def Let_def c_def q_def r_def by simp
  have c: "n \<le> 62 * c" "c < n" using n assms by (auto simp: c_def split: if_splits)
  show "0 < bv_divisor n" unfolding d by simp
  show "bv_divisor n < n" unfolding d using c assms by simp
  show "bv_divisor n \<le> m" if "n \<le> BITVEC_NPTR * m" "BITVEC_NBIT \<le> m"
    using that n unfolding d c_def by (auto split: if_splits)
  show "i div bv_divisor n < BITVEC_NPTR" if "i < n"
  proof -
    have "62 * c \<le> bv_divisor n * BITVEC_NPTR" unfolding d by simp
    then have "i < BITVEC_NPTR * bv_divisor n" using c(1) that by linarith
    then show ?thesis by (simp add: less_mult_imp_div_less)
  qed
qed

lemma bv_new_ok: "bv_ok (bv_new n)" "bv_iSize (bv_new n) = n"
proof -
  have "used (replicate BITVEC_NINT 0) = []" by (simp add: used_def)
  then show "bv_ok (bv_new n)" using hash_ok_empty by (auto simp: bv_new_def bv_ok_simps)
qed (simp add: bv_new_def)

lemma bv_test_total: "bv_ok p \<Longrightarrow> i < bv_iSize p \<Longrightarrow> \<exists>b. bv_test p i = Some b"
proof (induction arbitrary: i rule: bv_ok.induct)
  case (hash n a s)
  then show ?case using probe_test_eq [of a "i + 1"] by (simp add: home_def)
next
  case (divided n subs d)
  have b: "i div d < length subs" "i mod d < d"
    using bv_divisor_bounds [OF divided.hyps(1)] divided by auto
  show ?case
  proof (cases "subs ! (i div d)")
    case (Some q)
    then have "Some q \<in> set subs" using b(1) nth_mem by metis
    then have "\<exists>b. bv_test q (i mod d) = Some b" using divided b(2) by metis
    with Some b(1) show ?thesis by simp
  qed (use b in auto)
qed auto

definition bv_has :: "bitvec \<Rightarrow> nat \<Rightarrow> bool" where
  "bv_has p i \<longleftrightarrow> bv_test p i = Some True"

lemma bv_test_has: "bv_ok p \<Longrightarrow> i < bv_iSize p \<Longrightarrow> bv_test p i = Some (bv_has p i)"
  using bv_test_total by (fastforce simp: bv_has_def)

lemma bv_has_hash: "hash_ok a \<Longrightarrow> bv_has (HashTable n s a) i \<longleftrightarrow> i + 1 \<in> set a"
  using probe_test_eq [of a "i + 1"] by (simp add: bv_has_def home_def)

lemma bv_has_divided:
  "i div d < length subs \<Longrightarrow>
   bv_has (Divided n d subs) i \<longleftrightarrow> (case subs ! (i div d) of None \<Rightarrow> False | Some q \<Rightarrow> bv_has q (i mod d))"
  by (simp add: bv_has_def split: option.splits)

lemma bv_has_new: "i < n \<Longrightarrow> \<not> bv_has (bv_new n) i"
proof -
  assume "i < n"
  moreover have "bv_has (HashTable n 0 (replicate BITVEC_NINT 0)) i \<longleftrightarrow> False"
    using bv_has_hash [OF hash_ok_empty] by simp
  ultimately show ?thesis by (auto simp: bv_new_def bv_has_def [of "Bitmap n _"] nth_replicate)
qed

section \<open>Setting a bit\<close>

fun is_divided :: "bitvec \<Rightarrow> bool" where
  "is_divided (Divided n d subs) = True"
| "is_divided p = False"

text \<open>
  What a call promises: a return code of 0 or \<^verbatim>\<open>SQLITE_NOMEM\<close>, a structure of the same size that has no
  other member than before and the new one, all of them when the code is 0; it is 0 when no
  allocation fails.
\<close>

definition adds :: "bitvec \<Rightarrow> nat set \<Rightarrow> int \<Rightarrow> bitvec \<Rightarrow> bool" where
  "adds p is rc p' \<longleftrightarrow>
     (rc = 0 \<or> rc = 7) \<and> bv_ok p' \<and> bv_iSize p' = bv_iSize p \<and> (is_divided p \<longrightarrow> is_divided p') \<and>
     (\<forall>j < bv_iSize p. bv_has p' j \<longrightarrow> j \<in> is \<or> bv_has p j) \<and>
     (rc = 0 \<longrightarrow> (\<forall>j < bv_iSize p. j \<in> is \<or> bv_has p j \<longrightarrow> bv_has p' j))"

definition set_result :: "(nat \<Rightarrow> bool) \<Rightarrow> bitvec \<Rightarrow> nat set \<Rightarrow> (int \<times> bitvec \<times> nat) option \<Rightarrow> bool" where
  "set_result alloc p is r \<longleftrightarrow>
     (\<exists>rc p' k. r = Some (rc, p', k) \<and> adds p is rc p' \<and> ((\<forall>k. alloc k) \<longrightarrow> rc = 0))"

lemma set_resultI: "adds p is rc p' \<Longrightarrow> ((\<forall>k. alloc k) \<Longrightarrow> rc = 0) \<Longrightarrow> set_result alloc p is (Some (rc, p', k))"
  by (auto simp: set_result_def)

lemma bitmap_set:
  assumes "bv_ok (Bitmap n a)" "i < n"
  shows "adds (Bitmap n a) {i} 0 (Bitmap n (a[i div 8 := a ! (i div 8) OR push_bit (i mod 8) 1]))"
proof -
  have l: "i div 8 < length a" using assms by (auto simp: bv_ok_simps)
  have "bit (a[i div 8 := a ! (i div 8) OR push_bit (i mod 8) 1] ! (j div 8)) (j mod 8) \<longleftrightarrow>
    j = i \<or> bit (a ! (j div 8)) (j mod 8)" for j
  proof (cases "j div 8 = i div 8")
    case True
    then have "j mod 8 = i mod 8 \<longleftrightarrow> j = i" by (metis div_mult_mod_eq)
    then show ?thesis using True l by (auto simp: bit_simps)
  next
    case False
    then have "j \<noteq> i" by auto
    then show ?thesis using False by simp
  qed
  then show ?thesis using assms by (auto simp: adds_def bv_has_def bv_ok_simps)
qed

lemma divided_sub:
  assumes "bv_ok (Divided n d subs)" "i < n"
  shows "i div d < length subs" "i mod d < d"
    "subs ! (i div d) = Some q \<Longrightarrow> bv_ok q \<and> bv_iSize q = d"
proof -
  show b: "i div d < length subs" "i mod d < d"
    using assms bv_divisor_bounds(1,3) [of n] by (auto simp: bv_ok_simps)
  show "bv_ok q \<and> bv_iSize q = d" if "subs ! (i div d) = Some q"
    using assms(1) that nth_mem [OF b(1)] by (auto simp: bv_ok_simps)
qed

text \<open>Replacing one sub-bitmap.\<close>

lemma divided_update:
  assumes ok: "bv_ok (Divided n d subs)" "i < n" and q: "bv_ok q" "bv_iSize q = d"
  shows "bv_ok (Divided n d (subs[i div d := Some q]))"
    "j < n \<Longrightarrow> bv_has (Divided n d (subs[i div d := Some q])) j \<longleftrightarrow>
      (if j div d = i div d then bv_has q (j mod d) else bv_has (Divided n d subs) j)"
proof -
  have "set (subs[i div d := Some q]) \<subseteq> insert (Some q) (set subs)" by (rule set_update_subset_insert)
  then show "bv_ok (Divided n d (subs[i div d := Some q]))"
    using ok(1) q by (fastforce simp: bv_ok_simps)
  show "bv_has (Divided n d (subs[i div d := Some q])) j \<longleftrightarrow>
      (if j div d = i div d then bv_has q (j mod d) else bv_has (Divided n d subs) j)" if "j < n"
    using divided_sub(1) [OF ok(1) that] by (auto simp: bv_has_divided)
qed

lemma same_bin: "j div d = i div d \<Longrightarrow> j mod d = i mod d \<longleftrightarrow> j = i" for i j d :: nat
  by (metis div_mult_mod_eq)

lemma divided_adds:
  assumes ok: "bv_ok (Divided n d subs)" "i < n"
    and old: "bv_iSize q = d"
      "\<And>j. j < d \<Longrightarrow> bv_has q j \<longleftrightarrow> (case subs ! (i div d) of None \<Rightarrow> False | Some q \<Rightarrow> bv_has q j)"
    and new: "adds q {i mod d} rc q'"
  shows "adds (Divided n d subs) {i} rc (Divided n d (subs[i div d := Some q']))"
proof -
  have q': "bv_ok q'" "bv_iSize q' = d" using new old(1) by (auto simp: adds_def)
  have has: "bv_has (Divided n d subs) j \<longleftrightarrow> bv_has q (j mod d)" if "j < n" "j div d = i div d" for j
    using old(2) divided_sub(1,2) [OF ok(1) that(1)] that(2) by (simp add: bv_has_divided)
  show ?thesis
    unfolding adds_def
  proof (intro conjI allI impI)
    fix j assume j: "j < bv_iSize (Divided n d subs)" "bv_has (Divided n d (subs[i div d := Some q'])) j"
    show "j \<in> {i} \<or> bv_has (Divided n d subs) j"
    proof (cases "j div d = i div d")
      case True
      then have "j mod d = i mod d \<or> bv_has q (j mod d)"
        using j divided_update(2) [OF ok q', of j] new old(1) divided_sub(2) [OF ok(1), of j] by (simp add: adds_def)
      with True show ?thesis using same_bin [OF True] has [of j] j(1) by auto
    qed (use j divided_update(2) [OF ok q', of j] in auto)
  next
    fix j assume r: "rc = 0" and j: "j < bv_iSize (Divided n d subs)" "j \<in> {i} \<or> bv_has (Divided n d subs) j"
    show "bv_has (Divided n d (subs[i div d := Some q'])) j"
    proof (cases "j div d = i div d")
      case True
      then have "j mod d = i mod d \<or> bv_has q (j mod d)"
        using j has [of j] by auto
      then have "bv_has q' (j mod d)"
        using new r old(1) divided_sub(2) [OF ok(1), of j] j(1) by (auto simp: adds_def)
      with True show ?thesis using divided_update(2) [OF ok q', of j] j(1) by simp
    qed (use j divided_update(2) [OF ok q', of j] in auto)
  qed (use new divided_update(1) [OF ok q'] in \<open>auto simp: adds_def\<close>)
qed

lemma divided_set:
  assumes ok: "bv_ok (Divided n d subs)" "i < n"
    and IH: "\<And>q j k. bv_ok q \<Longrightarrow> bv_iSize q = d \<Longrightarrow> j < d \<Longrightarrow> set_result alloc q {j} (bv_set f alloc q j k)"
  shows "set_result alloc (Divided n d subs) {i} (bv_set (Suc f) alloc (Divided n d subs) i k)"
proof -
  note b = divided_sub(1,2) [OF ok]
  have lift: "set_result alloc (Divided n d subs) {i}
      (map_option (\<lambda>(rc, q, k). (rc, Divided n d (subs[i div d := Some q]), k)) (bv_set f alloc q (i mod d) k'))"
    if "bv_ok q" "bv_iSize q = d"
      "\<And>j. j < d \<Longrightarrow> bv_has q j \<longleftrightarrow> (case subs ! (i div d) of None \<Rightarrow> False | Some q \<Rightarrow> bv_has q j)" for q k'
    using IH [OF that(1,2) b(2), of k'] divided_adds [OF ok that(2,3)] by (auto simp: set_result_def)
  show ?thesis
  proof (cases "subs ! (i div d)")
    case None
    have "set_result alloc (Divided n d subs) {i} (Some (7, Divided n d subs, Suc k))" if "\<not> alloc k"
      using ok that by (auto simp: set_result_def adds_def)
    then show ?thesis
      using None b lift [of "bv_new d" "Suc k"] bv_new_ok [of d] bv_has_new [of _ d] by (auto simp: Let_def)
  next
    case (Some q)
    then show ?thesis using b lift [of q k] divided_sub(3) [OF ok Some] by (auto simp: Let_def)
  qed
qed

text \<open>Setting the members of a list one after the other.\<close>

definition set_step ::
    "nat \<Rightarrow> (nat \<Rightarrow> bool) \<Rightarrow> (int \<times> bitvec \<times> nat) option \<Rightarrow> nat \<Rightarrow> (int \<times> bitvec \<times> nat) option" where
  "set_step f alloc r v =
     (if v = 0 then r
      else case r of None \<Rightarrow> None
           | Some (rc, p, k) \<Rightarrow>
               map_option (\<lambda>(rc', p, k). (rc OR rc', p, k)) (bv_set f alloc p (v - 1) k))"

lemma or_codes: "rc = 0 \<or> rc = 7 \<Longrightarrow> rc' = 0 \<or> rc' = 7 \<Longrightarrow> (rc OR rc' = 0 \<or> rc OR rc' = 7) \<and> (rc OR rc' = 0 \<longleftrightarrow> rc = 0 \<and> rc' = 0)"
  for rc rc' :: int
  by auto

lemma adds_trans:
  assumes "adds p is rc q" "adds q js rc' r"
  shows "adds p (is \<union> js) (rc OR rc') r"
proof -
  have "rc OR rc' = 0 \<or> rc OR rc' = 7" "rc OR rc' = 0 \<longleftrightarrow> rc = 0 \<and> rc' = 0"
    using or_codes [of rc rc'] assms by (auto simp: adds_def)
  with assms show ?thesis by (auto simp: adds_def)
qed

lemma set_step_result:
  assumes "set_result alloc p is r" "v = 0 \<or> v - 1 < bv_iSize p" "is_divided p"
    and IH: "\<And>q j k. bv_ok q \<Longrightarrow> bv_iSize q = bv_iSize p \<Longrightarrow> is_divided q \<Longrightarrow> j < bv_iSize p \<Longrightarrow>
      set_result alloc q {j} (bv_set f alloc q j k)"
  shows "set_result alloc p (if v = 0 then is else insert (v - 1) is) (set_step f alloc r v)"
proof (cases "v = 0")
  case False
  obtain rc q k where r: "r = Some (rc, q, k)" "adds p is rc q" "(\<forall>k. alloc k) \<longrightarrow> rc = 0"
    using assms(1) by (auto simp: set_result_def)
  then have "set_result alloc q {v - 1} (bv_set f alloc q (v - 1) k)"
    using assms(2,3) False by (intro IH) (auto simp: adds_def)
  then obtain rc' q' k' where q': "bv_set f alloc q (v - 1) k = Some (rc', q', k')" "adds q {v - 1} rc' q'"
      "(\<forall>k. alloc k) \<longrightarrow> rc' = 0"
    by (auto simp: set_result_def)
  with r False show ?thesis
    using adds_trans [OF r(2) q'(2)] by (auto simp: set_step_def set_result_def)
qed (use assms in \<open>simp add: set_step_def\<close>)

lemma foldl_set_step:
  assumes "set_result alloc p is r" "\<forall>v \<in> set vs. v \<le> bv_iSize p" "is_divided p"
    and IH: "\<And>q j k. bv_ok q \<Longrightarrow> bv_iSize q = bv_iSize p \<Longrightarrow> is_divided q \<Longrightarrow> j < bv_iSize p \<Longrightarrow>
      set_result alloc q {j} (bv_set f alloc q j k)"
  shows "set_result alloc p (is \<union> (\<lambda>v. v - 1) ` (set vs - {0})) (foldl (set_step f alloc) r vs)"
  using assms(1,2)
proof (induction vs arbitrary: "is" r)
  case (Cons v vs)
  have "set_result alloc p (if v = 0 then is else insert (v - 1) is) (set_step f alloc r v)"
    by (rule set_step_result [OF Cons.prems(1) _ assms(3) IH]) (use Cons.prems(2) in auto)
  from Cons.IH [OF this] Cons.prems(2) show ?case
    by (cases "v = 0") (simp_all add: insert_Diff_if)
qed simp

lemma divided_new_ok:
  assumes "BITVEC_NBIT < n"
  shows "bv_ok (Divided n (bv_divisor n) (replicate BITVEC_NPTR None))"
    "i < n \<Longrightarrow> \<not> bv_has (Divided n (bv_divisor n) (replicate BITVEC_NPTR None)) i"
  using assms bv_divisor_bounds(3) [OF assms, of i] by (auto simp: bv_ok_simps bv_has_divided)

lemma hash_find:
  assumes "hash_ok a"
  shows "(if a ! (i mod BITVEC_NINT) = 0 then Some (Some (i mod BITVEC_NINT))
     else probe_insert BITVEC_NINT a (i + 1) (i mod BITVEC_NINT)) =
    Some (if i + 1 \<in> set a then None else Some (slot (home (i + 1)) (gap a (home (i + 1)))))"
proof -
  have h: "i mod BITVEC_NINT = home (i + 1)" by (simp add: home_def)
  show ?thesis
  proof (cases "a ! home (i + 1) = 0")
    case True
    then show ?thesis
      unfolding h using gap_0 [OF assms True] not_in_if_free [OF assms _ True] by simp
  next
    case False
    then show ?thesis unfolding h using probe_insert_eq [OF assms _ False] by simp
  qed
qed

lemma hash_store:
  assumes ok: "bv_ok (HashTable n s a)" "i < n" "i + 1 \<notin> set a" "s < BITVEC_NINT - 1"
  shows "adds (HashTable n s a) {i} 0 (HashTable n (s + 1) (a[slot (home (i + 1)) (gap a (home (i + 1))) := i + 1]))"
proof -
  let ?x = "slot (home (i + 1)) (gap a (home (i + 1)))"
  have a: "hash_ok a" "s = length (used a)" "BITVEC_NBIT < n" "\<forall>v \<in> set a. v \<le> n"
    using ok(1) by (auto simp: bv_ok_simps)
  have x: "?x < length a" "a ! ?x = 0" using hash_gap(2) [OF a(1)] hash_ok_length(1) [OF a(1)] by auto
  have u: "set (a[?x := i + 1]) - {0} = insert (i + 1) (set a - {0})"
    using used_update(2) [OF x, of "i + 1"] by simp
  have ok': "hash_ok (a[?x := i + 1])" using hash_ok_insert [OF a(1) _ ok(3)] ok(4) a(2) by simp
  have "\<forall>v \<in> set (a[?x := i + 1]). v \<le> n"
    using a(4) ok(2) set_update_subset_insert [of a ?x "i + 1"] by fastforce
  moreover have "length (used (a[?x := i + 1])) = s + 1" using used_update(1) [OF x, of "i + 1"] a(2) by simp
  ultimately have "bv_ok (HashTable n (s + 1) (a[?x := i + 1]))"
    using ok' a(3) by (simp add: bv_ok_simps)
  moreover have "bv_has (HashTable n (s + 1) (a[?x := i + 1])) j \<longleftrightarrow> j = i \<or> bv_has (HashTable n s a) j" for j
    unfolding bv_has_hash [OF ok'] bv_has_hash [OF a(1)] using u by (auto simp: set_eq_iff)
  ultimately show ?thesis by (simp add: adds_def)
qed

lemma hash_rehash:
  assumes ok: "bv_ok (HashTable n s a)" "i < n"
    and IH: "\<And>q j k. bv_ok q \<Longrightarrow> bv_iSize q = n \<Longrightarrow> is_divided q \<Longrightarrow> j < n \<Longrightarrow>
      set_result alloc q {j} (bv_set f alloc q j k)"
  shows "set_result alloc (HashTable n s a) {i}
    (foldl (set_step f alloc) (bv_set f alloc (Divided n (bv_divisor n) (replicate BITVEC_NPTR None)) i k) a)"
    (is "set_result alloc ?p {i} ?r")
proof -
  let ?d = "Divided n (bv_divisor n) (replicate BITVEC_NPTR None)"
  have a: "hash_ok a" "BITVEC_NBIT < n" "\<forall>v \<in> set a. v \<le> n" using ok(1) by (auto simp: bv_ok_simps)
  have "set_result alloc ?d {i} (bv_set f alloc ?d i k)"
    using IH [of ?d i k] divided_new_ok(1) [OF a(2)] ok(2) by simp
  then have "set_result alloc ?d ({i} \<union> (\<lambda>v. v - 1) ` (set a - {0})) ?r"
    by (rule foldl_set_step) (use a(3) IH in auto)
  moreover have "j \<in> (\<lambda>v. v - 1) ` (set a - {0}) \<longleftrightarrow> bv_has ?p j" for j
  proof -
    have "v - 1 = j \<longleftrightarrow> v = j + 1" if "v \<in> set a - {0}" for v using that by (cases v) auto
    then have "j \<in> (\<lambda>v. v - 1) ` (set a - {0}) \<longleftrightarrow> j + 1 \<in> set a"
      unfolding image_iff by (metis Diff_iff empty_iff insert_iff add_is_0 one_neq_zero)
    then show ?thesis unfolding bv_has_hash [OF a(1)] .
  qed
  moreover have "\<not> bv_has ?d j" if "j < n" for j using divided_new_ok(2) [OF a(2) that] .
  ultimately show ?thesis by (simp add: set_result_def adds_def) blast
qed

lemma hash_set:
  assumes ok: "bv_ok (HashTable n s a)" "i < n"
    and IH: "\<And>q j k. bv_ok q \<Longrightarrow> bv_iSize q = n \<Longrightarrow> is_divided q \<Longrightarrow> j < n \<Longrightarrow>
      set_result alloc q {j} (bv_set f alloc q j k)"
  shows "set_result alloc (HashTable n s a) {i} (bv_set (Suc f) alloc (HashTable n s a) i k)"
proof -
  let ?p = "HashTable n s a" and ?x = "slot (home (i + 1)) (gap a (home (i + 1)))"
  let ?full = "\<not> (a ! (i mod BITVEC_NINT) = 0 \<and> s < BITVEC_NINT - 1) \<and> s \<ge> BITVEC_MXHASH"
  let ?rehash = "foldl (set_step f alloc)
    (bv_set f alloc (Divided n (bv_divisor n) (replicate BITVEC_NPTR None)) i (Suc k)) a"
  have a: "hash_ok a" "s = length (used a)" using ok(1) by (auto simp: bv_ok_simps)
  have set: "bv_set (Suc f) alloc ?p i k =
    (if i + 1 \<in> set a then Some (0, ?p, k)
     else if ?full then if alloc k then ?rehash else Some (7, ?p, Suc k)
     else Some (0, HashTable n (s + 1) (a[?x := i + 1]), k))"
    unfolding bv_set.simps bitvec.case Let_def hash_find [OF a(1)] set_step_def [abs_def]
    by (cases "i + 1 \<in> set a") simp_all
  have keep: "adds ?p {i} 0 ?p" if "i + 1 \<in> set a" using that ok(1) a(1) by (simp add: adds_def bv_has_hash)
  have fail: "set_result alloc ?p {i} (Some (7, ?p, Suc k))" if "\<not> alloc k"
    using that ok(1) by (intro set_resultI) (auto simp: adds_def)
  have "s < BITVEC_NINT - 1" if "\<not> ?full" using that by auto
  then show ?thesis
    unfolding set using keep fail hash_store [OF ok] hash_rehash [OF ok IH, of "Suc k"]
    by (simp add: set_resultI)
qed

lemma bv_set_correct:
  assumes "bv_ok p" "i < bv_iSize p" "bv_iSize p \<le> BITVEC_NBIT * BITVEC_NPTR ^ m" "2 * m < f"
  shows "set_result alloc p {i} (bv_set f alloc p i k)"
  using assms
proof (induction m arbitrary: p i f k)
  case 0
  then obtain n a where "p = Bitmap n a" by (auto elim: bv_ok.cases)
  with 0 show ?case using bitmap_set [of n a i] by (cases f) (auto intro: set_resultI)
next
  case (Suc m)
  have div: "set_result alloc q {j} (bv_set g alloc q j k)"
    if q: "bv_ok q" "is_divided q" "bv_iSize q = bv_iSize p" "j < bv_iSize p" "2 * m + 1 < g" for q j g k
  proof -
    obtain n d subs where qd: "q = Divided n d subs" using q(2) by (cases q) auto
    then have "d \<le> BITVEC_NBIT * BITVEC_NPTR ^ m"
      using q(1,3) Suc.prems(3) bv_divisor_bounds(4) [of n "BITVEC_NBIT * BITVEC_NPTR ^ m"]
      by (auto simp: bv_ok_simps mult.commute mult.left_commute)
    then have "set_result alloc q' {j'} (bv_set (g - 1) alloc q' j' k')"
      if "bv_ok q'" "bv_iSize q' = d" "j' < d" for q' j' k'
      using Suc.IH [of q' j' "g - 1" k'] that q(5) by auto
    then have "set_result alloc q {j} (bv_set (Suc (g - 1)) alloc q j k)"
      using q unfolding qd by (intro divided_set) auto
    then show ?thesis using q(5) by simp
  qed
  obtain g where g: "f = Suc g" "2 * m + 1 < g" using Suc.prems(4) by (cases f) auto
  show ?case
  proof (cases p)
    case (Bitmap n a)
    then show ?thesis using bitmap_set [of n a i] Suc.prems g by (auto intro: set_resultI)
  next
    case (HashTable n s a)
    show ?thesis
      using hash_set [of n s a i alloc g k] div [of _ _ g] Suc.prems g HashTable by auto
  next
    case (Divided n d subs)
    then show ?thesis using div [of p i f k] Suc.prems g by auto
  qed
qed

section \<open>Clearing a bit\<close>

lemma bitmap_clear:
  assumes "bv_ok (Bitmap n a)" "i < n"
  shows "bv_has (Bitmap n (a[i div 8 := a ! (i div 8) AND NOT (push_bit (i mod 8) 1)])) j \<longleftrightarrow>
    bv_has (Bitmap n a) j \<and> j \<noteq> i"
proof (cases "j div 8 = i div 8")
  case True
  have l: "i div 8 < length a" using assms by (auto simp: bv_ok_simps)
  then show ?thesis using True same_bin [OF True] by (auto simp: bv_has_def bit_simps)
next
  case False
  then have "j \<noteq> i" by auto
  with False show ?thesis by (simp add: bv_has_def)
qed

lemma bv_clear_correct:
  "bv_ok p \<Longrightarrow> i < bv_iSize p \<Longrightarrow>
   \<exists>p'. bv_clear p i = Some p' \<and> bv_ok p' \<and> bv_iSize p' = bv_iSize p \<and>
     (\<forall>j < bv_iSize p. bv_has p' j \<longleftrightarrow> bv_has p j \<and> j \<noteq> i)"
proof (induction arbitrary: i rule: bv_ok.induct)
  case (bitmap n a)
  then have "bv_ok (Bitmap n a)" by (simp add: bv_ok_simps)
  with bitmap show ?case using bitmap_clear [of n a i] by (simp add: bv_ok_simps)
next
  case (hash n a s)
  obtain b where b: "rebuild (i + 1) a = Some (length (used b), b)" "hash_ok b" "set (used b) = set (used a) - {i + 1}"
    using rebuild_eq [OF hash.hyps(2)] by blast
  have sub: "set b \<subseteq> insert 0 (set a)" using b(3) by auto
  have mem: "j + 1 \<in> set b \<longleftrightarrow> j + 1 \<in> set a \<and> j \<noteq> i" for j
  proof -
    have "j + 1 \<in> set (used b) \<longleftrightarrow> j + 1 \<in> set (used a) - {i + 1}" using b(3) by simp
    then show ?thesis by simp
  qed
  have "\<forall>v \<in> set b. v \<le> n" using sub hash.hyps(4) by auto
  then have "bv_ok (HashTable n (length (used b)) b)" using b(2) hash.hyps(1) by (simp add: bv_ok_simps)
  then show ?case
    using b(1) mem by (simp add: bv_has_hash [OF b(2)] bv_has_hash [OF hash.hyps(2)])
next
  case (divided n subs d)
  let ?p = "Divided n d subs"
  have ok: "bv_ok ?p" "i < n" using divided by (auto simp: bv_ok_simps)
  note b = divided_sub(1,2) [OF ok]
  show ?case
  proof (cases "subs ! (i div d)")
    case None
    then have "\<not> bv_has ?p i" using b by (simp add: bv_has_divided)
    then have "\<forall>j < n. bv_has ?p j \<longleftrightarrow> bv_has ?p j \<and> j \<noteq> i" by auto
    then show ?thesis using None b ok(1) by simp
  next
    case (Some q)
    then have "Some q \<in> set subs" using b(1) nth_mem by metis
    then obtain q' where q': "bv_clear q (i mod d) = Some q'" "bv_ok q'" "bv_iSize q' = d"
        "\<forall>j < d. bv_has q' j \<longleftrightarrow> bv_has q j \<and> j \<noteq> i mod d"
      using divided.IH [of q "i mod d"] divided.hyps(5) b(2) by auto
    have "bv_has (Divided n d (subs[i div d := Some q'])) j \<longleftrightarrow> bv_has ?p j \<and> j \<noteq> i" if j: "j < n" for j
    proof (cases "j div d = i div d")
      case True
      have "j mod d < d" using divided_sub(2) [OF ok(1) j] .
      then have "bv_has q' (j mod d) \<longleftrightarrow> bv_has q (j mod d) \<and> j \<noteq> i" using q'(4) same_bin [OF True] by simp
      moreover have "bv_has ?p j \<longleftrightarrow> bv_has q (j mod d)" using True Some b(1) by (simp add: bv_has_divided)
      ultimately show ?thesis using True divided_update(2) [OF ok q'(2,3) j] by simp
    next
      case False
      then have "j \<noteq> i" by auto
      with False show ?thesis using divided_update(2) [OF ok q'(2,3) j] by simp
    qed
    then show ?thesis using Some b(1) q'(1) divided_update(1) [OF ok q'(2,3)] by simp
  qed
qed

section \<open>The interface\<close>

definition bv_valid :: "bitvec \<Rightarrow> bool" where
  "bv_valid p \<longleftrightarrow> bv_ok p \<and> bv_iSize p < 2 ^ 32"

definition bv_elems :: "bitvec \<Rightarrow> u32 set" where
  "bv_elems p = {i. sqlite3BitvecTestNotNull p i = Some True}"

lemma pred_word: "i \<noteq> 0 \<Longrightarrow> unat (i - 1) = unat i - 1" for i :: u32
  by (metis unat_minus_one)

lemma bv_elems_iff:
  "i \<in> bv_elems p \<longleftrightarrow> unat (i - 1) < bv_iSize p \<and> bv_has p (unat (i - 1))"
  by (simp add: bv_elems_def sqlite3BitvecTestNotNull_def bv_has_def Let_def not_less)

lemma test_total: "bv_valid p \<Longrightarrow> sqlite3BitvecTestNotNull p i = Some (i \<in> bv_elems p)"
  using bv_test_has [of p "unat (i - 1)"]
  by (auto simp: bv_valid_def bv_elems_iff sqlite3BitvecTestNotNull_def Let_def not_less)

lemma in_range: "0 < i \<Longrightarrow> i \<le> sqlite3BitvecSize p \<Longrightarrow> bv_valid p \<Longrightarrow> unat (i - 1) < bv_iSize p"
proof -
  assume "0 < i" "i \<le> sqlite3BitvecSize p" "bv_valid p"
  then have "unat i \<le> bv_iSize p" "0 < unat i"
    by (auto simp: sqlite3BitvecSize_def bv_valid_def word_le_nat_alt unat_of_nat word_less_nat_alt)
  then show ?thesis using pred_word [of i] \<open>0 < i\<close> by (metis Suc_pred' leD le_less_Suc_eq less_or_eq_imp_le not_less_eq unat_eq_0 word_neq_0_conv diff_Suc_1 not_le)
qed

lemma pred_inj: "i - 1 = j - 1 \<longleftrightarrow> i = j" for i j :: u32
  by simp

lemma create_correct:
  "bv_valid (bv_new (unat n))" "bv_elems (bv_new (unat n)) = {}" "sqlite3BitvecSize (bv_new (unat n)) = n" for n :: u32
  using bv_new_ok [of "unat n"] bv_has_new [of _ "unat n"] unsigned_less [of n]
  by (auto simp: bv_valid_def bv_elems_iff sqlite3BitvecSize_def)

lemma set_correct:
  assumes "bv_valid p" "0 < i" "i \<le> sqlite3BitvecSize p"
  shows "\<exists>rc p'. sqlite3BitvecSet alloc (Some p) i = Some (rc, Some p') \<and> (rc = 0 \<or> rc = 7) \<and>
    bv_valid p' \<and> sqlite3BitvecSize p' = sqlite3BitvecSize p \<and> bv_elems p' \<subseteq> insert i (bv_elems p) \<and>
    (rc = 0 \<longrightarrow> bv_elems p' = insert i (bv_elems p)) \<and> ((\<forall>k. alloc k) \<longrightarrow> rc = 0)"
proof -
  have r: "unat (i - 1) < bv_iSize p" using in_range [OF assms(2,3,1)] .
  have "bv_iSize p \<le> BITVEC_NBIT * BITVEC_NPTR ^ 4" using assms(1) by (simp add: bv_valid_def)
  then have "set_result alloc p {unat (i - 1)} (bv_set 9 alloc p (unat (i - 1)) 0)"
    using assms(1) r by (intro bv_set_correct [of p _ 4]) (auto simp: bv_valid_def)
  then obtain rc p' k where s: "bv_set 9 alloc p (unat (i - 1)) 0 = Some (rc, p', k)" "adds p {unat (i - 1)} rc p'"
      "(\<forall>k. alloc k) \<longrightarrow> rc = 0"
    by (auto simp: set_result_def)
  have eq: "unat (j - 1) = unat (i - 1) \<longleftrightarrow> j = i" for j by (simp add: word_unat_eq_iff [symmetric])
  have "bv_valid p'" "sqlite3BitvecSize p' = sqlite3BitvecSize p" "rc = 0 \<or> rc = 7"
    using s(2) assms(1) by (auto simp: adds_def bv_valid_def sqlite3BitvecSize_def)
  moreover have "bv_elems p' \<subseteq> insert i (bv_elems p)"
    using s(2) eq by (auto simp: adds_def bv_elems_iff)
  moreover have "bv_elems p' = insert i (bv_elems p)" if "rc = 0"
    using s(2) eq that r by (auto simp: adds_def bv_elems_iff)
  ultimately show ?thesis using s(1,3) by (auto simp: sqlite3BitvecSet_def)
qed

lemma clear_correct:
  assumes "bv_valid p" "0 < i" "i \<le> sqlite3BitvecSize p"
  shows "\<exists>p'. sqlite3BitvecClear (Some p) i = Some (Some p') \<and> bv_valid p' \<and>
    sqlite3BitvecSize p' = sqlite3BitvecSize p \<and> bv_elems p' = bv_elems p - {i}"
proof -
  have r: "unat (i - 1) < bv_iSize p" using in_range [OF assms(2,3,1)] .
  obtain p' where p': "bv_clear p (unat (i - 1)) = Some p'" "bv_ok p'" "bv_iSize p' = bv_iSize p"
      "\<forall>j < bv_iSize p. bv_has p' j \<longleftrightarrow> bv_has p j \<and> j \<noteq> unat (i - 1)"
    using bv_clear_correct [of p "unat (i - 1)"] assms(1) r by (auto simp: bv_valid_def)
  have eq: "unat (j - 1) = unat (i - 1) \<longleftrightarrow> j = i" for j by (simp add: word_unat_eq_iff [symmetric])
  have "bv_elems p' = bv_elems p - {i}" using p'(3,4) eq by (auto simp: bv_elems_iff)
  with p' assms(1) show ?thesis by (auto simp: sqlite3BitvecClear_def bv_valid_def sqlite3BitvecSize_def)
qed

text \<open>
  What the pager relies on: a set of page numbers with a test, an insertion that may fail for want
  of memory, and a removal. A history of operations gives the set one expects, or stops at the
  first failure.
\<close>

primrec page_run ::
    "('p \<Rightarrow> u32 \<Rightarrow> (int \<times> 'p) option) \<Rightarrow> ('p \<Rightarrow> u32 \<Rightarrow> 'p option) \<Rightarrow> (bool \<times> u32) list \<Rightarrow> 'p \<Rightarrow> (int \<times> 'p) option" where
  "page_run add del [] p = Some (0, p)"
| "page_run add del (x # ops) p =
     (case x of (b, i) \<Rightarrow>
        if b
        then (case add p i of
                None \<Rightarrow> None
              | Some (rc, p') \<Rightarrow> if rc \<noteq> 0 then Some (rc, p') else page_run add del ops p')
        else Option.bind (del p i) (page_run add del ops))"

definition page_spec :: "(bool \<times> u32) list \<Rightarrow> u32 set \<Rightarrow> u32 set" where
  "page_spec ops S = fold (\<lambda>(b, i) S. if b then insert i S else S - {i}) ops S"

locale page_set =
  fixes inv :: "'p \<Rightarrow> bool" and elems :: "'p \<Rightarrow> u32 set" and limit :: "'p \<Rightarrow> u32"
    and test :: "'p \<Rightarrow> u32 \<Rightarrow> bool option"
    and add :: "'p \<Rightarrow> u32 \<Rightarrow> (int \<times> 'p) option"
    and del :: "'p \<Rightarrow> u32 \<Rightarrow> 'p option"
    and memory :: bool
  assumes test_law: "inv p \<Longrightarrow> test p i = Some (i \<in> elems p)"
    and add_law: "inv p \<Longrightarrow> 0 < i \<Longrightarrow> i \<le> limit p \<Longrightarrow>
      \<exists>rc p'. add p i = Some (rc, p') \<and> (rc = 0 \<or> rc = 7) \<and> inv p' \<and> limit p' = limit p \<and>
        (rc = 0 \<longrightarrow> elems p' = insert i (elems p)) \<and> (memory \<longrightarrow> rc = 0)"
    and del_law: "inv p \<Longrightarrow> 0 < i \<Longrightarrow> i \<le> limit p \<Longrightarrow>
      \<exists>p'. del p i = Some p' \<and> inv p' \<and> limit p' = limit p \<and> elems p' = elems p - {i}"
begin

lemma history:
  assumes "inv p" "\<forall>(b, i) \<in> set ops. 0 < i \<and> i \<le> limit p"
  shows "\<exists>rc p'. page_run add del ops p = Some (rc, p') \<and> (rc = 0 \<or> rc = 7) \<and> (memory \<longrightarrow> rc = 0) \<and>
    inv p' \<and> (rc = 0 \<longrightarrow> elems p' = page_spec ops (elems p))"
  using assms
proof (induction ops arbitrary: p)
  case (Cons x ops)
  obtain b i where x: "x = (b, i)" by (cases x)
  then have i: "0 < i" "i \<le> limit p" using Cons.prems(2) by auto
  show ?case
  proof (cases b)
    case True
    obtain rc q where q: "add p i = Some (rc, q)" "rc = 0 \<or> rc = 7" "inv q" "limit q = limit p"
        "rc = 0 \<longrightarrow> elems q = insert i (elems p)" "memory \<longrightarrow> rc = 0"
      using add_law [OF Cons.prems(1) i] by blast
    show ?thesis
    proof (cases "rc = 0")
      case True
      then show ?thesis using Cons.IH [OF q(3)] Cons.prems(2) q x \<open>b\<close> by (auto simp: page_spec_def)
    qed (use q x \<open>b\<close> in auto)
  next
    case False
    obtain q where q: "del p i = Some q" "inv q" "limit q = limit p" "elems q = elems p - {i}"
      using del_law [OF Cons.prems(1) i] by blast
    then show ?thesis using Cons.IH [OF q(2)] Cons.prems(2) x False by (auto simp: page_spec_def)
  qed
qed (simp add: page_spec_def)

lemma history_test:
  assumes "inv p" "\<forall>(b, i) \<in> set ops. 0 < i \<and> i \<le> limit p" "memory"
  shows "\<exists>p'. page_run add del ops p = Some (0, p') \<and> (\<forall>i. test p' i = Some (i \<in> page_spec ops (elems p)))"
  using history [OF assms(1,2)] assms(3) test_law by force

end

definition bitvec_inv :: "bitvec option \<Rightarrow> bool" where
  "bitvec_inv p \<longleftrightarrow> (case p of None \<Rightarrow> False | Some p \<Rightarrow> bv_valid p)"

interpretation page_numbers: page_set bitvec_inv "\<lambda>p. bv_elems (the p)" "\<lambda>p. sqlite3BitvecSize (the p)"
  sqlite3BitvecTest "sqlite3BitvecSet alloc" sqlite3BitvecClear "\<forall>k. alloc k"
proof (unfold_locales, goal_cases)
  case (1 p i)
  then show ?case using test_total by (cases p) (auto simp: bitvec_inv_def sqlite3BitvecTest_def)
next
  case (2 p i)
  then obtain q where "p = Some q" "bv_valid q" by (cases p) (auto simp: bitvec_inv_def)
  then show ?case using set_correct [of q i alloc] 2(2,3) by (fastforce simp: bitvec_inv_def)
next
  case (3 p i)
  then obtain q where "p = Some q" "bv_valid q" by (cases p) (auto simp: bitvec_inv_def)
  then show ?case using clear_correct [of q i] 3(2,3) by (fastforce simp: bitvec_inv_def)
qed

end
