(* ===== verification/Sqlite_Rowset.thy ===== *)
theory Sqlite_Rowset
  imports Prelude "HOL-Library.Tree"
begin

text \<open>
  \<^verbatim>\<open>rowset.c\<close> of the bundled SQLite (\<^verbatim>\<open>sqlite3/sqlite3.c\<close>): a collection of row numbers that is filled in any order
  and then either read back in increasing order without duplicates, or tested for membership in
  batches. Entries wait in a list; a change of the batch number sorts them and merges them into a
  forest of search trees. Lists linked by \<^verbatim>\<open>pRight\<close> are HOL lists and trees of entries are trees; sizes are
  those of a machine with 64-bit pointers. An operation makes at most one allocation, whose success
  is an argument.
\<close>

section \<open>Model\<close>

definition ROWSET_ENTRY_PER_CHUNK :: nat where
  "ROWSET_ENTRY_PER_CHUNK = (1024 - 8) div 24"

text \<open>
  \<open>rs_sorted\<close> and \<open>rs_next\<close> are the bits \<^verbatim>\<open>ROWSET_SORTED\<close> and \<^verbatim>\<open>ROWSET_NEXT\<close> of \<^verbatim>\<open>rsFlags\<close>, \<open>rs_chunks\<close> is the number of chunks on
  \<^verbatim>\<open>pChunk\<close>. \<^verbatim>\<open>pLast\<close> is the last entry of \<^verbatim>\<open>pEntry\<close>.
\<close>

record RowSet =
  rs_chunks :: nat
  rs_pEntry :: "int list"
  rs_pForest :: "int tree list"
  rs_nFresh :: nat
  rs_sorted :: bool
  rs_next :: bool
  rs_iBatch :: int

text \<open>\<open>n\<close> is the size of the block that the allocator returned.\<close>

definition sqlite3RowSetInit :: "nat \<Rightarrow> RowSet" where
  "sqlite3RowSetInit n =
     \<lparr>rs_chunks = 0, rs_pEntry = [], rs_pForest = [], rs_nFresh = ((n - 56) div 24) mod 2 ^ 16,
      rs_sorted = True, rs_next = False, rs_iBatch = 0\<rparr>"

definition sqlite3RowSetClear :: "RowSet \<Rightarrow> RowSet" where
  "sqlite3RowSetClear p =
     p\<lparr>rs_chunks := 0, rs_nFresh := 0, rs_pEntry := [], rs_pForest := [], rs_sorted := True, rs_next := False\<rparr>"

definition rowSetEntryAlloc :: "bool \<Rightarrow> RowSet \<Rightarrow> bool \<times> RowSet" where
  "rowSetEntryAlloc ok p =
     (if rs_nFresh p = 0
      then if ok then (True, p\<lparr>rs_chunks := rs_chunks p + 1, rs_nFresh := ROWSET_ENTRY_PER_CHUNK - 1\<rparr>) else (False, p)
      else (True, p\<lparr>rs_nFresh := rs_nFresh p - 1\<rparr>))"

text \<open>The first result of an operation is \<open>False\<close> when the allocation failed and \<^verbatim>\<open>mallocFailed\<close> is set.\<close>

definition sqlite3RowSetInsert :: "bool \<Rightarrow> RowSet \<Rightarrow> int \<Rightarrow> bool \<times> RowSet" where
  "sqlite3RowSetInsert ok p rowid =
     (case rowSetEntryAlloc ok p of
        (False, p) \<Rightarrow> (False, p)
      | (True, p) \<Rightarrow>
          (True, p\<lparr>rs_sorted := rs_sorted p \<and> \<not> (rs_pEntry p \<noteq> [] \<and> rowid \<le> last (rs_pEntry p)),
                   rs_pEntry := rs_pEntry p @ [rowid]\<rparr>))"

text \<open>Merging: equal heads drop the first. The first two equations are the two exits of the loop.\<close>

fun rowSetEntryMerge :: "int list \<Rightarrow> int list \<Rightarrow> int list" where
  "rowSetEntryMerge [] pB = pB"
| "rowSetEntryMerge pA [] = pA"
| "rowSetEntryMerge (a # pA) (b # pB) =
     (if a \<le> b then if a < b then a # rowSetEntryMerge pA (b # pB) else rowSetEntryMerge pA (b # pB)
      else b # rowSetEntryMerge (a # pA) pB)"

text \<open>
  Sorting with the array \<^verbatim>\<open>aBucket\<close> of 40 lists; \<open>None\<close> when the index leaves the array.
\<close>

fun put_bucket :: "int list list \<Rightarrow> int list \<Rightarrow> int list list option" where
  "put_bucket [] pIn = None"
| "put_bucket (b # aBucket) pIn =
     (if b = [] then Some (pIn # aBucket)
      else map_option (\<lambda>aBucket. [] # aBucket) (put_bucket aBucket (rowSetEntryMerge b pIn)))"

fun fill_buckets :: "int list list \<Rightarrow> int list \<Rightarrow> int list list option" where
  "fill_buckets aBucket [] = Some aBucket"
| "fill_buckets aBucket (v # pIn) = Option.bind (put_bucket aBucket [v]) (\<lambda>aBucket. fill_buckets aBucket pIn)"

definition collect_buckets :: "int list \<Rightarrow> int list list \<Rightarrow> int list" where
  "collect_buckets = foldl (\<lambda>pIn b. if b = [] then pIn else if pIn \<noteq> [] then rowSetEntryMerge pIn b else b)"

definition rowSetEntrySort :: "int list \<Rightarrow> int list option" where
  "rowSetEntrySort pIn =
     map_option (\<lambda>aBucket. collect_buckets (hd aBucket) (tl aBucket)) (fill_buckets (replicate 40 []) pIn)"

fun rowSetTreeToList :: "int tree \<Rightarrow> int list" where
  "rowSetTreeToList Leaf = []"
| "rowSetTreeToList (Node l v r) = rowSetTreeToList l @ v # rowSetTreeToList r"

text \<open>A tree of the given depth from the head of a list, and the rest of the list.\<close>

fun rowSetNDeepTree :: "int list \<Rightarrow> nat \<Rightarrow> int tree \<times> int list" where
  "rowSetNDeepTree [] iDepth = (Leaf, [])"
| "rowSetNDeepTree (v # l) iDepth =
     (if iDepth > 1
      then case rowSetNDeepTree (v # l) (iDepth - 1) of
             (pLeft, []) \<Rightarrow> (pLeft, [])
           | (pLeft, p # l) \<Rightarrow> (case rowSetNDeepTree l (iDepth - 1) of (pRight, l) \<Rightarrow> (Node pLeft p pRight, l))
      else (Node Leaf v Leaf, l))"

lemma ndeep_length: "rowSetNDeepTree l d = (t, r) \<Longrightarrow> length r \<le> length l"
proof (induction d arbitrary: l t r)
  case 0
  then show ?case by (cases l) auto
next
  case (Suc d)
  show ?case
  proof (cases "l = [] \<or> d = 0")
    case True
    then show ?thesis using Suc.prems by (cases l) auto
  next
    case False
    obtain t1 r1 where 1: "rowSetNDeepTree l d = (t1, r1)" by fastforce
    obtain t2 r2 where 2: "rowSetNDeepTree (tl r1) d = (t2, r2)" by fastforce
    have "length r \<le> length r1"
      using Suc.prems Suc.IH [OF 2] False 1 2 by (cases l; cases r1) auto
    then show ?thesis using Suc.IH [OF 1] by simp
  qed
qed

function deepen :: "nat \<Rightarrow> int tree \<Rightarrow> int list \<Rightarrow> int tree" where
  "deepen iDepth p [] = p"
| "deepen iDepth p (v # l) =
     (case rowSetNDeepTree l iDepth of (pRight, l) \<Rightarrow> deepen (iDepth + 1) (Node p v pRight) l)"
  by pat_completeness auto
termination
proof (relation "measure (\<lambda>(d, p, l). length l)", goal_cases)
  case (2 d p v l r l')
  then show ?case using ndeep_length [of l d] by (metis in_measure case_prod_conv length_Cons less_Suc_eq_le)
qed simp

definition rowSetListToTree :: "int list \<Rightarrow> int tree" where
  "rowSetListToTree pList = (case pList of [] \<Rightarrow> Leaf | v # l \<Rightarrow> deepen 1 (Node Leaf v Leaf) l)"

text \<open>Smallest element: the row number, or \<open>None\<close> for the answer 0.\<close>

definition sqlite3RowSetNext :: "RowSet \<Rightarrow> (int option \<times> RowSet) option" where
  "sqlite3RowSetNext p =
     Option.bind
       (if rs_next p then Some p
        else map_option (\<lambda>l. p\<lparr>rs_pEntry := l, rs_sorted := True, rs_next := True\<rparr>)
               (if rs_sorted p then Some (rs_pEntry p) else rowSetEntrySort (rs_pEntry p)))
       (\<lambda>p. Some (case rs_pEntry p of
                    [] \<Rightarrow> (None, p)
                  | v # l \<Rightarrow> (Some v, let p = p\<lparr>rs_pEntry := l\<rparr> in if l = [] then sqlite3RowSetClear p else p)))"

text \<open>
  The new list goes to the first free place of the forest; the trees before it are dissolved into it.
  The second result is the list when there is no free place.
\<close>

fun forest_add :: "int tree list \<Rightarrow> int list \<Rightarrow> int tree list \<times> int list option" where
  "forest_add [] p = ([], Some p)"
| "forest_add (t # ts) p =
     (if t = Leaf then (rowSetListToTree p # ts, None)
      else case forest_add ts (rowSetEntryMerge (rowSetTreeToList t) p) of (ts, r) \<Rightarrow> (Leaf # ts, r))"

definition new_batch :: "bool \<Rightarrow> RowSet \<Rightarrow> (bool \<times> RowSet) option" where
  "new_batch ok p =
     (if rs_pEntry p = [] then Some (True, p)
      else map_option
        (\<lambda>l. case forest_add (rs_pForest p) l of
               (f, r) \<Rightarrow>
                 (case (case r of
                          None \<Rightarrow> (True, p\<lparr>rs_pForest := f\<rparr>)
                        | Some l \<Rightarrow>
                            (case rowSetEntryAlloc ok p of
                               (b, p) \<Rightarrow> (b, p\<lparr>rs_pForest := f @ (if b then [rowSetListToTree l] else [])\<rparr>))) of
                    (b, p) \<Rightarrow> (b, p\<lparr>rs_pEntry := [], rs_sorted := True\<rparr>)))
        (if rs_sorted p then Some (rs_pEntry p) else rowSetEntrySort (rs_pEntry p)))"

fun tree_search :: "int tree \<Rightarrow> int \<Rightarrow> bool" where
  "tree_search Leaf iRowid = False"
| "tree_search (Node l v r) iRowid =
     (if v < iRowid then tree_search r iRowid else if v > iRowid then tree_search l iRowid else True)"

text \<open>The results are whether the allocation succeeded, the answer and the new state.\<close>

definition sqlite3RowSetTest :: "bool \<Rightarrow> RowSet \<Rightarrow> int \<Rightarrow> int \<Rightarrow> (bool \<times> bool \<times> RowSet) option" where
  "sqlite3RowSetTest ok p iBatch iRowid =
     map_option (\<lambda>(b, p). (b, \<exists>t \<in> set (rs_pForest p). tree_search t iRowid, p))
       (if iBatch \<noteq> rs_iBatch p then map_option (\<lambda>(b, p). (b, p\<lparr>rs_iBatch := iBatch\<rparr>)) (new_batch ok p)
        else Some (True, p))"

section \<open>Sorting\<close>

abbreviation (input) increasing :: "int list \<Rightarrow> bool" where
  "increasing \<equiv> sorted_wrt (<)"

lemma merge_set [simp]: "set (rowSetEntryMerge xs ys) = set xs \<union> set ys"
  by (induction xs ys rule: rowSetEntryMerge.induct) auto

lemma merge_increasing: "increasing xs \<Longrightarrow> increasing ys \<Longrightarrow> increasing (rowSetEntryMerge xs ys)"
  by (induction xs ys rule: rowSetEntryMerge.induct) auto

lemma merge_Nil [simp]: "rowSetEntryMerge xs ys = [] \<longleftrightarrow> xs = [] \<and> ys = []"
  using merge_set [of xs ys] by (metis set_empty Un_empty)

lemma increasing_unique: "increasing xs \<Longrightarrow> increasing ys \<Longrightarrow> set xs = set ys \<Longrightarrow> xs = ys"
  by (rule strict_sorted_equal)

text \<open>The filled buckets are the digits of the number of entries in base 2.\<close>

fun weight :: "int list list \<Rightarrow> nat" where
  "weight [] = 0"
| "weight (b # bs) = of_bool (b \<noteq> []) + 2 * weight bs"

definition buckets_ok :: "int list list \<Rightarrow> bool" where
  "buckets_ok bs \<longleftrightarrow> (\<forall>b \<in> set bs. increasing b)"

lemma put_bucket_ok:
  assumes "buckets_ok bs" "increasing p" "p \<noteq> []" "weight bs + 1 < 2 ^ length bs"
  shows "\<exists>cs. put_bucket bs p = Some cs \<and> buckets_ok cs \<and> length cs = length bs \<and> weight cs = weight bs + 1 \<and>
    \<Union> (set ` set cs) = \<Union> (set ` set bs) \<union> set p"
  using assms
proof (induction bs p rule: put_bucket.induct)
  case (2 b bs p)
  show ?case
  proof (cases "b = []")
    case True
    then show ?thesis using 2(2-4) by (auto simp: buckets_ok_def)
  next
    case False
    have "buckets_ok bs" "increasing (rowSetEntryMerge b p)" using 2(2,3) merge_increasing by (auto simp: buckets_ok_def)
    moreover have "weight bs + 1 < 2 ^ length bs" using 2(5) False by simp
    ultimately obtain cs where "put_bucket bs (rowSetEntryMerge b p) = Some cs" "buckets_ok cs" "length cs = length bs"
        "weight cs = weight bs + 1" "\<Union> (set ` set cs) = \<Union> (set ` set bs) \<union> (set b \<union> set p)"
      using 2(1) [OF False] False by auto
    then show ?thesis using False by (auto simp: buckets_ok_def)
  qed
qed simp

lemma fill_buckets_ok:
  assumes "buckets_ok bs" "weight bs + length xs < 2 ^ length bs"
  shows "\<exists>cs. fill_buckets bs xs = Some cs \<and> buckets_ok cs \<and> length cs = length bs \<and>
    \<Union> (set ` set cs) = \<Union> (set ` set bs) \<union> set xs"
  using assms
proof (induction xs arbitrary: bs)
  case (Cons x xs)
  obtain cs where cs: "put_bucket bs [x] = Some cs" "buckets_ok cs" "length cs = length bs" "weight cs = weight bs + 1"
      "\<Union> (set ` set cs) = \<Union> (set ` set bs) \<union> {x}"
    using put_bucket_ok [OF Cons.prems(1), of "[x]"] Cons.prems(2) by auto
  obtain ds where "fill_buckets cs xs = Some ds" "buckets_ok ds" "length ds = length cs" "\<Union> (set ` set ds) = \<Union> (set ` set cs) \<union> set xs"
    using Cons.IH [OF cs(2)] cs(3,4) Cons.prems(2) by auto
  then show ?case using cs by auto
qed simp

lemma collect_ok:
  assumes "increasing p" "buckets_ok bs"
  shows "increasing (collect_buckets p bs) \<and> set (collect_buckets p bs) = set p \<union> \<Union> (set ` set bs)"
  using assms
proof (induction bs arbitrary: p)
  case (Cons b bs)
  let ?p = "if b = [] then p else if p \<noteq> [] then rowSetEntryMerge p b else b"
  have "increasing ?p" "set ?p = set p \<union> set b" "buckets_ok bs"
    using Cons.prems merge_increasing by (auto simp: buckets_ok_def)
  then show ?case using Cons.IH [of ?p] by (auto simp: collect_buckets_def)
qed (simp add: collect_buckets_def)

text \<open>Fewer than \<open>2 ^ 40\<close> entries fit into the 40 buckets.\<close>

lemma sort_ok:
  assumes "length xs < 2 ^ 40"
  obtains ys where "rowSetEntrySort xs = Some ys" "increasing ys" "set ys = set xs"
proof -
  have w: "weight (replicate n []) = 0" for n by (induction n) simp_all
  have "buckets_ok (replicate 40 [])" by (simp add: buckets_ok_def)
  then obtain cs where cs: "fill_buckets (replicate 40 []) xs = Some cs" "buckets_ok cs" "length cs = 40" "\<Union> (set ` set cs) = set xs"
    using fill_buckets_ok [of "replicate 40 []" xs] assms w [of 40] by auto
  then obtain b bs where b: "cs = b # bs" by (cases cs) auto
  then have "increasing (collect_buckets b bs) \<and> set (collect_buckets b bs) = set b \<union> \<Union> (set ` set bs)"
    using collect_ok [of b bs] cs(2) by (simp add: buckets_ok_def)
  then show ?thesis using that cs b by (auto simp: rowSetEntrySort_def)
qed

section \<open>Trees\<close>

lemma treeToList_inorder [simp]: "rowSetTreeToList t = inorder t"
  by (induction t) simp_all

lemma ndeep_ok:
  assumes "rowSetNDeepTree l d = (t, r)" "d \<ge> 1"
  shows "inorder t @ r = l \<and> height t \<le> d \<and> size t < 2 ^ d \<and> (r \<noteq> [] \<longrightarrow> size t + 1 = 2 ^ d)"
  using assms
proof (induction d arbitrary: l t r)
  case (Suc d)
  show ?case
  proof (cases "l = [] \<or> d = 0")
    case True
    then show ?thesis using Suc.prems by (cases l) auto
  next
    case False
    then obtain v xs where l: "l = v # xs" by (cases l) auto
    obtain t1 r1 where 1: "rowSetNDeepTree l d = (t1, r1)" by fastforce
    have i1: "inorder t1 @ r1 = l \<and> height t1 \<le> d \<and> size t1 < 2 ^ d \<and> (r1 \<noteq> [] \<longrightarrow> size t1 + 1 = 2 ^ d)"
      using Suc.IH [OF 1] False by simp
    show ?thesis
    proof (cases r1)
      case Nil
      then have "t = t1" "r = []" using Suc.prems(1) 1 False l by auto
      then show ?thesis using i1 Nil by auto
    next
      case (Cons y ys)
      obtain t2 r2 where 2: "rowSetNDeepTree ys d = (t2, r2)" by fastforce
      have i2: "inorder t2 @ r2 = ys \<and> height t2 \<le> d \<and> size t2 < 2 ^ d \<and> (r2 \<noteq> [] \<longrightarrow> size t2 + 1 = 2 ^ d)"
        using Suc.IH [OF 2] False by simp
      have "t = Node t1 y t2" "r = r2" using Suc.prems(1) 1 2 Cons False l by auto
      then show ?thesis using i1 i2 Cons by auto
    qed
  qed
qed simp

lemma deepen_ok:
  assumes "d \<ge> 1" "height p = d" "2 ^ (d - 1) \<le> size p" "size p < 2 ^ d" "l \<noteq> [] \<Longrightarrow> size p + 1 = 2 ^ d"
  defines "t \<equiv> deepen d p l"
  shows "inorder t = inorder p @ l \<and> 2 ^ (height t - 1) \<le> size t \<and> size t < 2 ^ height t"
  using assms(1-5) unfolding t_def
proof (induction d p l rule: deepen.induct)
  case (2 d p v l)
  obtain r l' where r: "rowSetNDeepTree l d = (r, l')" by fastforce
  have i: "inorder r @ l' = l \<and> height r \<le> d \<and> size r < 2 ^ d \<and> (l' \<noteq> [] \<longrightarrow> size r + 1 = 2 ^ d)"
    by (rule ndeep_ok [OF r 2(2)])
  have p: "height p = d" "size p + 1 = 2 ^ d" using 2(3,6) by simp_all
  let ?q = "Node p v r"
  have "height ?q = d + 1" "2 ^ d \<le> size ?q" "size ?q < 2 ^ (d + 1)" "l' \<noteq> [] \<Longrightarrow> size ?q + 1 = 2 ^ (d + 1)"
    using p i by (auto simp: max_def)
  then show ?case using 2(1) [OF r [symmetric]] r i by auto
qed simp

text \<open>The tree of a list holds the list in order, and its height is the least that is enough.\<close>

lemma listToTree_ok:
  assumes "l \<noteq> []"
  shows "inorder (rowSetListToTree l) = l"
    "2 ^ (height (rowSetListToTree l) - 1) \<le> length l" "length l < 2 ^ height (rowSetListToTree l)"
proof -
  obtain v xs where l: "l = v # xs" using assms by (cases l) auto
  let ?t = "deepen 1 (Node Leaf v Leaf) xs"
  have t: "inorder ?t = l \<and> 2 ^ (height ?t - 1) \<le> size ?t \<and> size ?t < 2 ^ height ?t"
    using deepen_ok [of 1 "Node Leaf v Leaf" xs] l by simp
  then have "size ?t = length l" using length_inorder [of ?t] by simp
  then show "inorder (rowSetListToTree l) = l" "2 ^ (height (rowSetListToTree l) - 1) \<le> length l"
      "length l < 2 ^ height (rowSetListToTree l)"
    using t l by (simp_all add: rowSetListToTree_def)
qed

lemma listToTree_set [simp]: "l \<noteq> [] \<Longrightarrow> set_tree (rowSetListToTree l) = set l"
  using listToTree_ok(1) set_inorder by metis

lemma search_ok: "increasing (inorder t) \<Longrightarrow> tree_search t x \<longleftrightarrow> x \<in> set_tree t"
  by (induction t) (auto simp: sorted_wrt_append)

section \<open>Invariant and abstraction\<close>

text \<open>The rows that tests can see, and those inserted since the last change of the batch number.\<close>

definition visible :: "RowSet \<Rightarrow> int set" where
  "visible p = (\<Union>t \<in> set (rs_pForest p). set_tree t)"

definition pending :: "RowSet \<Rightarrow> int set" where
  "pending p = set (rs_pEntry p)"

definition forest_ok :: "int tree list \<Rightarrow> bool" where
  "forest_ok ts \<longleftrightarrow> (\<forall>t \<in> set ts. increasing (inorder t))"

definition rowset_inv :: "RowSet \<Rightarrow> bool" where
  "rowset_inv p \<longleftrightarrow> forest_ok (rs_pForest p) \<and> (rs_sorted p \<longrightarrow> increasing (rs_pEntry p)) \<and> length (rs_pEntry p) < 2 ^ 40"

definition room :: "RowSet \<Rightarrow> nat" where
  "room p = 2 ^ 40 - 1 - length (rs_pEntry p)"

lemma init_ok:
  "rowset_inv (sqlite3RowSetInit n)" "visible (sqlite3RowSetInit n) = {}" "pending (sqlite3RowSetInit n) = {}"
  "rs_iBatch (sqlite3RowSetInit n) = 0" "room (sqlite3RowSetInit n) = 2 ^ 40 - 1"
  by (simp_all add: sqlite3RowSetInit_def rowset_inv_def forest_ok_def visible_def pending_def room_def)

lemma alloc_ok:
  assumes "rowSetEntryAlloc ok p = (b, q)"
  shows "rs_pEntry q = rs_pEntry p" "rs_pForest q = rs_pForest p" "rs_sorted q = rs_sorted p" "rs_next q = rs_next p"
    "rs_iBatch q = rs_iBatch p" "ok \<longrightarrow> b"
  using assms by (auto simp: rowSetEntryAlloc_def split: if_splits)

lemma increasing_snoc: "increasing (xs @ [x]) \<longleftrightarrow> increasing xs \<and> (xs = [] \<or> last xs < x)"
proof -
  have "y < x" if "increasing xs" "y \<in> set xs" "last xs < x" for y
  proof -
    have "xs = butlast xs @ [last xs]" using that(2) by (metis append_butlast_last_id list.set_cases list.distinct(1))
    then have "y \<in> set (butlast xs) \<or> y = last xs" using that(2) by (metis rotate1.simps(2) set_ConsD set_rotate1)
    moreover have "\<forall>z \<in> set (butlast xs). z < last xs"
      using that(1) \<open>xs = butlast xs @ [last xs]\<close> by (metis sorted_wrt_append list.set_intros(1))
    ultimately show ?thesis using that(3) by auto
  qed
  then show ?thesis using last_in_set [of xs] by (cases "xs = []") (auto simp: sorted_wrt_append)
qed

lemma insert_ok:
  assumes "rowset_inv p" "room p > 0" "sqlite3RowSetInsert ok p x = (b, q)"
  shows "rowset_inv q" "visible q = visible p" "pending q = (if b then insert x (pending p) else pending p)"
    "rs_iBatch q = rs_iBatch p" "room p \<le> room q + 1" "ok \<longrightarrow> b" "rs_next q = rs_next p"
    "rs_pEntry q = (if b then rs_pEntry p @ [x] else rs_pEntry p)"
proof -
  obtain c r where r: "rowSetEntryAlloc ok p = (c, r)" by fastforce
  note a = alloc_ok [OF r]
  have q: "b = c" "q = (if c then r\<lparr>rs_sorted := rs_sorted r \<and> \<not> (rs_pEntry r \<noteq> [] \<and> x \<le> last (rs_pEntry r)), rs_pEntry := rs_pEntry r @ [x]\<rparr> else r)"
    using assms(3) r by (auto simp: sqlite3RowSetInsert_def split: bool.splits)
  show e: "rs_pEntry q = (if b then rs_pEntry p @ [x] else rs_pEntry p)" using q a by simp
  show "visible q = visible p" "rs_iBatch q = rs_iBatch p" "ok \<longrightarrow> b" "rs_next q = rs_next p" using q a by (simp_all add: visible_def)
  show "pending q = (if b then insert x (pending p) else pending p)" using e by (simp add: pending_def)
  show "room p \<le> room q + 1" using e by (auto simp: room_def)
  show "rowset_inv q" using assms(1,2) q a by (auto simp: rowset_inv_def room_def increasing_snoc)
qed

lemma forest_add_ok:
  assumes "forest_ok ts" "increasing l" "l \<noteq> []" "forest_add ts l = (us, r)"
  shows "forest_ok us \<and> (case r of None \<Rightarrow> (\<Union>t \<in> set us. set_tree t) = (\<Union>t \<in> set ts. set_tree t) \<union> set l
    | Some l' \<Rightarrow> increasing l' \<and> l' \<noteq> [] \<and> (\<Union>t \<in> set us. set_tree t) = {} \<and> set l' = (\<Union>t \<in> set ts. set_tree t) \<union> set l)"
  using assms
proof (induction ts l arbitrary: us r rule: forest_add.induct)
  case (1 p)
  then show ?case by auto
next
  case (2 t ts p)
  show ?case
  proof (cases "t = Leaf")
    case True
    then show ?thesis using 2(2-5) listToTree_ok(1) [OF 2(4)] by (auto simp: forest_ok_def)
  next
    case False
    obtain vs where f: "forest_add ts (rowSetEntryMerge (rowSetTreeToList t) p) = (vs, r)" "us = Leaf # vs"
      using 2(5) False by (auto split: prod.splits)
    have "forest_ok ts" "increasing (rowSetEntryMerge (rowSetTreeToList t) p)" "rowSetEntryMerge (rowSetTreeToList t) p \<noteq> []"
      using 2(2-4) merge_increasing by (auto simp: forest_ok_def)
    then show ?thesis using 2(1) [OF False _ _ _ f(1)] f(2) by (auto simp: forest_ok_def split: option.splits)
  qed
qed

lemma new_batch_ok:
  assumes "rowset_inv p"
  shows "\<exists>b q. new_batch ok p = Some (b, q) \<and> rowset_inv q \<and> (ok \<longrightarrow> b) \<and> pending q = {} \<and> rs_next q = rs_next p \<and>
    (b \<longrightarrow> visible q = visible p \<union> pending p)"
proof (cases "rs_pEntry p = []")
  case True
  then show ?thesis using assms by (intro exI [of _ True] exI [of _ p]) (simp add: new_batch_def pending_def)
next
  case False
  obtain l where l: "(if rs_sorted p then Some (rs_pEntry p) else rowSetEntrySort (rs_pEntry p)) = Some l" "increasing l" "set l = pending p"
  proof (cases "rs_sorted p")
    case True
    then show thesis using that [of "rs_pEntry p"] assms by (simp add: rowset_inv_def pending_def)
  next
    case False
    have "length (rs_pEntry p) < 2 ^ 40" using assms unfolding rowset_inv_def by blast
    then obtain ys where "rowSetEntrySort (rs_pEntry p) = Some ys" "increasing ys" "set ys = set (rs_pEntry p)" by (rule sort_ok)
    then show thesis using that [of ys] False by (simp add: pending_def)
  qed
  obtain us r where f: "forest_add (rs_pForest p) l = (us, r)" by fastforce
  have "l \<noteq> []" using l(3) False by (auto simp: pending_def)
  then have u: "forest_ok us" "r = None \<Longrightarrow> (\<Union>t \<in> set us. set_tree t) = visible p \<union> pending p"
      "\<And>l'. r = Some l' \<Longrightarrow> increasing l' \<and> l' \<noteq> [] \<and> (\<Union>t \<in> set us. set_tree t) = {} \<and> set l' = visible p \<union> pending p"
    using forest_add_ok [OF _ l(2) _ f] assms l(3) by (auto simp: rowset_inv_def visible_def)
  show ?thesis
  proof (cases r)
    case None
    let ?q = "p\<lparr>rs_pForest := us, rs_pEntry := [], rs_sorted := True\<rparr>"
    have "new_batch ok p = Some (True, ?q)" using False l(1) f None by (simp add: new_batch_def)
    moreover have "rowset_inv ?q" "pending ?q = {}" "visible ?q = visible p \<union> pending p"
      using u(1) u(2) [OF None] by (simp_all add: rowset_inv_def pending_def visible_def)
    ultimately show ?thesis by (intro exI [of _ True] exI [of _ ?q]) simp
  next
    case (Some l')
    obtain b s where s: "rowSetEntryAlloc ok p = (b, s)" by fastforce
    let ?q = "s\<lparr>rs_pForest := us @ (if b then [rowSetListToTree l'] else []), rs_pEntry := [], rs_sorted := True\<rparr>"
    have t: "inorder (rowSetListToTree l') = l'" using listToTree_ok(1) u(3) [OF Some] by blast
    have "new_batch ok p = Some (b, ?q)" using False l(1) f Some s by (simp add: new_batch_def)
    moreover have "rowset_inv ?q" "pending ?q = {}" "b \<longrightarrow> visible ?q = visible p \<union> pending p"
      using u(1) u(3) [OF Some] t by (auto simp: rowset_inv_def pending_def visible_def forest_ok_def)
    ultimately show ?thesis using alloc_ok [OF s] by (intro exI [of _ b] exI [of _ ?q]) simp
  qed
qed

lemma test_ok:
  assumes "rowset_inv p"
  shows "\<exists>b a q. sqlite3RowSetTest ok p k x = Some (b, a, q) \<and> rowset_inv q \<and> rs_iBatch q = k \<and> room p \<le> room q \<and> (ok \<longrightarrow> b) \<and>
    a = (x \<in> visible q) \<and> rs_next q = rs_next p \<and> pending q = (if k = rs_iBatch p then pending p else {}) \<and>
    (b \<longrightarrow> visible q = (if k = rs_iBatch p then visible p else visible p \<union> pending p))"
proof -
  have s: "(\<exists>t \<in> set (rs_pForest q). tree_search t x) \<longleftrightarrow> x \<in> visible q" if "rowset_inv q" for q
    using that search_ok by (auto simp: rowset_inv_def forest_ok_def visible_def)
  show ?thesis
  proof (cases "k = rs_iBatch p")
    case True
    then show ?thesis using s [OF assms] assms
      by (intro exI [of _ True] exI [of _ "x \<in> visible p"] exI [of _ p]) (simp add: sqlite3RowSetTest_def)
  next
    case False
    obtain b q where q: "new_batch ok p = Some (b, q)" "rowset_inv q" "ok \<longrightarrow> b" "pending q = {}" "rs_next q = rs_next p"
        "b \<longrightarrow> visible q = visible p \<union> pending p" using new_batch_ok [OF assms] by blast
    let ?q = "q\<lparr>rs_iBatch := k\<rparr>"
    have "rowset_inv ?q" "visible ?q = visible q" "pending ?q = {}" "room p \<le> room ?q"
      using q(2,4) by (simp_all add: rowset_inv_def visible_def pending_def room_def)
    then show ?thesis using q False s [of ?q]
      by (intro exI [of _ b] exI [of _ "x \<in> visible q"] exI [of _ ?q]) (simp add: sqlite3RowSetTest_def)
  qed
qed

section \<open>The interface for batches\<close>

datatype rowset_op = Insert int | Test int int

text \<open>
  A run of operations with the success of the allocation in each: the answers of the tests, up to
  the first failed allocation, which the first result reports.
\<close>

fun rowset_run ::
    "(bool \<Rightarrow> 'p \<Rightarrow> int \<Rightarrow> bool \<times> 'p) \<Rightarrow> (bool \<Rightarrow> 'p \<Rightarrow> int \<Rightarrow> int \<Rightarrow> (bool \<times> bool \<times> 'p) option) \<Rightarrow>
     (bool \<times> rowset_op) list \<Rightarrow> 'p \<Rightarrow> (bool \<times> bool list) option" where
  "rowset_run ins test [] p = Some (True, [])"
| "rowset_run ins test ((ok, Insert x) # ops) p =
     (case ins ok p x of (b, p) \<Rightarrow> if b then rowset_run ins test ops p else Some (False, []))"
| "rowset_run ins test ((ok, Test k x) # ops) p =
     (case test ok p k x of
        None \<Rightarrow> None
      | Some (b, a, p) \<Rightarrow> if b then map_option (\<lambda>(c, as). (c, a # as)) (rowset_run ins test ops p) else Some (False, []))"

text \<open>What the tests answer: rows inserted before the last change of the batch number.\<close>

fun batch_answers :: "rowset_op list \<Rightarrow> int \<Rightarrow> int set \<Rightarrow> int set \<Rightarrow> bool list" where
  "batch_answers [] batch seen new = []"
| "batch_answers (Insert x # ops) batch seen new = batch_answers ops batch seen (insert x new)"
| "batch_answers (Test k x # ops) batch seen new =
     (if k = batch then (x \<in> seen) # batch_answers ops batch seen new
      else (x \<in> seen \<union> new) # batch_answers ops k (seen \<union> new) {})"

locale batched_set =
  fixes inv :: "'p \<Rightarrow> bool" and seen new :: "'p \<Rightarrow> int set" and batch :: "'p \<Rightarrow> int" and space :: "'p \<Rightarrow> nat"
    and ins :: "bool \<Rightarrow> 'p \<Rightarrow> int \<Rightarrow> bool \<times> 'p"
    and test :: "bool \<Rightarrow> 'p \<Rightarrow> int \<Rightarrow> int \<Rightarrow> (bool \<times> bool \<times> 'p) option"
  assumes ins_law: "inv p \<Longrightarrow> space p > 0 \<Longrightarrow> ins ok p x = (b, q) \<Longrightarrow>
      inv q \<and> batch q = batch p \<and> space p \<le> space q + 1 \<and> (ok \<longrightarrow> b) \<and> (b \<longrightarrow> seen q = seen p \<and> new q = insert x (new p))"
    and test_law: "inv p \<Longrightarrow> \<exists>b a q. test ok p k x = Some (b, a, q) \<and> inv q \<and> batch q = k \<and> space p \<le> space q \<and> (ok \<longrightarrow> b) \<and>
      (b \<longrightarrow> a = (x \<in> seen q) \<and> new q = (if k = batch p then new p else {}) \<and> seen q = (if k = batch p then seen p else seen p \<union> new p))"
begin

lemma answers:
  assumes "inv p" "length ops \<le> space p"
  shows "\<exists>c as. rowset_run ins test ops p = Some (c, as) \<and> ((\<forall>x \<in> set ops. fst x) \<longrightarrow> c) \<and>
    (c \<longrightarrow> as = batch_answers (map snd ops) (batch p) (seen p) (new p))"
  using assms
proof (induction ops arbitrary: p)
  case (Cons o' ops)
  obtain ok op where o: "o' = (ok, op)" by (cases o')
  show ?case
  proof (cases op)
    case (Insert x)
    obtain b q where q: "ins ok p x = (b, q)" by fastforce
    then have l: "inv q" "batch q = batch p" "space p \<le> space q + 1" "ok \<longrightarrow> b" "b \<longrightarrow> seen q = seen p \<and> new q = insert x (new p)"
      using ins_law [OF Cons.prems(1) _ q] Cons.prems(2) by auto
    show ?thesis
    proof (cases b)
      case True
      have "length ops \<le> space q" using Cons.prems(2) l(3) by simp
      then obtain c as where "rowset_run ins test ops q = Some (c, as)" "(\<forall>x \<in> set ops. fst x) \<longrightarrow> c"
          "c \<longrightarrow> as = batch_answers (map snd ops) (batch q) (seen q) (new q)"
        using Cons.IH [OF l(1)] by blast
      then show ?thesis using q True o Insert l by auto
    qed (use q o Insert l in auto)
  next
    case (Test k x)
    obtain b a q where q: "test ok p k x = Some (b, a, q)" "inv q" "batch q = k" "space p \<le> space q" "ok \<longrightarrow> b"
        "b \<longrightarrow> a = (x \<in> seen q) \<and> new q = (if k = batch p then new p else {}) \<and> seen q = (if k = batch p then seen p else seen p \<union> new p)"
      using test_law [OF Cons.prems(1)] by blast
    show ?thesis
    proof (cases b)
      case True
      have "length ops \<le> space q" using Cons.prems(2) q(4) by simp
      then obtain c as where "rowset_run ins test ops q = Some (c, as)" "(\<forall>x \<in> set ops. fst x) \<longrightarrow> c"
          "c \<longrightarrow> as = batch_answers (map snd ops) (batch q) (seen q) (new q)"
        using Cons.IH [OF q(2)] by blast
      then show ?thesis using q True o Test by auto
    qed (use q o Test in auto)
  qed
next
  case Nil
  then show ?case by (intro exI [of _ True] exI [of _ "[]"]) simp
qed

end

interpretation row_numbers: batched_set rowset_inv visible pending rs_iBatch room sqlite3RowSetInsert sqlite3RowSetTest
proof (unfold_locales, goal_cases)
  case (1 p ok x b q)
  then show ?case using insert_ok [OF 1] by auto
next
  case (2 p ok k x)
  then show ?case using test_ok [OF 2, of ok k x] by (elim exE conjE) simp
qed

section \<open>Extraction\<close>

text \<open>The answers of \<open>n\<close> calls of \<^verbatim>\<open>sqlite3RowSetNext\<close>.\<close>

fun next_answers :: "nat \<Rightarrow> RowSet \<Rightarrow> int option list option" where
  "next_answers 0 p = Some []"
| "next_answers (Suc n) p = Option.bind (sqlite3RowSetNext p) (\<lambda>(a, p). map_option (\<lambda>as. a # as) (next_answers n p))"

definition delivers :: "RowSet \<Rightarrow> int list \<Rightarrow> bool" where
  "delivers p l \<longleftrightarrow> increasing l \<and>
     (if rs_next p then rs_pEntry p = l
      else set l = set (rs_pEntry p) \<and> length (rs_pEntry p) < 2 ^ 40 \<and> (rs_sorted p \<longrightarrow> increasing (rs_pEntry p)))"

lemma next_ok:
  assumes "delivers p l"
  shows "\<exists>q. sqlite3RowSetNext p = Some (case l of [] \<Rightarrow> None | v # _ \<Rightarrow> Some v, q) \<and> delivers q (tl l)"
proof -
  have "\<exists>q. (if rs_next p then Some p
        else map_option (\<lambda>l. p\<lparr>rs_pEntry := l, rs_sorted := True, rs_next := True\<rparr>)
               (if rs_sorted p then Some (rs_pEntry p) else rowSetEntrySort (rs_pEntry p))) = Some q \<and> rs_pEntry q = l \<and> rs_next q"
  proof (cases "rs_next p")
    case False
    then have d: "increasing l" "set l = set (rs_pEntry p)" "length (rs_pEntry p) < 2 ^ 40" "rs_sorted p \<longrightarrow> increasing (rs_pEntry p)"
      using assms by (simp_all add: delivers_def)
    obtain l' where "(if rs_sorted p then Some (rs_pEntry p) else rowSetEntrySort (rs_pEntry p)) = Some l'" "increasing l'" "set l' = set l"
    proof (cases "rs_sorted p")
      case True
      then show thesis using that [of "rs_pEntry p"] d(2,4) by simp
    next
      case False
      obtain ys where "rowSetEntrySort (rs_pEntry p) = Some ys" "increasing ys" "set ys = set (rs_pEntry p)" using sort_ok [OF d(3)] .
      then show thesis using that [of ys] False d(2) by simp
    qed
    then show ?thesis using False increasing_unique [of l' l] d(1) by auto
  qed (use assms in \<open>auto simp: delivers_def\<close>)
  then obtain q where q: "(if rs_next p then Some p
        else map_option (\<lambda>l. p\<lparr>rs_pEntry := l, rs_sorted := True, rs_next := True\<rparr>)
               (if rs_sorted p then Some (rs_pEntry p) else rowSetEntrySort (rs_pEntry p))) = Some q" "rs_pEntry q = l" "rs_next q" by blast
  have "increasing l" using assms by (simp add: delivers_def)
  then show ?thesis unfolding sqlite3RowSetNext_def q(1)
    using q(2,3) by (cases l) (auto simp: delivers_def sqlite3RowSetClear_def Let_def)
qed

lemma next_answers_ok:
  assumes "delivers p l"
  shows "next_answers n p = Some (take n (map Some l @ replicate n None))"
  using assms
proof (induction n arbitrary: p l)
  case (Suc n)
  obtain q where q: "sqlite3RowSetNext p = Some (case l of [] \<Rightarrow> None | v # _ \<Rightarrow> Some v, q)" "delivers q (tl l)"
    using next_ok [OF Suc.prems] by blast
  have "take n (map Some (tl l) @ replicate n None) = take n (map Some (tl l) @ replicate (Suc n) None)"
    by (simp del: replicate.simps)
  then show ?case using q Suc.IH [OF q(2)] by (cases l) simp_all
qed simp

fun insert_all :: "bool list \<Rightarrow> int list \<Rightarrow> RowSet \<Rightarrow> bool \<times> RowSet" where
  "insert_all (ok # oks) (x # xs) p =
     (case sqlite3RowSetInsert ok p x of (b, p) \<Rightarrow> if b then insert_all oks xs p else (False, p))"
| "insert_all _ _ p = (True, p)"

lemma insert_all_ok:
  assumes "rowset_inv p" "length xs \<le> room p" "length oks = length xs" "insert_all oks xs p = (True, q)"
  shows "rowset_inv q \<and> rs_pEntry q = rs_pEntry p @ xs \<and> rs_next q = rs_next p"
  using assms
proof (induction oks xs p rule: insert_all.induct)
  case (1 ok oks x xs p)
  obtain b r where r: "sqlite3RowSetInsert ok p x = (b, r)" by fastforce
  then have b: "b" "insert_all oks xs r = (True, q)" using 1(5) by (auto split: if_splits)
  have "room p > 0" using 1(3) by simp
  note i = insert_ok [OF 1(2) this r]
  have "length xs \<le> room r" using i(5) 1(3) by simp
  then show ?case using 1(1) [OF r [symmetric] b(1)] i b 1(4) by simp
qed auto

lemma delivers_inserted:
  assumes "rowset_inv p" "\<not> rs_next p"
  shows "delivers p (sorted_list_of_set (set (rs_pEntry p)))"
  using assms by (simp add: delivers_def rowset_inv_def)

end
