(* ===== verification/Sqlite_Random.thy ===== *)
theory Sqlite_Random
  imports Prelude "HOL-Library.Multiset"
begin

unbundle bit_operations_syntax

text \<open>
  \<^verbatim>\<open>random.c\<close> of the bundled SQLite (\<^verbatim>\<open>sqlite3/sqlite3.c\<close>): the pseudo-random generator, the ChaCha20 block function of
  RFC 7539 run in counter mode. Words are stored with the low byte first. The bytes that the
  operating system supplies are a parameter. Every byte of the key stream is delivered once.
\<close>

section \<open>Model\<close>

record sqlite3PrngType =
  prng_s :: "u32 list"
  prng_out :: "u8 list"
  prng_n :: nat

definition sqlite3Prng :: sqlite3PrngType where
  "sqlite3Prng = \<lparr>prng_s = replicate 16 0, prng_out = replicate 64 0, prng_n = 0\<rparr>"

definition ROTL :: "u32 \<Rightarrow> nat \<Rightarrow> u32" where
  "ROTL a b = push_bit b a OR drop_bit (32 - b) a"

definition QR :: "nat \<Rightarrow> nat \<Rightarrow> nat \<Rightarrow> nat \<Rightarrow> u32 list \<Rightarrow> u32 list" where
  "QR ia ib ic idd x =
     (let a = x ! ia; b = x ! ib; c = x ! ic; d = x ! idd;
          a = a + b; d = ROTL (d XOR a) 16;
          c = c + d; b = ROTL (b XOR c) 12;
          a = a + b; d = ROTL (d XOR a) 8;
          c = c + d; b = ROTL (b XOR c) 7
      in x[ia := a, ib := b, ic := c, idd := d])"

definition double_round :: "u32 list \<Rightarrow> u32 list" where
  "double_round x =
     QR 3 4 9 14 (QR 2 7 8 13 (QR 1 6 11 12 (QR 0 5 10 15
       (QR 3 7 11 15 (QR 2 6 10 14 (QR 1 5 9 13 (QR 0 4 8 12 x)))))))"

definition chacha_block :: "u32 list \<Rightarrow> u32 list" where
  "chacha_block inp = map2 (+) ((double_round ^^ 10) inp) inp"

text \<open>The bytes of the words, for the cast of \<^verbatim>\<open>out\<close>.\<close>

definition word_bytes :: "u32 \<Rightarrow> u8 list" where
  "word_bytes w = [ucast w, ucast (drop_bit 8 w), ucast (drop_bit 16 w), ucast (drop_bit 24 w)]"

definition block_bytes :: "u32 list \<Rightarrow> u8 list" where
  "block_bytes s = concat (map word_bytes (chacha_block s))"

text \<open>\<open>seed\<close> are the 11 words that \<^verbatim>\<open>sqlite3OsRandomness\<close> writes.\<close>

definition prng_init :: "u32 list \<Rightarrow> sqlite3PrngType \<Rightarrow> sqlite3PrngType" where
  "prng_init seed p =
     (let s = [0x61707865, 0x3320646e, 0x79622d32, 0x6b206574] @ seed @ drop 15 (prng_s p)
      in p\<lparr>prng_s := s[15 := s ! 12, 12 := 0], prng_n := 0\<rparr>)"

definition refill :: "sqlite3PrngType \<Rightarrow> sqlite3PrngType" where
  "refill p =
     (let s = (prng_s p)[12 := prng_s p ! 12 + 1]
      in p\<lparr>prng_s := s, prng_out := block_bytes s, prng_n := 64\<rparr>)"

function prng_loop :: "nat \<Rightarrow> sqlite3PrngType \<Rightarrow> u8 list \<times> sqlite3PrngType" where
  "prng_loop N p =
     (if N \<le> prng_n p
      then (take N (drop (prng_n p - N) (prng_out p)), p\<lparr>prng_n := prng_n p - N\<rparr>)
      else case prng_loop (N - prng_n p) (refill p) of (z, q) \<Rightarrow> (take (prng_n p) (prng_out p) @ z, q))"
  by pat_completeness auto
termination
  by (relation "measure (\<lambda>(N, p). 2 * N + of_bool (prng_n p = 0))") (auto simp: refill_def Let_def)

declare prng_loop.simps [simp del]

text \<open>\<open>N\<close> bytes into a buffer, or a reset for a count that is not positive or no buffer.\<close>

definition sqlite3_randomness :: "u32 list \<Rightarrow> int \<Rightarrow> bool \<Rightarrow> sqlite3PrngType \<Rightarrow> u8 list \<times> sqlite3PrngType" where
  "sqlite3_randomness seed N pBuf p =
     (if N \<le> 0 \<or> \<not> pBuf then ([], p\<lparr>prng_s := (prng_s p)[0 := 0]\<rparr>)
      else prng_loop (nat N) (if prng_s p ! 0 = 0 then prng_init seed p else p))"

text \<open>The second component of the state is \<^verbatim>\<open>sqlite3SavedPrng\<close>.\<close>

definition sqlite3PrngSaveState :: "sqlite3PrngType \<times> sqlite3PrngType \<Rightarrow> sqlite3PrngType \<times> sqlite3PrngType" where
  "sqlite3PrngSaveState st = (case st of (p, saved) \<Rightarrow> (p, p))"

definition sqlite3PrngRestoreState :: "sqlite3PrngType \<times> sqlite3PrngType \<Rightarrow> sqlite3PrngType \<times> sqlite3PrngType" where
  "sqlite3PrngRestoreState st = (case st of (p, saved) \<Rightarrow> (saved, saved))"

section \<open>The block function\<close>

text \<open>The test vector of RFC 7539, section 2.1.1.\<close>

lemma quarter_round_test_vector:
  "QR 0 1 2 3 [0x11111111, 0x01020304, 0x9b8d6f43, 0x01234567] = [0xea2a92f4, 0xcb1cf8ce, 0x4581472e, 0x5881c4bb]"
  by (simp add: QR_def ROTL_def Let_def)

lemma QR_length [simp]: "length (QR a b c d x) = length x"
  by (simp add: QR_def Let_def)

lemma double_round_length [simp]: "length (double_round x) = length x"
  by (simp add: double_round_def)

lemma chacha_length [simp]: "length (chacha_block x) = length x"
proof -
  have "length ((double_round ^^ n) x) = length x" for n by (induction n) simp_all
  then show ?thesis by (simp add: chacha_block_def)
qed

lemma block_bytes_length [simp]: "length (block_bytes s) = 4 * length s"
proof -
  have "length (concat (map word_bytes ws)) = 4 * length ws" for ws by (induction ws) (simp_all add: word_bytes_def)
  then show ?thesis by (simp add: block_bytes_def)
qed

section \<open>The stream\<close>

text \<open>\<open>stream s k\<close>: the bytes of the first \<open>k\<close> blocks after the state \<open>s\<close>.\<close>

definition block_at :: "u32 list \<Rightarrow> nat \<Rightarrow> u8 list" where
  "block_at s i = block_bytes (s[12 := s ! 12 + of_nat i])"

definition stream :: "u32 list \<Rightarrow> nat \<Rightarrow> u8 list" where
  "stream s k = concat (map (\<lambda>i. block_at s (Suc i)) [0 ..< k])"

definition prng_ok :: "sqlite3PrngType \<Rightarrow> bool" where
  "prng_ok p \<longleftrightarrow> length (prng_s p) = 16 \<and> length (prng_out p) = 64 \<and> prng_n p \<le> 64 \<and> prng_s p ! 0 \<noteq> 0"

text \<open>The bytes that wait for delivery.\<close>

definition waiting :: "sqlite3PrngType \<Rightarrow> u8 list" where
  "waiting p = take (prng_n p) (prng_out p)"

lemma refill_ok:
  assumes "prng_ok p"
  shows "prng_ok (refill p)" "waiting (refill p) = block_at (prng_s p) 1" "prng_s (refill p) = (prng_s p)[12 := prng_s p ! 12 + 1]" "prng_n (refill p) = 64"
  using assms by (simp_all add: prng_ok_def refill_def Let_def waiting_def block_at_def)

lemma block_at_next: "length s = 16 \<Longrightarrow> block_at (s[12 := s ! 12 + 1]) i = block_at s (Suc i)"
  by (simp add: block_at_def add.assoc)

lemma stream_Suc: "length s = 16 \<Longrightarrow> stream s (Suc k) = block_at s 1 @ stream (s[12 := s ! 12 + 1]) k"
  by (simp add: stream_def block_at_next upt_conv_Cons map_Suc_upt [symmetric] comp_def del: upt_Suc)

lemma stream_length: "length s = 16 \<Longrightarrow> length (stream s k) = 64 * k"
  by (induction k) (simp_all add: stream_def block_at_def)

text \<open>
  What a call does to the bytes: those delivered and those waiting are those that were waiting and \<open>k\<close> new
  blocks, and the counter has advanced by \<open>k\<close>.
\<close>

definition delivered :: "sqlite3PrngType \<Rightarrow> u8 list \<Rightarrow> nat \<Rightarrow> sqlite3PrngType \<Rightarrow> bool" where
  "delivered p z k q \<longleftrightarrow>
     prng_ok q \<and> prng_s q = (prng_s p)[12 := prng_s p ! 12 + of_nat k] \<and>
     mset z + mset (waiting q) = mset (waiting p) + mset (stream (prng_s p) k)"

lemma waiting_length: "prng_ok p \<Longrightarrow> length (waiting p) = prng_n p"
  by (simp add: waiting_def prng_ok_def)

lemma prng_loop_ok:
  assumes "prng_ok p" "prng_loop N p = (z, q)"
  shows "\<exists>k. delivered p z k q \<and> length z = N"
  using assms
proof (induction N p arbitrary: z q rule: prng_loop.induct)
  case (1 N p)
  have l: "length (prng_s p) = 16" "length (prng_out p) = 64" "prng_n p \<le> 64" using 1(2) by (simp_all add: prng_ok_def)
  show ?case
  proof (cases "N \<le> prng_n p")
    case True
    then have z: "z = take N (drop (prng_n p - N) (prng_out p))" "q = p\<lparr>prng_n := prng_n p - N\<rparr>"
      using 1(3) by (simp_all add: prng_loop.simps [of N p])
    have "waiting p = waiting q @ z" using z True by (simp add: waiting_def flip: take_add)
    then have "delivered p z 0 q" using 1(2) z l by (simp add: delivered_def stream_def prng_ok_def)
    then show ?thesis using z l True by (intro exI [of _ 0]) simp
  next
    case False
    obtain y where y: "prng_loop (N - prng_n p) (refill p) = (y, q)" "z = waiting p @ y"
      using 1(3) False by (auto simp: prng_loop.simps [of N p] waiting_def split: prod.splits)
    note r = refill_ok [OF 1(2)]
    obtain k where k: "delivered (refill p) y k q" "length y = N - prng_n p"
      using 1(1) [OF False r(1) y(1)] by blast
    have "delivered p z (Suc k) q"
      using k(1) r(2,3) l(1) y(2) stream_Suc [OF l(1), of k] by (simp add: delivered_def add.assoc)
    then show ?thesis using k(2) y(2) waiting_length [OF 1(2)] False by (intro exI [of _ "Suc k"]) simp
  qed
qed

lemma delivered_trans:
  assumes "delivered p z k q" "delivered q y m r" "length (prng_s p) = 16"
  shows "delivered p (z @ y) (k + m) r"
proof -
  have "stream s (k + m) = stream s k @ stream (s[12 := s ! 12 + of_nat k]) m" if s: "length s = 16" for s
    using s
  proof (induction k arbitrary: s)
    case (Suc k)
    then show ?case using stream_Suc [OF Suc.prems] Suc.IH [of "s[12 := s ! 12 + 1]"] by (simp add: add.assoc)
  qed (simp add: stream_def)
  then have "mset (stream (prng_s p) (k + m)) = mset (stream (prng_s p) k) + mset (stream (prng_s q) m)"
    using assms(1,3) by (simp add: delivered_def)
  moreover have "mset z + mset (waiting q) = mset (waiting p) + mset (stream (prng_s p) k)"
      "mset y + mset (waiting r) = mset (waiting q) + mset (stream (prng_s q) m)"
    using assms(1,2) by (simp_all add: delivered_def)
  ultimately have "mset (z @ y) + mset (waiting r) = mset (waiting p) + mset (stream (prng_s p) (k + m))"
    by (metis (no_types, lifting) add.assoc add.commute mset_append)
  then show ?thesis using assms by (simp add: delivered_def add.assoc)
qed

fun randomness_run :: "u32 list \<Rightarrow> int list \<Rightarrow> sqlite3PrngType \<Rightarrow> u8 list list \<times> sqlite3PrngType" where
  "randomness_run seed [] p = ([], p)"
| "randomness_run seed (N # Ns) p =
     (case sqlite3_randomness seed N True p of
        (z, p) \<Rightarrow> (case randomness_run seed Ns p of (zs, p) \<Rightarrow> (z # zs, p)))"

lemma randomness_run_ok:
  assumes "prng_ok p" "\<forall>N \<in> set Ns. N > 0" "randomness_run seed Ns p = (zs, q)"
  shows "(\<exists>k. delivered p (concat zs) k q) \<and> map (int \<circ> length) zs = Ns"
  using assms
proof (induction Ns arbitrary: p zs q)
  case Nil
  then have "delivered p (concat zs) 0 q" by (simp add: delivered_def stream_def prng_ok_def)
  then show ?case using Nil by auto
next
  case (Cons N Ns)
  obtain z r where z: "prng_loop (nat N) p = (z, r)" by fastforce
  obtain ys where y: "randomness_run seed Ns r = (ys, q)" "zs = z # ys"
    using Cons.prems z by (auto simp: sqlite3_randomness_def prng_ok_def split: prod.splits)
  obtain k where k: "delivered p z k r" "length z = nat N" using prng_loop_ok [OF Cons.prems(1) z] by blast
  then have "prng_ok r" by (simp add: delivered_def)
  then obtain m where m: "delivered r (concat ys) m q" "map (int \<circ> length) ys = Ns" using Cons.IH [OF _ _ y(1)] Cons.prems(2) by auto
  have "delivered p (concat zs) (k + m) q" using delivered_trans [OF k(1) m(1)] Cons.prems(1) y(2) by (simp add: prng_ok_def)
  then show ?case using k(2) m(2) y(2) Cons.prems(2) by auto
qed

lemma prng_init_ok:
  assumes "length (prng_s p) = 16" "length (prng_out p) = 64" "length seed = 11"
  shows "prng_ok (prng_init seed p)" "waiting (prng_init seed p) = []"
    "prng_s (prng_init seed p) = [0x61707865, 0x3320646e, 0x79622d32, 0x6b206574] @ take 8 seed @ [0] @ drop 9 seed @ [seed ! 8]"
proof -
  have "length (drop 15 (prng_s p)) = 1" using assms(1) by simp
  then obtain t where t: "drop 15 (prng_s p) = [t]" by (metis One_nat_def length_0_conv length_Suc_conv)
  obtain a0 a1 a2 a3 a4 a5 a6 a7 a8 a9 a10 where "seed = [a0, a1, a2, a3, a4, a5, a6, a7, a8, a9, a10]"
    using assms(3) by (auto simp: numeral_eq_Suc length_Suc_conv)
  then show "prng_ok (prng_init seed p)" "waiting (prng_init seed p) = []"
    "prng_s (prng_init seed p) = [0x61707865, 0x3320646e, 0x79622d32, 0x6b206574] @ take 8 seed @ [0] @ drop 9 seed @ [seed ! 8]"
    using t assms(2) by (simp_all add: prng_init_def Let_def prng_ok_def waiting_def)
qed

lemma first_call:
  assumes "N > 0" "prng_s p ! 0 = 0" "length (prng_s p) = 16" "length (prng_out p) = 64" "length seed = 11"
  shows "sqlite3_randomness seed N True p = sqlite3_randomness seed N True (prng_init seed p)"
  using assms(1,2) prng_init_ok(1) [OF assms(3-5)] by (simp add: sqlite3_randomness_def prng_ok_def)

end
