(* ===== verification/Sqlite_Utf.thy ===== *)
theory Sqlite_Utf
  imports Sqlite_Chars
begin

text \<open>
  \<^verbatim>\<open>utf.c\<close> of the bundled SQLite (\<^verbatim>\<open>sqlite3/sqlite3.c\<close>): reading and writing characters in UTF-8 and in both
  orders of UTF-16, the loops that convert a text, and counting. Reading undoes writing on every
  code point the encodings keep, texts convert to and fro without loss, and the output buffers are
  large enough for every input, well formed or not.
\<close>

section \<open>Model\<close>

definition sqlite3Utf8Trans1 :: "u8 list" where
  "sqlite3Utf8Trans1 =
     [0x00, 0x01, 0x02, 0x03, 0x04, 0x05, 0x06, 0x07,
      0x08, 0x09, 0x0a, 0x0b, 0x0c, 0x0d, 0x0e, 0x0f,
      0x10, 0x11, 0x12, 0x13, 0x14, 0x15, 0x16, 0x17,
      0x18, 0x19, 0x1a, 0x1b, 0x1c, 0x1d, 0x1e, 0x1f,
      0x00, 0x01, 0x02, 0x03, 0x04, 0x05, 0x06, 0x07,
      0x08, 0x09, 0x0a, 0x0b, 0x0c, 0x0d, 0x0e, 0x0f,
      0x00, 0x01, 0x02, 0x03, 0x04, 0x05, 0x06, 0x07,
      0x00, 0x01, 0x02, 0x03, 0x00, 0x01, 0x00, 0x00]"

definition WRITE_UTF8 :: "u32 \<Rightarrow> u8 list" where
  "WRITE_UTF8 c =
     (if c < 0x00080 then [ucast (c AND 0xFF)]
      else if c < 0x00800
      then [0xC0 + ucast (drop_bit 6 c AND 0x1F), 0x80 + ucast (c AND 0x3F)]
      else if c < 0x10000
      then [0xE0 + ucast (drop_bit 12 c AND 0x0F), 0x80 + ucast (drop_bit 6 c AND 0x3F),
            0x80 + ucast (c AND 0x3F)]
      else [0xF0 + ucast (drop_bit 18 c AND 0x07), 0x80 + ucast (drop_bit 12 c AND 0x3F),
            0x80 + ucast (drop_bit 6 c AND 0x3F), 0x80 + ucast (c AND 0x3F)])"

definition WRITE_UTF16LE :: "u32 \<Rightarrow> u8 list" where
  "WRITE_UTF16LE c =
     (if c \<le> 0xFFFF then [ucast (c AND 0x00FF), ucast (drop_bit 8 c AND 0x00FF)]
      else [ucast ((drop_bit 10 c AND 0x003F) + (drop_bit 10 (c - 0x10000) AND 0x00C0)),
            ucast (0x00D8 + (drop_bit 18 (c - 0x10000) AND 0x03)),
            ucast (c AND 0x00FF),
            ucast (0x00DC + (drop_bit 8 c AND 0x03))])"

definition WRITE_UTF16BE :: "u32 \<Rightarrow> u8 list" where
  "WRITE_UTF16BE c =
     (if c \<le> 0xFFFF then [ucast (drop_bit 8 c AND 0x00FF), ucast (c AND 0x00FF)]
      else [ucast (0x00D8 + (drop_bit 18 (c - 0x10000) AND 0x03)),
            ucast ((drop_bit 10 c AND 0x003F) + (drop_bit 10 (c - 0x10000) AND 0x00C0)),
            ucast (0x00DC + (drop_bit 8 c AND 0x03)),
            ucast (c AND 0x00FF)])"

definition sqlite3AppendOneUtf8Character :: "u8 list \<Rightarrow> u32 \<Rightarrow> nat \<times> u8 list" where
  "sqlite3AppendOneUtf8Character zOut v =
     (if v < 0x00080 then (1, zOut[0 := ucast (v AND 0xff)])
      else if v < 0x00800
      then (2, zOut[0 := 0xc0 + ucast (drop_bit 6 v AND 0x1f), 1 := 0x80 + ucast (v AND 0x3f)])
      else if v < 0x10000
      then (3, zOut[0 := 0xe0 + ucast (drop_bit 12 v AND 0x0f), 1 := 0x80 + ucast (drop_bit 6 v AND 0x3f),
                    2 := 0x80 + ucast (v AND 0x3f)])
      else (4, zOut[0 := 0xf0 + ucast (drop_bit 18 v AND 0x07), 1 := 0x80 + ucast (drop_bit 12 v AND 0x3f),
                    2 := 0x80 + ucast (drop_bit 6 v AND 0x3f), 3 := 0x80 + ucast (v AND 0x3f)]))"

text \<open>
  Reading one character from the bytes up to \<^verbatim>\<open>zTerm\<close>: its value and the bytes that follow it, or \<open>None\<close>
  where the code would read outside the bytes it was given.
\<close>

definition continuation :: "u8 \<Rightarrow> bool" where
  "continuation b \<longleftrightarrow> b AND 0xc0 = 0x80"

definition utf8_shift :: "u32 \<Rightarrow> u8 \<Rightarrow> u32" where
  "utf8_shift c b = push_bit 6 c + (0x3f AND ucast b)"

definition utf8_fix :: "u32 \<Rightarrow> u32" where
  "utf8_fix c =
     (if c < 0x80 \<or> c AND 0xFFFFF800 = 0xD800 \<or> c AND 0xFFFFFFFE = 0xFFFE then 0xFFFD else c)"

fun utf8_tail :: "u32 \<Rightarrow> u8 list \<Rightarrow> u32 \<times> u8 list" where
  "utf8_tail c [] = (c, [])"
| "utf8_tail c (b # z) = (if continuation b then utf8_tail (utf8_shift c b) z else (c, b # z))"

definition READ_UTF8 :: "u8 list \<Rightarrow> (u32 \<times> u8 list) option" where
  "READ_UTF8 z =
     (case z of
        [] \<Rightarrow> None
      | b # z \<Rightarrow>
          if b \<ge> 0xc0
          then (case utf8_tail (ucast (sqlite3Utf8Trans1 ! unat (b - 0xc0))) z of (c, z) \<Rightarrow> Some (utf8_fix c, z))
          else Some (ucast b, z))"

text \<open>The variant for text that ends with a zero byte, which is part of the list.\<close>

fun utf8_tail0 :: "u32 \<Rightarrow> u8 list \<Rightarrow> (u32 \<times> u8 list) option" where
  "utf8_tail0 c [] = None"
| "utf8_tail0 c (b # z) = (if continuation b then utf8_tail0 (utf8_shift c b) z else Some (c, b # z))"

definition sqlite3Utf8Read :: "u8 list \<Rightarrow> (u32 \<times> u8 list) option" where
  "sqlite3Utf8Read z =
     (case z of
        [] \<Rightarrow> None
      | b # z \<Rightarrow>
          if b \<ge> 0xc0
          then map_option (\<lambda>(c, z). (utf8_fix c, z)) (utf8_tail0 (ucast (sqlite3Utf8Trans1 ! unat (b - 0xc0))) z)
          else Some (ucast b, z))"

fun utf8_limited :: "u8 list \<Rightarrow> nat \<Rightarrow> nat \<Rightarrow> u32 \<Rightarrow> nat \<times> u32" where
  "utf8_limited z i 0 c = (i, c)"
| "utf8_limited z i (Suc k) c =
     (if continuation (z ! i) then utf8_limited z (i + 1) k (utf8_shift c (z ! i)) else (i, c))"

definition sqlite3Utf8ReadLimited :: "u8 list \<Rightarrow> nat \<Rightarrow> nat \<times> u32" where
  "sqlite3Utf8ReadLimited z n =
     (let c = z ! 0
      in if c \<ge> 0xc0
         then utf8_limited z 1 (min n 4 - 1) (ucast (sqlite3Utf8Trans1 ! unat (c - 0xc0)))
         else (1, ucast c))"

definition SQLITE_SKIP_UTF8 :: "u8 list \<Rightarrow> u8 list option" where
  "SQLITE_SKIP_UTF8 z =
     (case z of
        [] \<Rightarrow> None
      | b # z \<Rightarrow>
          if b \<ge> 0xc0
          then (case dropWhile continuation z of [] \<Rightarrow> None | y # ys \<Rightarrow> Some (y # ys))
          else Some z)"

text \<open>
  \<^verbatim>\<open>nByte\<close> is \<open>None\<close> for a negative value. The first argument of the loop bounds its rounds.
\<close>

primrec charlen_loop :: "nat \<Rightarrow> u8 list \<Rightarrow> nat option \<Rightarrow> nat \<Rightarrow> nat option" where
  "charlen_loop 0 z lim r = None"
| "charlen_loop (Suc f) z lim r =
     (case z of
        [] \<Rightarrow> None
      | b # _ \<Rightarrow>
          if b \<noteq> 0 \<and> lim \<noteq> Some 0
          then (case SQLITE_SKIP_UTF8 z of
                  None \<Rightarrow> None
                | Some z' \<Rightarrow>
                    charlen_loop f z' (map_option (\<lambda>l. l - (length z - length z')) lim) (r + 1))
          else Some r)"

definition sqlite3Utf8CharLen :: "u8 list \<Rightarrow> nat option \<Rightarrow> nat option" where
  "sqlite3Utf8CharLen zIn nByte = charlen_loop (length zIn + 1) zIn nByte 0"

text \<open>
  The native encoding is little-endian: \<open>i\<close> is the index of the high byte of the next code unit.
\<close>

primrec bytelen_loop :: "nat \<Rightarrow> u8 list \<Rightarrow> nat \<Rightarrow> nat \<Rightarrow> nat" where
  "bytelen_loop 0 z nByte i = i"
| "bytelen_loop (Suc k) z nByte i =
     (if i < nByte
      then let c = z ! i; i = i + 2
           in bytelen_loop k z nByte
                (if c \<ge> 0xd8 \<and> c < 0xdc \<and> i < nByte \<and> z ! i \<ge> 0xdc \<and> z ! i < 0xe0 then i + 2 else i)
      else i)"

definition sqlite3Utf16ByteLen :: "u8 list \<Rightarrow> nat \<Rightarrow> nat \<Rightarrow> nat" where
  "sqlite3Utf16ByteLen zIn nByte nChar = bytelen_loop nChar zIn nByte 1 - 1"

definition utf16_pair :: "u32 \<Rightarrow> u32 \<Rightarrow> u32" where
  "utf16_pair c c2 = (c2 AND 0x03FF) + push_bit 10 (c AND 0x003F) + push_bit 10 ((c AND 0x03C0) + 0x0040)"

definition READ_UTF16LE :: "u8 list \<Rightarrow> (u32 \<times> u8 list) option" where
  "READ_UTF16LE z =
     (case z of
        a # b # z \<Rightarrow>
          let c = ucast a + push_bit 8 (ucast b)
          in if c \<ge> 0xd800 \<and> c < 0xe000 \<and> z \<noteq> []
             then (case z of
                     a # b # z \<Rightarrow> Some (utf16_pair c (ucast a + push_bit 8 (ucast b)), z)
                   | _ \<Rightarrow> None)
             else Some (c, z)
      | _ \<Rightarrow> None)"

definition READ_UTF16BE :: "u8 list \<Rightarrow> (u32 \<times> u8 list) option" where
  "READ_UTF16BE z =
     (case z of
        a # b # z \<Rightarrow>
          let c = push_bit 8 (ucast a) + ucast b
          in if c \<ge> 0xd800 \<and> c < 0xe000 \<and> z \<noteq> []
             then (case z of
                     a # b # z \<Rightarrow> Some (utf16_pair c (push_bit 8 (ucast a) + ucast b), z)
                   | _ \<Rightarrow> None)
             else Some (c, z)
      | _ \<Rightarrow> None)"

text \<open>A loop of reads and writes until the input is used up; the first argument bounds its rounds.\<close>

primrec recode ::
    "nat \<Rightarrow> (u8 list \<Rightarrow> (u32 \<times> u8 list) option) \<Rightarrow> (u32 \<Rightarrow> u8 list) \<Rightarrow> u8 list \<Rightarrow> u8 list option" where
  "recode 0 rd wr z = (if z = [] then Some [] else None)"
| "recode (Suc f) rd wr z =
     (if z = [] then Some []
      else case rd z of
             None \<Rightarrow> None
           | Some (c, z') \<Rightarrow> map_option (\<lambda>out. wr c @ out) (recode f rd wr z'))"

fun swap_pairs :: "u8 list \<Rightarrow> u8 list" where
  "swap_pairs (a # b # z) = b # a # swap_pairs z"
| "swap_pairs z = z"

section \<open>Arithmetic of the encodings\<close>

lemma and_masks32:
  "c AND 0x03 = take_bit 2 c" "c AND 0x07 = take_bit 3 c" "c AND 0x0F = take_bit 4 c" "c AND 0x1F = take_bit 5 c"
  "c AND 0x3F = take_bit 6 c" "c AND 0xFF = take_bit 8 c" "c AND 0x03FF = take_bit 10 c" for c :: u32
  by (simp_all add: take_bit_eq_mask mask_eq_exp_minus_1)

lemma unat_take_bit_mod: "unat (take_bit n (w :: 'a::len word)) = unat w mod 2 ^ n"
  unfolding unsigned_take_bit_eq by (rule take_bit_eq_mod)

lemma unat_push_bit_mult: "unat (push_bit n (w :: 'a::len word)) = unat w * 2 ^ n mod 2 ^ LENGTH('a)"
  unfolding unsigned_push_bit_eq by (simp only: push_bit_eq_mult take_bit_eq_mod)

lemma and_slots:
  "unat (c AND 0xC0) = (unat c div 64) mod 4 * 64" "unat (c AND 0x03C0) = (unat c div 64) mod 16 * 64" for c :: u32
proof -
  have "c AND 0xC0 = push_bit 6 (take_bit 2 (drop_bit 6 c))" "c AND 0x03C0 = push_bit 6 (take_bit 4 (drop_bit 6 c))"
  proof -
    have m: "(0xC0 :: u32) = push_bit 6 (mask 2)" "(0x03C0 :: u32) = push_bit 6 (mask 4)"
      by (simp_all add: mask_eq_exp_minus_1 push_bit_eq_mult)
    show "c AND 0xC0 = push_bit 6 (take_bit 2 (drop_bit 6 c))" "c AND 0x03C0 = push_bit 6 (take_bit 4 (drop_bit 6 c))"
      unfolding m by (auto intro!: bit_eqI simp: bit_simps)
  qed
  then show "unat (c AND 0xC0) = (unat c div 64) mod 4 * 64" "unat (c AND 0x03C0) = (unat c div 64) mod 16 * 64"
    by (simp_all add: unat_push_bit_mult unat_take_bit_mod unat_drop_bit_div)
qed

lemma unat_ucast_u8_u32 [simp]: "unat (ucast (b :: u8) :: u32) = unat b"
  using u8_lt [of b] by (simp add: unsigned_ucast_eq take_bit_eq_mod)

lemma unat_ucast_u32_u8: "unat (ucast (c :: u32) :: u8) = unat c mod 256"
  by (simp add: unsigned_ucast_eq take_bit_eq_mod)

lemmas unat_code = unat_word_ariths and_masks32 and_slots unat_take_bit_mod unat_push_bit_mult
  unat_drop_bit_div unat_ucast_u32_u8 word_less_nat_alt word_le_nat_alt

lemma trans1_table:
  "map unat sqlite3Utf8Trans1 =
     map (\<lambda>k. if k < 32 then k else if k < 48 then k - 32 else if k < 56 then k - 48
              else if k < 60 then k - 56 else if k = 61 then 1 else 0) [0..<64]"
  by code_simp

lemma trans1_nth:
  assumes "k < 56"
  shows "unat (sqlite3Utf8Trans1 ! k) = (if k < 32 then k else if k < 48 then k - 32 else k - 48)"
proof -
  have "length sqlite3Utf8Trans1 = 64" by (simp add: sqlite3Utf8Trans1_def)
  then have "unat (sqlite3Utf8Trans1 ! k) = map unat sqlite3Utf8Trans1 ! k" using assms by simp
  then show ?thesis using assms by (simp add: trans1_table)
qed

lemma continuation_iff: "continuation b \<longleftrightarrow> 0x80 \<le> unat b \<and> unat b < 0xC0"
proof -
  have "list_all (\<lambda>n. (n AND 0xC0 = 0x80) = (0x80 \<le> n \<and> n < 0xC0)) [0..<256]"
    by (simp add: upt_256)
  then have "(unat b AND 0xC0 = 0x80) = (0x80 \<le> unat b \<and> unat b < 0xC0)"
    using u8_lt [of b] by (simp add: list_all_iff)
  moreover have "unat (b AND 0xC0) = unat b AND 0xC0" by (simp add: unsigned_and_eq)
  ultimately show ?thesis by (simp add: continuation_def word_unat_eq_iff)
qed

lemma unat_utf8_shift:
  assumes "unat c < 2 ^ 26"
  shows "unat (utf8_shift c b) = unat c * 64 + unat b mod 64"
proof -
  have "unat b mod 64 < 64" by simp
  then show ?thesis using assms by (simp add: utf8_shift_def unat_code and.commute [of "0x3F"])
qed

lemma continuation_byte:
  "unat (0x80 + ucast (x AND 0x3F) :: u8) = 0x80 + unat x mod 64" "continuation (0x80 + ucast (x AND 0x3F))" for x :: u32
proof -
  show *: "unat (0x80 + ucast (x AND 0x3F) :: u8) = 0x80 + unat x mod 64"
    using mod_less_divisor [of 64 "unat x"] by (simp add: unat_code del: mod_less_divisor)
  show "continuation (0x80 + ucast (x AND 0x3F))"
    using mod_less_divisor [of 64 "unat x"] unfolding continuation_iff * by linarith
qed

lemma lead_byte:
  fixes x :: u32
  assumes "unat x < 32"
  shows "unat (0xC0 + ucast (x AND 0x1F) :: u8) = 0xC0 + unat x"
    "unat x < 16 \<Longrightarrow> unat (0xE0 + ucast (x AND 0x0F) :: u8) = 0xE0 + unat x"
    "unat x < 8 \<Longrightarrow> unat (0xF0 + ucast (x AND 0x07) :: u8) = 0xF0 + unat x"
  using assms by (simp_all add: unat_code)

lemma lead_value:
  assumes "unat (b :: u8) = 0xC0 + k" "k < 56"
  shows "b \<ge> 0xC0" "unat (sqlite3Utf8Trans1 ! unat (b - 0xC0)) = (if k < 32 then k else if k < 48 then k - 32 else k - 48)"
proof -
  show "b \<ge> 0xC0" using assms by (simp add: word_le_nat_alt)
  then have "unat (b - 0xC0) = k" using assms by (simp add: unat_sub)
  then show "unat (sqlite3Utf8Trans1 ! unat (b - 0xC0)) = (if k < 32 then k else if k < 48 then k - 32 else k - 48)"
    using assms by (simp add: trans1_nth)
qed

lemma low_bits [simp]: "(128 + n mod 64) mod 64 = n mod (64 :: nat)"
  using mod_mult_self2 [of n 64 2] mod_add_right_eq [of 128 n 64] by (simp add: add.commute)

lemma digits_3: "4096 * (n div 4096) + n div 64 mod 64 * 64 + n mod 64 = (n :: nat)"
proof -
  have "n div 4096 = n div 64 div 64" using div_mult2_eq [of n 64 64] by simp
  then show ?thesis using div_mult_mod_eq [of "n div 64" 64] div_mult_mod_eq [of n 64] by linarith
qed

lemma write_utf8_parts:
  assumes "0x80 \<le> c" "c < 0x200000"
  shows "\<exists>b cs. WRITE_UTF8 c = b # cs \<and> b \<ge> 0xC0 \<and> (\<forall>x \<in> set cs. continuation x) \<and>
    foldl utf8_shift (ucast (sqlite3Utf8Trans1 ! unat (b - 0xC0))) cs = c"
proof -
  define n where "n = unat c"
  have n: "128 \<le> n" "n < 2097152" using assms by (simp_all add: n_def word_le_nat_alt word_less_nat_alt)
  have d: "unat (drop_bit 6 c) = n div 64" "unat (drop_bit 12 c) = n div 4096" "unat (drop_bit 18 c) = n div 262144"
    by (simp_all add: n_def unat_drop_bit_div)
  consider (two) "c < 0x800" | (three) "0x800 \<le> c" "c < 0x10000" | (four) "0x10000 \<le> c" by force
  then show ?thesis
  proof cases
    case two
    then have "n < 2048" by (simp add: n_def word_less_nat_alt)
    then have lt: "unat (drop_bit 6 c) < 32" using d by simp
    note b = lead_byte(1) [OF lt]
    note v = lead_value [OF b]
    have "foldl utf8_shift (ucast (sqlite3Utf8Trans1 ! unat ((0xC0 + ucast (drop_bit 6 c AND 0x1F) :: u8) - 0xC0)))
        [0x80 + ucast (c AND 0x3F)] = c"
      unfolding word_unat_eq_iff using lt v(2) d(1)
      by (simp add: unat_utf8_shift continuation_byte n_def)
    moreover have "\<not> c < 0x80" using assms(1) by simp
    ultimately show ?thesis using two lt v(1) by (simp add: WRITE_UTF8_def continuation_byte)
  next
    case three
    then have "n < 65536" by (simp add: n_def word_less_nat_alt)
    then have lt: "unat (drop_bit 12 c) < 16" using d by simp
    then have b: "unat (0xE0 + ucast (drop_bit 12 c AND 0x0F) :: u8) = 0xC0 + (32 + n div 4096)"
      using lead_byte(2) [of "drop_bit 12 c"] d by simp
    have "32 + n div 4096 < 56" using lt d by simp
    note v = lead_value [OF b this]
    have "foldl utf8_shift (ucast (sqlite3Utf8Trans1 ! unat ((0xE0 + ucast (drop_bit 12 c AND 0x0F) :: u8) - 0xC0)))
        [0x80 + ucast (drop_bit 6 c AND 0x3F), 0x80 + ucast (c AND 0x3F)] = c"
      unfolding word_unat_eq_iff using lt v(2) d
      by (simp add: unat_utf8_shift continuation_byte digits_3 n_def [symmetric])
    moreover have "\<not> c < 0x80" "\<not> c < 0x800" using assms(1) three(1) by simp_all
    ultimately show ?thesis using three v(1) by (simp add: WRITE_UTF8_def continuation_byte)
  next
    case four
    have lt: "unat (drop_bit 18 c) < 8" using d n by simp
    then have b: "unat (0xF0 + ucast (drop_bit 18 c AND 0x07) :: u8) = 0xC0 + (48 + n div 262144)"
      using lead_byte(3) [of "drop_bit 18 c"] d by simp
    have "48 + n div 262144 < 56" using lt d by simp
    note v = lead_value [OF b this]
    define T :: u32 where "T = ucast (sqlite3Utf8Trans1 ! unat ((0xF0 + ucast (drop_bit 18 c AND 0x07) :: u8) - 0xC0))"
    have T: "unat T = n div 262144" unfolding T_def unat_ucast_u8_u32 v(2) using lt d by simp
    have "unat (utf8_shift T (0x80 + ucast (drop_bit 12 c AND 0x3F))) = n div 262144 * 64 + n div 4096 mod 64"
      using T lt d by (simp add: unat_utf8_shift continuation_byte)
    also have "\<dots> = n div 4096" using div_mult2_eq [of n 4096 64] div_mult_mod_eq [of "n div 4096" 64] by simp
    finally have "unat (utf8_shift (utf8_shift T (0x80 + ucast (drop_bit 12 c AND 0x3F))) (0x80 + ucast (drop_bit 6 c AND 0x3F)))
        = n div 4096 * 64 + n div 64 mod 64"
      using n d by (simp add: unat_utf8_shift continuation_byte)
    also have "\<dots> = n div 64" using div_mult2_eq [of n 64 64] div_mult_mod_eq [of "n div 64" 64] by simp
    finally have "foldl utf8_shift T
        [0x80 + ucast (drop_bit 12 c AND 0x3F), 0x80 + ucast (drop_bit 6 c AND 0x3F), 0x80 + ucast (c AND 0x3F)] = c"
      unfolding word_unat_eq_iff using n by (simp add: unat_utf8_shift continuation_byte n_def [symmetric])
    moreover have "\<not> c < 0x80" "\<not> c < 0x800" "\<not> c < 0x10000"
      using assms(1) four by (simp_all add: word_less_nat_alt word_le_nat_alt)
    ultimately show ?thesis using v(1) unfolding T_def by (simp add: WRITE_UTF8_def continuation_byte)
  qed
qed

lemma write_utf8_ascii: "c < 0x80 \<Longrightarrow> WRITE_UTF8 c = [ucast c]"
  by (simp add: WRITE_UTF8_def word_unat_eq_iff unat_code)

section \<open>UTF-8\<close>

text \<open>\<open>boundary z\<close>: the bytes \<open>z\<close> do not continue the character before them.\<close>

definition boundary :: "u8 list \<Rightarrow> bool" where
  "boundary z \<longleftrightarrow> (case z of [] \<Rightarrow> True | b # _ \<Rightarrow> \<not> continuation b)"

lemma boundary_simps [simp]: "boundary []" "boundary (b # z) \<longleftrightarrow> \<not> continuation b"
  by (simp_all add: boundary_def)

lemma utf8_tail_append:
  "(\<forall>x \<in> set cs. continuation x) \<Longrightarrow> boundary z \<Longrightarrow> utf8_tail c (cs @ z) = (foldl utf8_shift c cs, z)"
proof (induction cs arbitrary: c)
  case Nil
  then show ?case by (cases z) simp_all
qed simp

lemma utf8_tail0_eq: "\<exists>b \<in> set z. \<not> continuation b \<Longrightarrow> utf8_tail0 c z = Some (utf8_tail c z)"
  by (induction z arbitrary: c) auto

lemma not_continuation_0 [simp]: "\<not> continuation 0"
  by (simp add: continuation_iff)

lemma utf8Read_eq: "0 \<in> set z \<Longrightarrow> sqlite3Utf8Read z = READ_UTF8 z"
proof (cases z)
  case (Cons b y)
  assume "0 \<in> set z"
  then have "b \<ge> 0xC0 \<Longrightarrow> \<exists>b \<in> set y. \<not> continuation b" using Cons not_continuation_0 by force
  then show ?thesis using Cons by (auto simp: sqlite3Utf8Read_def READ_UTF8_def utf8_tail0_eq split: prod.splits)
qed simp

text \<open>
  What reading makes of a code point: surrogates and the two noncharacters at the end of the
  basic plane become the replacement character.
\<close>

definition utf8_read_value :: "u32 \<Rightarrow> u32" where
  "utf8_read_value c =
     (if 0xD800 \<le> c \<and> c \<le> 0xDFFF \<or> c = 0xFFFE \<or> c = 0xFFFF then 0xFFFD else c)"

lemma utf8_fix_eq:
  assumes "0x80 \<le> c"
  shows "utf8_fix c = utf8_read_value c"
proof -
  have m: "(0xFFFFF800 :: u32) = NOT (mask 11)" "(0xFFFFFFFE :: u32) = NOT (mask 1)"
    by (simp_all add: mask_eq_exp_minus_1 not_eq_complement)
  have a: "unat (c AND NOT (mask k)) = unat c div 2 ^ k * 2 ^ k" if "k < 32" for k
  proof -
    have "c AND NOT (mask k) = push_bit k (drop_bit k c)" using that by (auto intro!: bit_eqI simp: bit_simps)
    moreover have "unat c div 2 ^ k * 2 ^ k < 4294967296" using u32_lt [of c] div_times_less_eq_dividend [of "unat c" "2 ^ k"] by linarith
    ultimately show ?thesis by (simp add: unat_push_bit_mult unat_drop_bit_div)
  qed
  have "unat (c AND 0xFFFFF800) = unat c div 2048 * 2048" "unat (c AND 0xFFFFFFFE) = unat c div 2 * 2"
    unfolding m by (subst a; simp)+
  then have "c AND 0xFFFFF800 = 0xD800 \<longleftrightarrow> unat c div 2048 * 2048 = 55296" "c AND 0xFFFFFFFE = 0xFFFE \<longleftrightarrow> unat c div 2 * 2 = 65534"
    unfolding word_unat_eq_iff by simp_all
  moreover have "unat c div 2048 * 2048 = 55296 \<longleftrightarrow> 55296 \<le> unat c \<and> unat c \<le> 57343"
    using less_eq_div_iff_mult_less_eq [of 2048 27 "unat c"] div_less_iff_less_mult [of 2048 "unat c" 28] by auto
  moreover have "unat c div 2 * 2 = 65534 \<longleftrightarrow> unat c = 65534 \<or> unat c = 65535" by presburger
  ultimately show ?thesis using assms
    by (simp add: utf8_fix_def utf8_read_value_def word_le_nat_alt word_less_nat_alt word_unat_eq_iff)
qed

lemma read_write_utf8:
  assumes "c < 0x200000" "boundary z"
  shows "READ_UTF8 (WRITE_UTF8 c @ z) = Some (utf8_read_value c, z)"
proof (cases "c < 0x80")
  case True
  then have "\<not> ucast c \<ge> (0xC0 :: u8)" "ucast (ucast c :: u8) = c" "utf8_read_value c = c"
    by (simp_all add: word_unat_eq_iff unat_code utf8_read_value_def)
  then show ?thesis using write_utf8_ascii [OF True] by (simp add: READ_UTF8_def)
next
  case False
  then have "0x80 \<le> c" by simp
  then obtain b cs where w: "WRITE_UTF8 c = b # cs" "b \<ge> 0xC0" "\<forall>x \<in> set cs. continuation x"
      "foldl utf8_shift (ucast (sqlite3Utf8Trans1 ! unat (b - 0xC0))) cs = c"
    using write_utf8_parts [of c] assms(1) by blast
  then show ?thesis using assms(2) \<open>0x80 \<le> c\<close>
    by (simp add: READ_UTF8_def utf8_tail_append utf8_fix_eq)
qed

section \<open>UTF-16\<close>

text \<open>The two code units of a character outside the basic plane.\<close>

lemma surrogate_bytes:
  fixes c :: u32
  assumes m: "m < 0x100000" "unat c = m + 0x10000"
  shows "unat (ucast ((drop_bit 10 c AND 0x3F) + (drop_bit 10 (c - 0x10000) AND 0xC0)) :: u8) = m div 1024 mod 256"
    "unat (ucast (0xD8 + (drop_bit 18 (c - 0x10000) AND 0x03)) :: u8) = 0xD8 + m div 1024 div 256"
    "unat (ucast (c AND 0xFF) :: u8) = m mod 1024 mod 256"
    "unat (ucast (0xDC + (drop_bit 8 c AND 0x03)) :: u8) = 0xDC + m mod 1024 div 256"
proof -
  have c: "unat (c - 0x10000) = m" using m(2) by (simp add: unat_sub word_le_nat_alt)
  have n: "unat c div 1024 mod 64 = m div 1024 mod 64" "unat c mod 256 = m mod 256" "unat c div 256 mod 4 = m div 256 mod 4"
    using div_mult_self1 [of 1024 m 64] div_mult_self1 [of 256 m 256] mod_mult_self1 [of m 256 256]
      mod_mult_self1 [of "m div 1024" 1 64] mod_mult_self1 [of "m div 256" 64 4] m(2)
    by (simp_all add: add.commute)
  have x: "m div 1024 mod 256 = 64 * (m div 1024 div 64 mod 4) + m div 1024 mod 64" using mod_mult2_eq [of "m div 1024" 64 4] by simp
  have xl: "m div 1024 mod 256 < 256" "m mod 256 < 256" "m div 256 mod 4 < 4" by simp_all
  show "unat (ucast ((drop_bit 10 c AND 0x3F) + (drop_bit 10 (c - 0x10000) AND 0xC0)) :: u8) = m div 1024 mod 256"
    using xl(1) unfolding x by (simp add: unat_code c n(1))
  have "m div 262144 < 4" "m div 1024 div 256 = m div 262144" using m(1) div_mult2_eq [of m 1024 256] by simp_all
  then show "unat (ucast (0xD8 + (drop_bit 18 (c - 0x10000) AND 0x03)) :: u8) = 0xD8 + m div 1024 div 256"
    by (simp add: unat_code c)
  have y: "m mod 1024 = 256 * (m div 256 mod 4) + m mod 256" using mod_mult2_eq [of m 256 4] by simp
  show "unat (ucast (c AND 0xFF) :: u8) = m mod 1024 mod 256" unfolding y by (simp add: unat_code n(2))
  show "unat (ucast (0xDC + (drop_bit 8 c AND 0x03)) :: u8) = 0xDC + m mod 1024 div 256"
    unfolding y using xl by (simp add: unat_code n(3))
qed

lemma unit_value: "unat (ucast a + push_bit 8 (ucast b) :: u32) = unat a + 256 * unat b" for a b :: u8
  using u8_lt [of a] u8_lt [of b] by (simp add: unat_code)

lemma utf16_pair_value:
  assumes "unat h = 0xD800 + x" "unat l = 0xDC00 + y" "x < 1024" "y < 1024"
  shows "unat (utf16_pair h l) = y + 1024 * x + 0x10000"
proof -
  have "unat l mod 1024 = y" "unat h mod 64 = x mod 64" "unat h div 64 = x div 64 + 864"
    using assms mod_mult_self1 [of y 55 1024] mod_mult_self1 [of x 864 64] div_mult_self1 [of 64 x 864] by (simp_all add: add.commute)
  moreover have "(x div 64 + 864) mod 16 = x div 64" using assms(3) mod_mult_self1 [of "x div 64" 54 16] by simp
  moreover have x: "x mod 64 + x div 64 * 64 = x" by simp
  moreover have "x mod 64 < 64" "x div 64 < 16" using assms(3) by simp_all
  moreover have "x mod 64 * 1024 mod 4294967296 = x mod 64 * 1024" by (rule mod_less) (use \<open>x mod 64 < 64\<close> in linarith)
  moreover have "(y + x mod 64 * 1024) mod 4294967296 = y + x mod 64 * 1024"
    by (rule mod_less) (use \<open>x mod 64 < 64\<close> assms(4) in linarith)
  ultimately have "unat (utf16_pair h l) = y + x mod 64 * 1024 + (65536 * (x div 64) + 65536)"
    using assms(4) \<open>x mod 64 < 64\<close> by (simp add: utf16_pair_def unat_code del: mod_less_divisor)
  then show ?thesis using x by linarith
qed

text \<open>Scalar values: code points that are not surrogates.\<close>

definition scalar :: "u32 \<Rightarrow> bool" where
  "scalar c \<longleftrightarrow> c < 0xD800 \<or> 0xE000 \<le> c \<and> c < 0x110000"

lemma basic_unit:
  assumes "c \<le> 0xFFFF"
  shows "ucast (ucast (c AND 0xFF) :: u8) + push_bit 8 (ucast (ucast (drop_bit 8 c AND 0xFF) :: u8)) = (c :: u32)"
proof -
  have "unat c < 65536" using assms by (simp add: word_le_nat_alt)
  then have "unat c div 256 < 256" by simp
  then have "unat (ucast (ucast (c AND 0xFF) :: u8) + push_bit 8 (ucast (ucast (drop_bit 8 c AND 0xFF) :: u8)) :: u32) = unat c"
    unfolding unit_value by (simp add: unat_code)
  then show ?thesis by (simp add: word_unat_eq_iff)
qed

lemma unit_digits: "x mod 256 + 256 * (0xD8 + x div 256) = 0xD800 + x" "x mod 256 + 256 * (0xDC + x div 256) = 0xDC00 + x" for x :: nat
  using div_mult_mod_eq [of x 256] by simp_all

lemma surrogate_units:
  assumes "0x10000 \<le> c" "c < 0x110000"
  obtains b0 b1 b2 b3 where
    "b0 = ucast ((drop_bit 10 c AND 0x3F) + (drop_bit 10 (c - 0x10000) AND 0xC0))"
    "b1 = ucast (0xD8 + (drop_bit 18 (c - 0x10000) AND 0x03))"
    "b2 = ucast (c AND 0xFF)" "b3 = ucast (0xDC + (drop_bit 8 c AND 0x03))"
    "(0xD800 :: u32) \<le> ucast b0 + push_bit 8 (ucast b1)" "(ucast b0 + push_bit 8 (ucast b1) :: u32) < 0xE000"
    "utf16_pair (ucast (b0 :: u8) + push_bit 8 (ucast (b1 :: u8))) (ucast (b2 :: u8) + push_bit 8 (ucast (b3 :: u8))) = c"
proof -
  define m where "m = unat c - 0x10000"
  have m: "m < 0x100000" "unat c = m + 0x10000"
    using assms by (simp_all add: m_def word_le_nat_alt word_less_nat_alt)
  note b = surrogate_bytes [OF m]
  let ?b0 = "ucast ((drop_bit 10 c AND 0x3F) + (drop_bit 10 (c - 0x10000) AND 0xC0)) :: u8"
  let ?b1 = "ucast (0xD8 + (drop_bit 18 (c - 0x10000) AND 0x03)) :: u8"
  let ?b2 = "ucast (c AND 0xFF) :: u8" let ?b3 = "ucast (0xDC + (drop_bit 8 c AND 0x03)) :: u8"
  have x: "m div 1024 < 1024" "m mod 1024 < 1024" using m(1) by simp_all
  have h: "unat (ucast ?b0 + push_bit 8 (ucast ?b1) :: u32) = 0xD800 + m div 1024"
    and l: "unat (ucast ?b2 + push_bit 8 (ucast ?b3) :: u32) = 0xDC00 + m mod 1024"
    unfolding unit_value b by (simp_all only: unit_digits)
  have "unat (utf16_pair (ucast ?b0 + push_bit 8 (ucast ?b1)) (ucast ?b2 + push_bit 8 (ucast ?b3))) = unat c"
    unfolding utf16_pair_value [OF h l x] m(2) using div_mult_mod_eq [of m 1024] by linarith
  then show ?thesis using h x by (intro that) (simp_all add: word_unat_eq_iff word_le_nat_alt word_less_nat_alt)
qed

lemma read_write_utf16:
  assumes "scalar c"
  shows "READ_UTF16LE (WRITE_UTF16LE c @ z) = Some (c, z)" "READ_UTF16BE (WRITE_UTF16BE c @ z) = Some (c, z)"
proof -
  have "READ_UTF16LE (WRITE_UTF16LE c @ z) = Some (c, z) \<and> READ_UTF16BE (WRITE_UTF16BE c @ z) = Some (c, z)"
  proof (cases "c \<le> 0xFFFF")
    case True
    have "\<not> (0xD800 \<le> c \<and> c < 0xE000)" using assms by (auto simp: scalar_def)
    then show ?thesis using True basic_unit [OF True]
      by (auto simp: READ_UTF16LE_def WRITE_UTF16LE_def READ_UTF16BE_def WRITE_UTF16BE_def add.commute)
  next
    case False
    then have c: "0x10000 \<le> c" "c < 0x110000" using assms by (auto simp: scalar_def word_le_nat_alt word_less_nat_alt)
    obtain b0 b1 b2 b3 where b: "WRITE_UTF16LE c = [b0, b1, b2, b3]" "WRITE_UTF16BE c = [b1, b0, b3, b2]"
      "(0xD800 :: u32) \<le> ucast b0 + push_bit 8 (ucast b1)" "(ucast b0 + push_bit 8 (ucast b1) :: u32) < 0xE000"
      "utf16_pair (ucast b0 + push_bit 8 (ucast b1)) (ucast b2 + push_bit 8 (ucast b3)) = c"
      by (rule surrogate_units [OF c]) (simp add: WRITE_UTF16LE_def WRITE_UTF16BE_def False)
    then show ?thesis by (simp add: READ_UTF16LE_def READ_UTF16BE_def add.commute)
  qed
  then show "READ_UTF16LE (WRITE_UTF16LE c @ z) = Some (c, z)" "READ_UTF16BE (WRITE_UTF16BE c @ z) = Some (c, z)" by blast+
qed

section \<open>Texts\<close>

definition text_of :: "(u32 \<Rightarrow> u8 list) \<Rightarrow> u32 list \<Rightarrow> u8 list" where
  "text_of wr cs = concat (map wr cs)"

lemma text_of_simps [simp]: "text_of wr [] = []" "text_of wr (c # cs) = wr c @ text_of wr cs"
  by (simp_all add: text_of_def)

text \<open>
  The interface of an encoding: a reader and a writer that undo each other on the characters
  \<open>ok\<close>, when another such character or the end follows.
\<close>

locale text_encoding =
  fixes rd :: "u8 list \<Rightarrow> (u32 \<times> u8 list) option" and wr :: "u32 \<Rightarrow> u8 list" and ok :: "u32 \<Rightarrow> bool"
  assumes wr_nonempty: "wr c \<noteq> []"
    and rd_wr: "ok c \<Longrightarrow> z = [] \<or> (\<exists>d y. ok d \<and> z = wr d @ y) \<Longrightarrow> rd (wr c @ z) = Some (c, z)"
begin

lemma recode_text:
  "\<forall>c \<in> set cs. ok c \<Longrightarrow> length (text_of wr cs) \<le> f \<Longrightarrow> recode f rd wr' (text_of wr cs) = Some (text_of wr' cs)"
proof (induction cs arbitrary: f)
  case Nil
  then show ?case by (cases f) simp_all
next
  case (Cons c cs)
  have "0 < length (wr c)" using wr_nonempty by simp
  then have "Suc (length (text_of wr cs)) \<le> f" using Cons.prems(2) unfolding text_of_simps length_append by linarith
  then obtain f' where f: "f = Suc f'" "length (text_of wr cs) \<le> f'" by (cases f) simp_all
  have "text_of wr cs = [] \<or> (\<exists>d y. ok d \<and> text_of wr cs = wr d @ y)"
    using Cons.prems(1) by (cases cs) auto
  then have "rd (wr c @ text_of wr cs) = Some (c, text_of wr cs)" using rd_wr Cons.prems(1) by simp
  then show ?case using Cons.IH [OF _ f(2)] Cons.prems(1) f(1) wr_nonempty [of c] by simp
qed

end

lemma write_nonempty [simp]: "WRITE_UTF8 c \<noteq> []" "WRITE_UTF16LE c \<noteq> []" "WRITE_UTF16BE c \<noteq> []"
  by (simp_all add: WRITE_UTF8_def WRITE_UTF16LE_def WRITE_UTF16BE_def)

lemma boundary_write_utf8:
  assumes "c < 0x200000"
  shows "boundary (WRITE_UTF8 c @ z)"
proof (cases "c < 0x80")
  case True
  then show ?thesis by (simp add: write_utf8_ascii continuation_iff unat_code)
next
  case False
  then have "0x80 \<le> c" by simp
  then show ?thesis using write_utf8_parts [of c] assms by (auto simp: continuation_iff word_le_nat_alt)
qed

text \<open>The characters that UTF-8 keeps: scalar values other than the two noncharacters.\<close>

definition utf8_char :: "u32 \<Rightarrow> bool" where
  "utf8_char c \<longleftrightarrow> scalar c \<and> c \<noteq> 0xFFFE \<and> c \<noteq> 0xFFFF"

lemma utf8_char_facts: "utf8_char c \<Longrightarrow> c < 0x200000" "utf8_char c \<Longrightarrow> utf8_read_value c = c"
  by (auto simp: utf8_char_def scalar_def utf8_read_value_def word_less_nat_alt word_le_nat_alt)

interpretation utf8: text_encoding READ_UTF8 WRITE_UTF8 utf8_char
proof (unfold_locales, goal_cases)
  case (2 c z)
  then have "boundary z" using boundary_write_utf8 utf8_char_facts by auto
  then show ?case using read_write_utf8 [of c z] utf8_char_facts [OF 2(1)] by simp
qed simp

interpretation utf16le: text_encoding READ_UTF16LE WRITE_UTF16LE scalar
  by unfold_locales (simp_all add: read_write_utf16)

interpretation utf16be: text_encoding READ_UTF16BE WRITE_UTF16BE scalar
  by unfold_locales (simp_all add: read_write_utf16)

text \<open>
  The size of the output buffer is enough for every input, well formed or not: a reader that keeps
  \<open>P\<close> and consumes at least half as many bytes as are written.
\<close>

lemma recode_bound:
  assumes "\<And>z. P z \<Longrightarrow> z \<noteq> [] \<Longrightarrow> \<exists>c z'. rd z = Some (c, z') \<and> P z' \<and> length z' < length z \<and>
      length (wr c) + 2 * length z' \<le> 2 * length z"
    and "P z" "length z \<le> f"
  shows "\<exists>out. recode f rd wr z = Some out \<and> length out \<le> 2 * length z"
  using assms(2,3)
proof (induction f arbitrary: z)
  case (Suc f)
  show ?case
  proof (cases "z = []")
    case False
    then obtain c z' where r: "rd z = Some (c, z')" "P z'" "length z' < length z" "length (wr c) + 2 * length z' \<le> 2 * length z"
      using assms(1) [OF Suc.prems(1)] by blast
    then obtain out where "recode f rd wr z' = Some out" "length out \<le> 2 * length z'" using Suc by fastforce
    then show ?thesis using r False by simp
  qed simp
qed simp

lemma utf8_tail_length: "length (snd (utf8_tail c z)) \<le> length z"
  by (induction c z rule: utf8_tail.induct) auto

lemma utf8_tail_used: "utf8_tail c z = (d, y) \<Longrightarrow> length y = length z \<Longrightarrow> d = c"
  by (cases z) (use utf8_tail_length [of "utf8_shift c (hd z)" "tl z"] in \<open>auto split: if_splits\<close>)

lemma trans1_small: "k < 64 \<Longrightarrow> unat (sqlite3Utf8Trans1 ! k) < 32"
proof -
  assume "k < 64"
  moreover have "length sqlite3Utf8Trans1 = 64" "\<forall>x \<in> set (map unat sqlite3Utf8Trans1). x < 32"
    by (simp_all add: sqlite3Utf8Trans1_def)
  ultimately show ?thesis by (metis length_map nth_map nth_mem)
qed

lemma read_utf8_step:
  assumes "z \<noteq> []"
  shows "\<exists>c z'. READ_UTF8 z = Some (c, z') \<and> length z' < length z \<and> (Suc (length z') = length z \<longrightarrow> c \<le> 0xFFFF)"
proof -
  obtain b y where z: "z = b # y" using assms by (cases z) auto
  show ?thesis
  proof (cases "b \<ge> 0xC0")
    case True
    obtain d y' where t: "utf8_tail (ucast (sqlite3Utf8Trans1 ! unat (b - 0xc0))) y = (d, y')" by (cases "utf8_tail (ucast (sqlite3Utf8Trans1 ! unat (b - 0xc0))) y")
    then have "length y' \<le> length y" using utf8_tail_length by (metis snd_conv)
    moreover have "utf8_fix d \<le> 0xFFFF" if "length y' = length y"
    proof -
      have "d = ucast (sqlite3Utf8Trans1 ! unat (b - 0xc0))" using utf8_tail_used [OF t that] .
      moreover have "unat (b - 0xC0) < 64" using True u8_lt [of b] by (simp add: unat_sub word_le_nat_alt)
      ultimately have "d < 0x80" using trans1_small [of "unat (b - 0xC0)"] by (simp add: word_less_nat_alt)
      then show ?thesis by (simp add: utf8_fix_def)
    qed
    ultimately show ?thesis using z True t by (auto simp: READ_UTF8_def)
  next
    case False
    have "ucast b \<le> (0xFFFF :: u32)" using u8_lt [of b] by (simp add: word_le_nat_alt)
    then show ?thesis using z False by (simp add: READ_UTF8_def)
  qed
qed

lemma write_utf16_length: "length (WRITE_UTF16LE c) = (if c \<le> 0xFFFF then 2 else 4)" "length (WRITE_UTF16BE c) = (if c \<le> 0xFFFF then 2 else 4)"
  by (simp_all add: WRITE_UTF16LE_def WRITE_UTF16BE_def)

lemma recode_to_utf16_total:
  assumes "length z \<le> f" "wr = WRITE_UTF16LE \<or> wr = WRITE_UTF16BE"
  shows "\<exists>out. recode f READ_UTF8 wr z = Some out \<and> length out \<le> 2 * length z"
proof (rule recode_bound [where P = "\<lambda>_. True"])
  fix z :: "u8 list" assume "z \<noteq> []"
  then obtain c z' where r: "READ_UTF8 z = Some (c, z')" "length z' < length z" "Suc (length z') = length z \<longrightarrow> c \<le> 0xFFFF"
    using read_utf8_step by blast
  then have "length (wr c) + 2 * length z' \<le> 2 * length z"
    using assms(2) by (cases "c \<le> 0xFFFF") (auto simp: write_utf16_length)
  then show "\<exists>c z'. READ_UTF8 z = Some (c, z') \<and> True \<and> length z' < length z \<and> length (wr c) + 2 * length z' \<le> 2 * length z"
    using r by blast
qed (use assms(1) in simp_all)

lemma write_utf8_length: "length (WRITE_UTF8 c) \<le> 4"
  by (simp add: WRITE_UTF8_def)

lemma read_utf16_step:
  assumes "even (length z)" "z \<noteq> []" "rd = READ_UTF16LE \<or> rd = READ_UTF16BE"
  shows "\<exists>c z'. rd z = Some (c, z') \<and> even (length z') \<and> length z' + 2 \<le> length z"
proof -
  obtain a b y where z: "z = a # b # y" "even (length y)" using assms(1,2) by (cases z; cases "tl z") auto
  show ?thesis
  proof (cases y)
    case Nil
    then show ?thesis using z assms(3) by (auto simp: READ_UTF16LE_def READ_UTF16BE_def Let_def)
  next
    case (Cons a' y')
    then obtain b' y'' where "y = a' # b' # y''" using z(2) by (cases y') auto
    then show ?thesis using z assms(3) by (auto simp: READ_UTF16LE_def READ_UTF16BE_def Let_def)
  qed
qed

lemma recode_to_utf8_total:
  assumes "even (length z)" "length z \<le> f" "rd = READ_UTF16LE \<or> rd = READ_UTF16BE"
  shows "\<exists>out. recode f rd WRITE_UTF8 z = Some out \<and> length out \<le> 2 * length z"
proof (rule recode_bound [where P = "\<lambda>z. even (length z)"])
  fix z :: "u8 list" assume "even (length z)" "z \<noteq> []"
  then obtain c z' where "rd z = Some (c, z')" "even (length z')" "length z' + 2 \<le> length z"
    using read_utf16_step assms(3) by blast
  then show "\<exists>c z'. rd z = Some (c, z') \<and> even (length z') \<and> length z' < length z \<and>
      length (WRITE_UTF8 c) + 2 * length z' \<le> 2 * length z"
    using write_utf8_length [of c] by (intro exI [of _ c] exI [of _ z']) linarith
qed (use assms in simp_all)

lemma append_one_eq:
  assumes "4 \<le> length zOut"
  shows "sqlite3AppendOneUtf8Character zOut v =
    (length (WRITE_UTF8 v), WRITE_UTF8 v @ drop (length (WRITE_UTF8 v)) zOut)"
proof -
  obtain a b c d zs where z: "zOut = a # b # c # d # zs"
    using assms by (metis Suc_le_length_iff numeral_eq_Suc pred_numeral_simps(2) pred_numeral_simps(3) eval_nat_numeral(2) semiring_norm(26) semiring_norm(27))
  show ?thesis by (simp add: z sqlite3AppendOneUtf8Character_def WRITE_UTF8_def numeral_2_eq_2 numeral_3_eq_3)
qed

lemma swap_text: "swap_pairs (text_of WRITE_UTF16LE cs) = text_of WRITE_UTF16BE cs"
    "swap_pairs (text_of WRITE_UTF16BE cs) = text_of WRITE_UTF16LE cs"
  by (induction cs) (simp_all add: WRITE_UTF16LE_def WRITE_UTF16BE_def)

section \<open>Counting characters\<close>

text \<open>The characters of a text that ends with a zero byte.\<close>

function utf8_chars :: "u8 list \<Rightarrow> u32 list" where
  "utf8_chars z =
     (case READ_UTF8 z of None \<Rightarrow> [] | Some (c, z') \<Rightarrow> if c = 0 then [] else c # utf8_chars z')"
  by pat_completeness auto

lemma read_utf8_shorter: "READ_UTF8 z = Some (c, z') \<Longrightarrow> length z' < length z"
proof -
  assume r: "READ_UTF8 z = Some (c, z')"
  then have "z \<noteq> []" by (auto simp: READ_UTF8_def)
  then show ?thesis using read_utf8_step [of z] r by auto
qed

termination utf8_chars
  by (relation "measure length") (auto dest: read_utf8_shorter)

declare utf8_chars.simps [simp del]

lemma snd_utf8_tail: "snd (utf8_tail c y) = dropWhile continuation y"
  by (induction c y rule: utf8_tail.induct) simp_all

lemma zero_kept: "0 \<in> set y \<Longrightarrow> 0 \<in> set (dropWhile continuation y)"
  by (induction y) auto

lemma skip_eq_read: "0 \<in> set z \<Longrightarrow> SQLITE_SKIP_UTF8 z = map_option snd (READ_UTF8 z)"
proof (cases z)
  case (Cons b y)
  assume "0 \<in> set z"
  then have "b \<ge> 0xC0 \<Longrightarrow> 0 \<in> set (dropWhile continuation y)"
    using Cons by (auto intro: zero_kept)
  then have "b \<ge> 0xC0 \<Longrightarrow> \<exists>x xs. dropWhile continuation y = x # xs"
    by (cases "dropWhile continuation y") auto
  then show ?thesis using Cons snd_utf8_tail [of "ucast (sqlite3Utf8Trans1 ! unat (b - 0xC0))" y]
    by (cases "b \<ge> 0xC0") (auto simp del: dropWhile_eq_Nil_conv simp: SQLITE_SKIP_UTF8_def READ_UTF8_def split: prod.splits)
qed (simp add: SQLITE_SKIP_UTF8_def READ_UTF8_def)

lemma read_zero_iff:
  assumes "0 \<in> set z"
  shows "\<exists>c z'. READ_UTF8 z = Some (c, z') \<and> length z' < length z \<and> (c = 0 \<longleftrightarrow> hd z = 0) \<and> (c \<noteq> 0 \<longrightarrow> 0 \<in> set z')"
proof -
  obtain b y where z: "z = b # y" using assms by (cases z) auto
  obtain c z' where r: "READ_UTF8 z = Some (c, z')" "length z' < length z" using read_utf8_step [of z] z by auto
  show ?thesis
  proof (cases "b \<ge> 0xC0")
    case True
    obtain d where d: "utf8_tail (ucast (sqlite3Utf8Trans1 ! unat (b - 0xC0))) y = (d, z')" "c = utf8_fix d"
      using r(1) True z by (auto simp: READ_UTF8_def split: prod.splits)
    have "z' = dropWhile continuation y" using snd_utf8_tail d(1) by (metis snd_conv)
    moreover have "0 \<in> set y" "b \<noteq> 0" using True z assms by auto
    moreover have "utf8_fix d \<noteq> 0" by (simp add: utf8_fix_def) force
    ultimately show ?thesis using r z d(2) zero_kept by auto
  next
    case False
    have "ucast b = (0 :: u32) \<longleftrightarrow> b = 0" by (simp add: word_unat_eq_iff)
    then show ?thesis using r False z assms by (auto simp: READ_UTF8_def)
  qed
qed

lemma utf8_chars_Nil: "0 \<in> set z \<Longrightarrow> utf8_chars z = [] \<longleftrightarrow> hd z = 0"
  using read_zero_iff [of z] by (auto simp: utf8_chars.simps [of z])

lemma utf8_chars_Cons:
  "READ_UTF8 z = Some (c, z') \<Longrightarrow> c \<noteq> 0 \<Longrightarrow> utf8_chars z = c # utf8_chars z'"
  by (simp add: utf8_chars.simps [of z])

lemma utf8_chars_length: "0 \<in> set z \<Longrightarrow> length (utf8_chars z) < length z"
proof (induction z rule: utf8_chars.induct)
  case (1 z)
  obtain c z' where r: "READ_UTF8 z = Some (c, z')" "length z' < length z" "c = 0 \<longleftrightarrow> hd z = 0" "c \<noteq> 0 \<longrightarrow> 0 \<in> set z'"
    using read_zero_iff [OF 1(2)] by blast
  then show ?case using 1(1) [OF r(1) refl] 1(2) by (cases "c = 0") (auto simp: utf8_chars.simps [of z])
qed

lemma charlen_loop_eq: "0 \<in> set z \<Longrightarrow> length z \<le> f \<Longrightarrow> charlen_loop f z None r = Some (r + length (utf8_chars z))"
proof (induction f arbitrary: z r)
  case (Suc f)
  obtain c z' where r: "READ_UTF8 z = Some (c, z')" "length z' < length z" "c = 0 \<longleftrightarrow> hd z = 0" "c \<noteq> 0 \<longrightarrow> 0 \<in> set z'"
    using read_zero_iff [OF Suc.prems(1)] by blast
  obtain b y where z: "z = b # y" using Suc.prems(1) by (cases z) auto
  show ?case
  proof (cases "c = 0")
    case True
    then show ?thesis using r z utf8_chars_Nil [OF Suc.prems(1)] by simp
  next
    case False
    then have "charlen_loop f z' None (r + 1) = Some (r + 1 + length (utf8_chars z'))"
      using Suc.IH [of z' "r + 1"] Suc.prems(2) r by simp
    then show ?thesis
      using False r z skip_eq_read [OF Suc.prems(1)] utf8_chars_Cons [OF r(1) False] by simp
  qed
qed simp

lemma utf8_chars_text:
  "\<forall>c \<in> set cs. utf8_char c \<and> c \<noteq> 0 \<Longrightarrow> utf8_chars (text_of WRITE_UTF8 cs @ 0 # z) = cs"
proof (induction cs)
  case Nil
  show ?case using utf8_chars_Nil [of "0 # z"] by simp
next
  case (Cons c cs)
  have "boundary (text_of WRITE_UTF8 cs @ 0 # z)"
    using Cons.prems boundary_write_utf8 utf8_char_facts(1) by (cases cs) auto
  then have "READ_UTF8 (text_of WRITE_UTF8 (c # cs) @ 0 # z) = Some (c, text_of WRITE_UTF8 cs @ 0 # z)"
    using read_write_utf8 [of c] utf8_char_facts [of c] Cons.prems by simp
  then show ?case using Cons by (simp add: utf8_chars_Cons)
qed

text \<open>The high bytes of the code units of a character.\<close>

lemma utf16le_shape:
  assumes "scalar c"
  shows "(\<exists>b0 b1. WRITE_UTF16LE c = [b0, b1] \<and> \<not> (0xd8 \<le> b1 \<and> b1 < 0xdc)) \<or>
    (\<exists>b0 b1 b2 b3. WRITE_UTF16LE c = [b0, b1, b2, b3] \<and> 0xd8 \<le> b1 \<and> b1 < 0xdc \<and> 0xdc \<le> b3 \<and> b3 < 0xe0)"
proof (cases "c \<le> 0xFFFF")
  case True
  have "unat (ucast (drop_bit 8 c AND 0xFF) :: u8) = unat c div 256"
    using True by (simp add: unat_code)
  moreover have "unat c < 0xD800 \<or> 0xE000 \<le> unat c" using assms by (auto simp: scalar_def word_le_nat_alt word_less_nat_alt)
  then have "\<not> (216 \<le> unat c div 256 \<and> unat c div 256 < 220)"
    using less_eq_div_iff_mult_less_eq [of 256 216 "unat c"] div_less_iff_less_mult [of 256 "unat c" 220] by auto
  ultimately show ?thesis using True by (simp add: WRITE_UTF16LE_def word_le_nat_alt word_less_nat_alt)
next
  case False
  define m where "m = unat c - 0x10000"
  have m: "m < 0x100000" "unat c = m + 0x10000"
    using False assms by (auto simp: m_def scalar_def word_le_nat_alt word_less_nat_alt)
  have "m div 1024 div 256 < 4" "m mod 1024 div 256 < 4" using m(1) by (simp_all add: div_less_iff_less_mult)
  then show ?thesis using False surrogate_bytes [OF m]
    by (simp add: WRITE_UTF16LE_def word_le_nat_alt word_less_nat_alt)
qed

lemma bytelen_loop_eq:
  assumes "\<forall>c \<in> set cs. scalar c"
  shows "bytelen_loop k (pre @ text_of WRITE_UTF16LE cs @ rest) (length pre + length (text_of WRITE_UTF16LE cs)) (length pre + 1) =
    length pre + 1 + length (text_of WRITE_UTF16LE (take k cs))"
  using assms
proof (induction k arbitrary: cs pre)
  case (Suc k)
  show ?case
  proof (cases cs)
    case (Cons c cs')
    have IH: "bytelen_loop k (pre' @ text_of WRITE_UTF16LE cs' @ rest) (length pre' + length (text_of WRITE_UTF16LE cs')) (length pre' + 1) =
        length pre' + 1 + length (text_of WRITE_UTF16LE (take k cs'))" for pre'
      using Suc.IH Suc.prems Cons by simp
    have "scalar c" using Suc.prems Cons by simp
    from utf16le_shape [OF this] consider
        (one) b0 b1 where "WRITE_UTF16LE c = [b0, b1]" "\<not> (0xd8 \<le> b1 \<and> b1 < 0xdc)"
      | (two) b0 b1 b2 b3 where "WRITE_UTF16LE c = [b0, b1, b2, b3]" "0xd8 \<le> b1" "b1 < 0xdc" "0xdc \<le> b3" "b3 < 0xe0"
      by blast
    then show ?thesis
    proof cases
      case one
      then show ?thesis using IH [of "pre @ [b0, b1]"] Cons by (auto simp: nth_append)
    next
      case two
      then show ?thesis using IH [of "pre @ [b0, b1, b2, b3]"] Cons by (simp add: nth_append)
    qed
  qed simp
qed simp

text \<open>The reader with a limit on the number of bytes.\<close>

lemma utf8_limited_eq:
  "i + k \<le> length z \<Longrightarrow>
   utf8_limited z i k c = (case utf8_tail c (take k (drop i z)) of (d, y) \<Rightarrow> (i + k - length y, d))"
proof (induction z i k c rule: utf8_limited.induct)
  case (2 z i k c)
  have d: "drop i z = z ! i # drop (Suc i) z" using 2(2) by (simp add: Cons_nth_drop_Suc)
  show ?case
  proof (cases "continuation (z ! i)")
    case True
    then show ?thesis using 2(1) [OF True] 2(2) d by simp
  next
    case False
    then show ?thesis using 2(2) d by simp
  qed
qed simp

lemma utf8_limited_bounds: "i \<le> fst (utf8_limited z i k c) \<and> fst (utf8_limited z i k c) \<le> i + k"
  by (induction z i k c rule: utf8_limited.induct) auto

end
