(* ===== verification/Sqlite_Like.thy ===== *)
theory Sqlite_Like
  imports Sqlite_Utf
begin

text \<open>
  Pattern matching of \<^verbatim>\<open>func.c\<close> in the bundled SQLite (\<^verbatim>\<open>sqlite3/sqlite3.c\<close>): \<open>patternCompare\<close>, which implements
  the operators LIKE and GLOB. It is shown to agree with a description of patterns as lists of
  tokens, including the early return for patterns with several wildcards.
\<close>

section \<open>Model\<close>

record compareInfo =
  matchAll :: u8
  matchOne :: u8
  matchSet :: u8
  noCase :: bool

definition globInfo :: compareInfo where
  "globInfo = \<lparr>matchAll = 0x2A, matchOne = 0x3F, matchSet = 0x5B, noCase = False\<rparr>"

definition likeInfoNorm :: compareInfo where
  "likeInfoNorm = \<lparr>matchAll = 0x25, matchOne = 0x5F, matchSet = 0, noCase = True\<rparr>"

definition likeInfoAlt :: compareInfo where
  "likeInfoAlt = \<lparr>matchAll = 0x25, matchOne = 0x5F, matchSet = 0, noCase = False\<rparr>"

abbreviation (input) SQLITE_MATCH :: nat where "SQLITE_MATCH \<equiv> 0"
abbreviation (input) SQLITE_NOMATCH :: nat where "SQLITE_NOMATCH \<equiv> 1"
abbreviation (input) SQLITE_NOWILDCARDMATCH :: nat where "SQLITE_NOWILDCARDMATCH \<equiv> 2"

text \<open>
  Texts are lists of bytes with their terminating zero; \<open>None\<close> is the result where the code would read
  past the end of one.
\<close>

definition Utf8Read :: "u8 list \<Rightarrow> (u32 \<times> u8 list) option" where
  "Utf8Read z =
     (case z of [] \<Rightarrow> None | b # z' \<Rightarrow> if b < 0x80 then Some (ucast b, z') else sqlite3Utf8Read z)"

lemma utf8_tail0_length: "utf8_tail0 c z = Some (d, y) \<Longrightarrow> length y \<le> length z"
  by (induction c z rule: utf8_tail0.induct) (auto split: if_splits)

lemma sqlite3Utf8Read_length: "sqlite3Utf8Read z = Some (c, z') \<Longrightarrow> length z' < length z"
  by (auto simp: sqlite3Utf8Read_def less_Suc_eq_le split: list.splits if_splits dest: utf8_tail0_length)

lemma Utf8Read_length: "Utf8Read z = Some (c, z') \<Longrightarrow> length z' < length z"
  by (auto simp: Utf8Read_def split: list.splits if_splits dest: sqlite3Utf8Read_length)

lemma SKIP_length: "SQLITE_SKIP_UTF8 z = Some z' \<Longrightarrow> length z' < length z"
  by (auto simp: SQLITE_SKIP_UTF8_def less_Suc_eq_le split: list.splits if_splits)
     (metis length_dropWhile_le length_Cons)

text \<open>The loop that skips further wildcards: the early result, or the character that follows with both positions.\<close>

function skip_wild ::
    "compareInfo \<Rightarrow> u8 list \<Rightarrow> u8 list \<Rightarrow> (nat + u32 \<times> u8 list \<times> u8 list) option" where
  "skip_wild I p s =
     (case Utf8Read p of
        None \<Rightarrow> None
      | Some (c, p') \<Rightarrow>
          if c = ucast (matchAll I) \<or> c = ucast (matchOne I) \<and> matchOne I \<noteq> 0
          then if c = ucast (matchOne I)
               then (case sqlite3Utf8Read s of
                       None \<Rightarrow> None
                     | Some (c2, s') \<Rightarrow>
                         if c2 = 0 then Some (Inl SQLITE_NOWILDCARDMATCH) else skip_wild I p' s')
               else skip_wild I p' s
          else Some (Inr (c, p', s)))"
  by pat_completeness auto
termination
  by (relation "measure (\<lambda>(I, p, s). length p)") (auto dest: Utf8Read_length)

text \<open>The three searches in the string for a place where the rest of the pattern, matched by \<open>m\<close>, can start.\<close>

fun search_stop :: "u8 list \<Rightarrow> (u8 list \<Rightarrow> nat option) \<Rightarrow> u8 list \<Rightarrow> nat option" where
  "search_stop zStop m [] = None"
| "search_stop zStop m (b # s) =
     (if b = 0 then Some SQLITE_NOWILDCARDMATCH
      else if b \<in> set zStop
      then (case m s of
              None \<Rightarrow> None
            | Some r \<Rightarrow> if r \<noteq> SQLITE_NOMATCH then Some r else search_stop zStop m s)
      else search_stop zStop m s)"

function search_char :: "u32 \<Rightarrow> (u8 list \<Rightarrow> nat option) \<Rightarrow> u8 list \<Rightarrow> nat option" where
  "search_char c m s =
     (case Utf8Read s of
        None \<Rightarrow> None
      | Some (c2, s') \<Rightarrow>
          if c2 = 0 then Some SQLITE_NOWILDCARDMATCH
          else if c2 \<noteq> c then search_char c m s'
          else (case m s' of
                  None \<Rightarrow> None
                | Some r \<Rightarrow> if r \<noteq> SQLITE_NOMATCH then Some r else search_char c m s'))"
  by pat_completeness auto
termination
  by (relation "measure (\<lambda>(c, m, s). length s)") (auto dest: Utf8Read_length)

function search_set :: "(u8 list \<Rightarrow> nat option) \<Rightarrow> u8 list \<Rightarrow> nat option" where
  "search_set m s =
     (case s of
        [] \<Rightarrow> None
      | b # _ \<Rightarrow>
          if b = 0 then Some SQLITE_NOWILDCARDMATCH
          else (case m s of
                  None \<Rightarrow> None
                | Some r \<Rightarrow>
                    if r \<noteq> SQLITE_NOMATCH then Some r
                    else (case SQLITE_SKIP_UTF8 s of None \<Rightarrow> None | Some s' \<Rightarrow> search_set m s')))"
  by pat_completeness auto
termination
  by (relation "measure (\<lambda>(m, s). length s)") (auto dest: SKIP_length)

text \<open>The members of a set up to its closing bracket: the last character read, the rest of the pattern, and \<^verbatim>\<open>seen\<close>.\<close>

function set_loop :: "u32 \<Rightarrow> u32 \<Rightarrow> u8 list \<Rightarrow> u32 \<Rightarrow> bool \<Rightarrow> (u32 \<times> u8 list \<times> bool) option" where
  "set_loop c c2 p prior_c seen =
     (if c2 \<noteq> 0 \<and> c2 \<noteq> 0x5D
      then if p = [] then None
           else if c2 = 0x2D \<and> hd p \<noteq> 0x5D \<and> hd p \<noteq> 0 \<and> prior_c > 0
           then (case sqlite3Utf8Read p of
                   None \<Rightarrow> None
                 | Some (c2, p') \<Rightarrow>
                     (case sqlite3Utf8Read p' of
                        None \<Rightarrow> None
                      | Some (c3, p'') \<Rightarrow> set_loop c c3 p'' 0 (seen \<or> c \<ge> prior_c \<and> c \<le> c2)))
           else (case sqlite3Utf8Read p of
                   None \<Rightarrow> None
                 | Some (c3, p') \<Rightarrow> set_loop c c3 p' c2 (seen \<or> c = c2))
      else Some (c2, p, seen))"
  by pat_completeness auto
termination
  by (relation "measure (\<lambda>(c, c2, p, pr, s). length p)") (auto dest!: sqlite3Utf8Read_length)

definition set_match :: "u32 \<Rightarrow> u8 list \<Rightarrow> (bool \<times> u8 list) option" where
  "set_match c p =
     Option.bind (sqlite3Utf8Read p) (\<lambda>(c2, p).
     Option.bind (if c2 = 0x5E then map_option (\<lambda>(c2, p). (True, c2, p)) (sqlite3Utf8Read p)
                  else Some (False, c2, p)) (\<lambda>(invert, c2, p).
     Option.bind (if c2 = 0x5D then map_option (\<lambda>(c2, p). (c = 0x5D, c2, p)) (sqlite3Utf8Read p)
                  else Some (False, c2, p)) (\<lambda>(seen, c2, p).
     map_option (\<lambda>(c2, p, seen). (c2 \<noteq> 0 \<and> seen \<noteq> invert, p)) (set_loop c c2 p 0 seen))))"

text \<open>The two spellings of an ASCII character at which a search stops.\<close>

definition stop_bytes :: "bool \<Rightarrow> u8 \<Rightarrow> u8 list" where
  "stop_bytes nc c = (if nc then [sqlite3Toupper c, UpperToLower c] else [c])"

text \<open>
  The comparison. The first argument bounds the number of pattern characters that are read,
  \<open>other\<close> is \<^verbatim>\<open>matchOther\<close>. The flag \<open>esc\<close> stands for \<^verbatim>\<open>zPattern==zEscaped\<close>.
\<close>

primrec pattern_loop :: "nat \<Rightarrow> compareInfo \<Rightarrow> u32 \<Rightarrow> u8 list \<Rightarrow> u8 list \<Rightarrow> nat option" where
  "pattern_loop 0 I other p s = None"
| "pattern_loop (Suc f) I other p s =
     (case Utf8Read p of
        None \<Rightarrow> None
      | Some (c, p) \<Rightarrow>
          if c = 0
          then (case s of [] \<Rightarrow> None | b # _ \<Rightarrow> Some (if b = 0 then SQLITE_MATCH else SQLITE_NOMATCH))
          else if c = ucast (matchAll I)
          then (case skip_wild I p s of
                  None \<Rightarrow> None
                | Some (Inl r) \<Rightarrow> Some r
                | Some (Inr (c, p, s)) \<Rightarrow>
                    if c = 0 then Some SQLITE_MATCH
                    else if c = other \<and> matchSet I \<noteq> 0
                    then search_set (pattern_loop f I other (ucast c # p)) s
                    else (case (if c = other then sqlite3Utf8Read p else Some (c, p)) of
                            None \<Rightarrow> None
                          | Some (c, p) \<Rightarrow>
                              if c = 0 then Some SQLITE_NOWILDCARDMATCH
                              else if c < 0x80
                              then search_stop (stop_bytes (noCase I) (ucast c)) (pattern_loop f I other p) s
                              else search_char c (pattern_loop f I other p) s))
          else if c = other \<and> matchSet I \<noteq> 0
          then (case sqlite3Utf8Read s of
                  None \<Rightarrow> None
                | Some (c, s) \<Rightarrow>
                    if c = 0 then Some SQLITE_NOMATCH
                    else (case set_match c p of
                            None \<Rightarrow> None
                          | Some (b, p) \<Rightarrow> if b then pattern_loop f I other p s else Some SQLITE_NOMATCH))
          else (case (if c = other then map_option (\<lambda>(c, p). (True, c, p)) (sqlite3Utf8Read p)
                      else Some (False, c, p)) of
                  None \<Rightarrow> None
                | Some (esc, c, p) \<Rightarrow>
                    if c = 0 then Some SQLITE_NOMATCH
                    else (case Utf8Read s of
                            None \<Rightarrow> None
                          | Some (c2, s) \<Rightarrow>
                              if c = c2 \<or>
                                 noCase I \<and> UpperToLower (ucast c) = UpperToLower (ucast c2) \<and> c < 0x80 \<and> c2 < 0x80 \<or>
                                 c = ucast (matchOne I) \<and> \<not> esc \<and> c2 \<noteq> 0
                              then pattern_loop f I other p s
                              else Some SQLITE_NOMATCH)))"

definition patternCompare :: "u8 list \<Rightarrow> u8 list \<Rightarrow> compareInfo \<Rightarrow> u32 \<Rightarrow> nat option" where
  "patternCompare zPattern zString pInfo matchOther =
     pattern_loop (length zPattern) pInfo matchOther zPattern zString"

definition sqlite3_strglob :: "u8 list option \<Rightarrow> u8 list option \<Rightarrow> nat option" where
  "sqlite3_strglob zGlobPattern zString =
     (case zString of
        None \<Rightarrow> Some (if zGlobPattern \<noteq> None then 1 else 0)
      | Some s \<Rightarrow> (case zGlobPattern of None \<Rightarrow> Some 1 | Some p \<Rightarrow> patternCompare p s globInfo 0x5B))"

definition sqlite3_strlike :: "u8 list option \<Rightarrow> u8 list option \<Rightarrow> u32 \<Rightarrow> nat option" where
  "sqlite3_strlike zPattern zStr esc =
     (case zStr of
        None \<Rightarrow> Some (if zPattern \<noteq> None then 1 else 0)
      | Some s \<Rightarrow> (case zPattern of None \<Rightarrow> Some 1 | Some p \<Rightarrow> patternCompare p s likeInfoNorm esc))"

text \<open>
  The SQL function. An argument is NULL, a blob with its bytes, or another value with its text
  without the terminator (\<^verbatim>\<open>sqlite3_value_text\<close> of a text or a number); \<open>argv2\<close> is \<open>None\<close> when the
  function is called with two arguments. The build defines \<^verbatim>\<open>SQLITE_LIKE_DOESNT_MATCH_BLOBS\<close>.
\<close>

datatype like_arg = ArgNull | ArgText "u8 list" | ArgBlob "u8 list"

fun value_text :: "like_arg \<Rightarrow> u8 list option" where
  "value_text ArgNull = None"
| "value_text (ArgText z) = Some z"
| "value_text (ArgBlob z) = Some z"

fun is_blob :: "like_arg \<Rightarrow> bool" where
  "is_blob (ArgBlob _) = True"
| "is_blob _ = False"

datatype like_result = LikeError string | LikeNull | LikeInt bool

definition likeFunc ::
    "nat \<Rightarrow> compareInfo \<Rightarrow> like_arg \<Rightarrow> like_arg \<Rightarrow> like_arg option \<Rightarrow> like_result option" where
  "likeFunc limit I argv0 argv1 argv2 =
     (if is_blob argv0 \<or> is_blob argv1 then Some (LikeInt False)
      else if (case value_text argv0 of None \<Rightarrow> 0 | Some z \<Rightarrow> length z) > limit
      then Some (LikeError ''LIKE or GLOB pattern too complex'')
      else let compare = (\<lambda>I escape.
                 case (value_text argv0, value_text argv1) of
                   (Some zB, Some zA) \<Rightarrow>
                     map_option (\<lambda>r. LikeInt (r = SQLITE_MATCH)) (patternCompare (zB @ [0]) (zA @ [0]) I escape)
                 | _ \<Rightarrow> Some LikeNull)
      in case map_option value_text argv2 of
           None \<Rightarrow> compare I (ucast (matchSet I))
         | Some None \<Rightarrow> Some LikeNull
         | Some (Some zEsc) \<Rightarrow>
             if sqlite3Utf8CharLen (zEsc @ [0]) None \<noteq> Some 1
             then Some (LikeError ''ESCAPE expression must be a single character'')
             else (case sqlite3Utf8Read (zEsc @ [0]) of
                     None \<Rightarrow> None
                   | Some (escape, _) \<Rightarrow>
                       compare
                         (I\<lparr>matchAll := if escape = ucast (matchAll I) then 0 else matchAll I,
                            matchOne := if escape = ucast (matchOne I) then 0 else matchOne I\<rparr>)
                         escape))"

section \<open>Patterns as lists of tokens\<close>

text \<open>
  The meaning of a pattern, over characters instead of bytes. A pattern that ends inside a set or
  after the escape character has the token \<open>Bad\<close>, which matches nothing.
\<close>

datatype set_item = Single u32 | Range u32 u32

datatype pat_token = Star | One | Lit u32 | InSet bool "set_item list" | Bad

fun item_has :: "u32 \<Rightarrow> set_item \<Rightarrow> bool" where
  "item_has c (Single d) \<longleftrightarrow> c = d"
| "item_has c (Range d e) \<longleftrightarrow> d \<le> c \<and> c \<le> e"

fun set_items :: "u32 \<Rightarrow> u32 list \<Rightarrow> (set_item list \<times> u32 list) option" where
  "set_items prior [] = None"
| "set_items prior (c # cs) =
     (if c = 0x5D then Some ([], cs)
      else case cs of
             d # ds \<Rightarrow>
               if c = 0x2D \<and> d \<noteq> 0x5D \<and> prior \<noteq> 0
               then map_option (apfst ((#) (Range prior d))) (set_items 0 ds)
               else map_option (apfst ((#) (Single c))) (set_items c cs)
           | [] \<Rightarrow> None)"

text \<open>The part after the opening bracket and the optional \<^verbatim>\<open>^\<close>; a bracket in front belongs to the set.\<close>

definition set_body :: "u32 list \<Rightarrow> (set_item list \<times> u32 list) option" where
  "set_body cs =
     (case cs of
        c # cs' \<Rightarrow> if c = 0x5D then map_option (apfst ((#) (Single c))) (set_items 0 cs') else set_items 0 cs
      | [] \<Rightarrow> None)"

definition set_parse :: "u32 list \<Rightarrow> (bool \<times> set_item list \<times> u32 list) option" where
  "set_parse cs =
     (case cs of
        c # cs' \<Rightarrow> if c = 0x5E then map_option (Pair True) (set_body cs') else map_option (Pair False) (set_body cs)
      | [] \<Rightarrow> None)"

lemma set_items_length: "set_items prior cs = Some (is, r) \<Longrightarrow> length r < length cs"
proof (induction prior cs arbitrary: "is" r rule: set_items.induct)
  case (2 prior c cs)
  show ?case
  proof (cases "c = 0x5D")
    case False
    then obtain d ds where cs: "cs = d # ds" using 2(3) by (cases cs) simp_all
    show ?thesis
    proof (cases "c = 0x2D \<and> d \<noteq> 0x5D \<and> prior \<noteq> 0")
      case True
      then have "\<exists>is'. set_items 0 ds = Some (is', r)" using 2(3) cs False by auto
      then show ?thesis using 2(1) [OF False cs True] cs by (auto intro: less_SucI)
    next
      case neg: False
      then have "\<exists>is'. set_items c cs = Some (is', r)" using 2(3) cs False by auto
      then show ?thesis using 2(2) [OF False cs neg] by (auto intro: less_SucI)
    qed
  qed (use 2(3) in simp)
qed simp

lemma set_body_length: "set_body cs = Some (is, r) \<Longrightarrow> length r < length cs"
proof (cases cs)
  case (Cons c cs')
  assume b: "set_body cs = Some (is, r)"
  show ?thesis
  proof (cases "c = 0x5D")
    case True
    then obtain is' where "set_items 0 cs' = Some (is', r)" using b Cons by (auto simp: set_body_def)
    then show ?thesis using Cons by (simp add: set_items_length less_SucI)
  qed (use b Cons in \<open>auto simp: set_body_def simp del: set_items.simps dest: set_items_length\<close>)
qed (simp add: set_body_def)

lemma set_parse_length: "set_parse cs = Some (b, is, r) \<Longrightarrow> length r < length cs"
proof (cases cs)
  case (Cons c cs')
  assume b: "set_parse cs = Some (b, is, r)"
  show ?thesis
  proof (cases "c = 0x5E")
    case True
    then have "set_body cs' = Some (is, r)" using b Cons by (auto simp: set_parse_def)
    then show ?thesis using Cons by (simp add: set_body_length less_SucI)
  qed (use b Cons in \<open>auto simp: set_parse_def dest: set_body_length\<close>)
qed (simp add: set_parse_def)

function pat_tokens :: "compareInfo \<Rightarrow> u32 \<Rightarrow> u32 list \<Rightarrow> pat_token list" where
  "pat_tokens I other [] = []"
| "pat_tokens I other (c # cs) =
     (if c = ucast (matchAll I) then Star # pat_tokens I other cs
      else if c = other
      then if matchSet I = 0
           then (case cs of [] \<Rightarrow> [Bad] | d # ds \<Rightarrow> Lit d # pat_tokens I other ds)
           else (case set_parse cs of
                   None \<Rightarrow> [Bad]
                 | Some (neg, is, r) \<Rightarrow> InSet neg is # pat_tokens I other r)
      else if c = ucast (matchOne I) then One # pat_tokens I other cs
      else Lit c # pat_tokens I other cs)"
  by pat_completeness auto
termination
  by (relation "measure (\<lambda>(I, p, cs). length cs)") (auto dest: set_parse_length)

text \<open>Whether a token for one character accepts it, and when a list of tokens matches a text.\<close>

fun accepts_char :: "bool \<Rightarrow> pat_token \<Rightarrow> u32 \<Rightarrow> bool" where
  "accepts_char nc One x \<longleftrightarrow> True"
| "accepts_char nc (Lit c) x \<longleftrightarrow>
     c = x \<or> nc \<and> c < 0x80 \<and> x < 0x80 \<and> UpperToLower (ucast c) = UpperToLower (ucast x)"
| "accepts_char nc (InSet neg is) x \<longleftrightarrow> (\<exists>i \<in> set is. item_has x i) \<noteq> neg"
| "accepts_char nc _ x \<longleftrightarrow> False"

fun pat_matches :: "bool \<Rightarrow> pat_token list \<Rightarrow> u32 list \<Rightarrow> bool" where
  "pat_matches nc [] s \<longleftrightarrow> s = []"
| "pat_matches nc (t # ts) [] \<longleftrightarrow> t = Star \<and> pat_matches nc ts []"
| "pat_matches nc (t # ts) (x # s) \<longleftrightarrow>
     (if t = Star then pat_matches nc ts (x # s) \<or> pat_matches nc (t # ts) s
      else accepts_char nc t x \<and> pat_matches nc ts s)"

section \<open>Results of a comparison\<close>

text \<open>
  What a result says: 0 a match; 2 that no later start in the string would match either, which is
  what lets the searches stop.
\<close>

definition result_ok :: "bool \<Rightarrow> nat \<Rightarrow> pat_token list \<Rightarrow> u32 list \<Rightarrow> bool" where
  "result_ok nc r ts s \<longleftrightarrow> r \<le> 2 \<and> (r = 0 \<longleftrightarrow> pat_matches nc ts s) \<and> (r = 2 \<longrightarrow> (\<forall>k. \<not> pat_matches nc ts (drop k s)))"

lemma star_iff: "pat_matches nc (Star # ts) s \<longleftrightarrow> (\<exists>k. pat_matches nc ts (drop k s))"
proof (induction s)
  case (Cons x s)
  have "(\<exists>k. pat_matches nc ts (drop k (x # s))) \<longleftrightarrow> pat_matches nc ts (x # s) \<or> (\<exists>k. pat_matches nc ts (drop (Suc k) (x # s)))"
    by (metis drop_0 not0_implies_Suc)
  then show ?case using Cons by simp
qed simp

lemma star_drop: "pat_matches nc (Star # ts) (drop k s) \<Longrightarrow> pat_matches nc (Star # ts) s"
  unfolding star_iff by auto

lemma result_star: "result_ok nc r (Star # ts) s \<longleftrightarrow> r \<le> 2 \<and> (r = 0 \<longleftrightarrow> pat_matches nc (Star # ts) s)"
  using star_drop unfolding result_ok_def by (cases "r = 2") auto

lemma matches_single: "t \<noteq> Star \<Longrightarrow> pat_matches nc (t # ts) s \<longleftrightarrow> s \<noteq> [] \<and> accepts_char nc t (hd s) \<and> pat_matches nc ts (tl s)"
  by (cases s) simp_all

lemma result_step:
  assumes "t \<noteq> Star" "accepts_char nc t x" "result_ok nc r ts s"
  shows "result_ok nc r (t # ts) (x # s)"
proof -
  have "tl (drop k (x # s)) = drop k s" for k by (cases k) (simp_all add: drop_Suc tl_drop)
  then show ?thesis using assms unfolding result_ok_def by (simp add: matches_single)
qed

lemma result_fail: "\<not> pat_matches nc ts s \<Longrightarrow> result_ok nc 1 ts s"
  by (simp add: result_ok_def)

lemma result_no_start: "result_ok nc 2 ts s \<Longrightarrow> t \<noteq> Star \<Longrightarrow> \<not> pat_matches nc (Star # t # ts) (x # s)"
proof
  assume r: "result_ok nc 2 ts s" "t \<noteq> Star" "pat_matches nc (Star # t # ts) (x # s)"
  then obtain k where "pat_matches nc (t # ts) (drop k (x # s))" using star_iff by blast
  then have "pat_matches nc ts (tl (drop k (x # s)))" using r(2) by (simp add: matches_single)
  moreover have "tl (drop k (x # s)) = drop k s" by (cases k) (simp_all add: drop_Suc tl_drop)
  ultimately show False using r(1) by (simp add: result_ok_def)
qed

section \<open>The loops\<close>

declare skip_wild.simps [simp del] search_char.simps [simp del] search_set.simps [simp del] set_loop.simps [simp del]

lemma Utf8Read_eq: "0 \<in> set z \<Longrightarrow> Utf8Read z = READ_UTF8 z"
proof (cases z)
  case (Cons b y)
  assume "0 \<in> set z"
  moreover have "b < 0x80 \<Longrightarrow> \<not> b \<ge> 0xC0" by (auto simp: word_le_nat_alt word_less_nat_alt)
  ultimately show ?thesis using Cons utf8Read_eq [of z] by (auto simp: Utf8Read_def READ_UTF8_def)
qed simp

text \<open>Reading from a terminated text reaches its end or gives the first of its characters.\<close>

lemma text_cases:
  assumes "0 \<in> set z"
  obtains (fin) y where "z = 0 # y" "Utf8Read z = Some (0, y)" "sqlite3Utf8Read z = Some (0, y)" "utf8_chars z = []"
    | (char) c z' where "Utf8Read z = Some (c, z')" "sqlite3Utf8Read z = Some (c, z')" "SQLITE_SKIP_UTF8 z = Some z'"
        "c \<noteq> 0" "0 \<in> set z'" "length z' < length z" "utf8_chars z = c # utf8_chars z'" "hd z \<noteq> 0" "z \<noteq> []"
proof -
  obtain c z' where r: "READ_UTF8 z = Some (c, z')" "length z' < length z" "c = 0 \<longleftrightarrow> hd z = 0" "c \<noteq> 0 \<longrightarrow> 0 \<in> set z'"
    using read_zero_iff [OF assms] by blast
  note e = Utf8Read_eq [OF assms] utf8Read_eq [OF assms] skip_eq_read [OF assms] utf8_chars_Nil [OF assms]
  show ?thesis
  proof (cases "c = 0")
    case True
    then obtain y where "z = 0 # y" using r(3) assms by (cases z) auto
    then show ?thesis using fin e by (simp add: READ_UTF8_def)
  next
    case False
    moreover have "z \<noteq> []" using assms by auto
    ultimately show ?thesis using char [of c z'] e r utf8_chars_Cons [OF r(1)] by simp
  qed
qed

definition matcher :: "bool \<Rightarrow> pat_token list \<Rightarrow> (u8 list \<Rightarrow> nat option) \<Rightarrow> bool" where
  "matcher nc ts m \<longleftrightarrow> (\<forall>s. 0 \<in> set s \<longrightarrow> (\<exists>r. m s = Some r \<and> result_ok nc r ts (utf8_chars s)))"

lemma matcherE:
  assumes "matcher nc ts m" "0 \<in> set s"
  obtains r where "m s = Some r" "result_ok nc r ts (utf8_chars s)"
  using assms unfolding matcher_def by blast

text \<open>One step of a search: the token after the star accepts the character and the rest gives \<open>r\<close>.\<close>

lemma search_step:
  assumes "t \<noteq> Star" "accepts_char nc t x" "result_ok nc r ts s"
    and "r = 1 \<Longrightarrow> result_ok nc r' (Star # t # ts) s" "r \<noteq> 1 \<Longrightarrow> r' = r"
  shows "result_ok nc r' (Star # t # ts) (x # s)"
proof -
  have "r \<le> 2" using assms(3) by (simp add: result_ok_def)
  then consider "r = 0" | "r = 1" | "r = 2" by linarith
  then show ?thesis
  proof cases
    case 1
    then show ?thesis using assms by (simp add: result_star result_ok_def)
  next
    case 2
    then show ?thesis using assms by (simp add: result_star) (simp add: result_ok_def)
  next
    case 3
    then show ?thesis using assms result_no_start [of nc ts s t x] by (simp add: result_star)
  qed
qed

lemma search_skip:
  assumes "t \<noteq> Star" "\<not> accepts_char nc t x" "result_ok nc r (Star # t # ts) s"
  shows "result_ok nc r (Star # t # ts) (x # s)"
  using assms by (simp add: result_star)

lemma search_end: "t \<noteq> Star \<Longrightarrow> result_ok nc 2 (Star # t # ts) []"
  by (simp add: result_star)

lemma search_char_correct:
  assumes "matcher nc ts m" "0x80 \<le> c" "0 \<in> set s"
  shows "\<exists>r. search_char c m s = Some r \<and> result_ok nc r (Star # Lit c # ts) (utf8_chars s)"
  using assms(3)
proof (induction "length s" arbitrary: s rule: less_induct)
  case less
  show ?case using less.prems
  proof (cases rule: text_cases)
    case (fin y)
    then show ?thesis using search_end by (simp add: search_char.simps [of c m "0 # y"])
  next
    case char: (char x s')
    obtain r' where IH: "search_char c m s' = Some r'" "result_ok nc r' (Star # Lit c # ts) (utf8_chars s')"
      using less.hyps char by blast
    show ?thesis
    proof (cases "x = c")
      case True
      obtain r where r: "m s' = Some r" "result_ok nc r ts (utf8_chars s')" using assms(1) char(5) by (rule matcherE)
      have "search_char c m s = Some (if r \<noteq> 1 then r else r')" using char r IH True by (simp add: search_char.simps [of c m s])
      moreover have "result_ok nc (if r \<noteq> 1 then r else r') (Star # Lit c # ts) (utf8_chars s)"
        unfolding char(7) by (rule search_step [OF _ _ r(2)]) (use True IH in auto)
      ultimately show ?thesis by blast
    next
      case False
      then have "search_char c m s = Some r'" using char IH by (simp add: search_char.simps [of c m s])
      moreover have "\<not> accepts_char nc (Lit c) x" using False assms(2) by auto
      ultimately show ?thesis using search_skip [OF _ _ IH(2)] char(7) by auto
    qed
  qed
qed

lemma search_set_correct:
  assumes "matcher nc (t # ts) m" "t \<noteq> Star" "0 \<in> set s"
  shows "\<exists>r. search_set m s = Some r \<and> result_ok nc r (Star # t # ts) (utf8_chars s)"
  using assms(3)
proof (induction "length s" arbitrary: s rule: less_induct)
  case less
  show ?case using less.prems
  proof (cases rule: text_cases)
    case (fin y)
    then show ?thesis using search_end assms(2) by (simp add: search_set.simps [of m "0 # y"])
  next
    case char: (char x s')
    obtain r' where IH: "search_set m s' = Some r'" "result_ok nc r' (Star # t # ts) (utf8_chars s')"
      using less.hyps char by blast
    obtain r where r: "m s = Some r" "result_ok nc r (t # ts) (utf8_chars s)" using assms(1) less.prems by (rule matcherE)
    have "search_set m s = Some (if r \<noteq> 1 then r else r')"
      using char r IH by (subst search_set.simps) (auto split: list.splits)
    moreover have "result_ok nc (if r \<noteq> 1 then r else r') (Star # t # ts) (utf8_chars s)"
    proof -
      have "pat_matches nc (Star # t # ts) (utf8_chars s) \<longleftrightarrow>
          pat_matches nc (t # ts) (utf8_chars s) \<or> pat_matches nc (Star # t # ts) (utf8_chars s')"
        unfolding char(7) by simp
      moreover have "r = 2 \<Longrightarrow> \<not> pat_matches nc (Star # t # ts) (utf8_chars s)"
        using r(2) by (simp add: star_iff result_ok_def)
      ultimately show ?thesis using r(2) IH(2) unfolding result_star by (auto simp: result_ok_def)
    qed
    ultimately show ?thesis by blast
  qed
qed

text \<open>The search by bytes passes over characters that are not ASCII.\<close>

lemma search_stop_high: "(\<forall>b \<in> set bs. 0x80 \<le> b) \<Longrightarrow> (\<forall>b \<in> set zStop. b < 0x80) \<Longrightarrow> search_stop zStop m (bs @ s) = search_stop zStop m s"
  by (induction bs) auto

lemma read_high:
  assumes "READ_UTF8 z = Some (c, z')" "0x80 \<le> hd z"
  shows "(\<exists>bs. z = bs @ z' \<and> (\<forall>b \<in> set bs. 0x80 \<le> b)) \<and> 0x80 \<le> c"
proof -
  obtain b y where z: "z = b # y" "0x80 \<le> b" using assms by (cases z) (auto simp: READ_UTF8_def)
  show ?thesis
  proof (cases "b \<ge> 0xC0")
    case True
    then obtain d where d: "utf8_tail (ucast (sqlite3Utf8Trans1 ! unat (b - 0xC0))) y = (d, z')" "c = utf8_fix d"
      using assms z by (auto simp: READ_UTF8_def split: prod.splits)
    then have "z' = dropWhile continuation y" using snd_utf8_tail by (metis snd_conv)
    then have "z = (b # takeWhile continuation y) @ z'" using z by simp
    moreover have "0x80 \<le> x" if "x \<in> set (takeWhile continuation y)" for x
      using set_takeWhileD [OF that] by (simp add: continuation_iff word_le_nat_alt)
    moreover have "0x80 \<le> utf8_fix d" by (simp add: utf8_fix_def not_less)
    ultimately show ?thesis using z(2) d(2) by (metis set_ConsD)
  next
    case False
    then have "z = [b] @ z'" "c = ucast b" using assms z by (auto simp: READ_UTF8_def)
    moreover have "0x80 \<le> (ucast b :: u32)" using z(2) by (simp add: word_le_nat_alt)
    ultimately show ?thesis using z(2) by (intro conjI exI [of _ "[b]"]) simp_all
  qed
qed

lemma toupper_table:
  "map (\<lambda>n. unat (of_nat n AND NOT (of_nat (ctype_nat n) AND 0x20) :: u8)) [0..<256] =
   map (\<lambda>n. if 97 \<le> n \<and> n \<le> 122 then n - 32 else n) [0..<256]"
  by (simp add: upt_256 ctype_nat_def)

lemma toupper_eq: "unat (sqlite3Toupper b) = (if 97 \<le> unat b \<and> unat b \<le> 122 then unat b - 32 else unat b)"
  using u8_lt [of b] arg_cong [OF toupper_table, of "\<lambda>xs. xs ! unat b"]
  by (simp add: sqlite3Toupper_def ctype_eq)

lemma tolower_eq: "unat (UpperToLower b) = fold_nat (unat b)"
  using u8_lt [of b] by (auto simp: UpperToLower_eq fold_nat_def word_le_nat_alt unat_word_ariths)

lemma stop_bytes_iff:
  assumes "c < 0x80" "b < 0x80"
  shows "b \<in> set (stop_bytes nc (ucast c)) \<longleftrightarrow> accepts_char nc (Lit c) (ucast b)"
proof -
  have c: "unat (ucast c :: u8) = unat c" "unat c < 128" using assms(1) by (simp_all add: unat_code)
  have b: "ucast (ucast b :: u32) = b" "(ucast b :: u32) < 0x80" "c = ucast b \<longleftrightarrow> unat c = unat b"
    using assms(2) by (simp_all add: word_unat_eq_iff word_less_nat_alt unat_ucast_u32_u8)
  show ?thesis
    by (auto simp: stop_bytes_def assms b word_unat_eq_iff [of _ "UpperToLower _"] word_unat_eq_iff [of b] c toupper_eq tolower_eq fold_nat_def)
qed

lemma stop_bytes_ascii: "c < 0x80 \<Longrightarrow> b \<in> set (stop_bytes nc (ucast (c :: u32))) \<Longrightarrow> b < 0x80"
proof -
  assume c: "c < 0x80" and b: "b \<in> set (stop_bytes nc (ucast c))"
  have "unat (ucast c :: u8) < 128" using c by (simp add: unat_code)
  moreover have "unat b \<in> {unat (ucast c :: u8), unat (sqlite3Toupper (ucast c)), unat (UpperToLower (ucast c))}"
    using b by (auto simp: stop_bytes_def split: if_splits)
  ultimately have "unat b < 128" unfolding toupper_eq tolower_eq fold_nat_def by (auto split: if_splits)
  then show ?thesis by (simp add: word_less_nat_alt)
qed

lemma search_stop_correct:
  assumes "matcher nc ts m" "c < 0x80" "c \<noteq> 0" "0 \<in> set s"
  shows "\<exists>r. search_stop (stop_bytes nc (ucast c)) m s = Some r \<and> result_ok nc r (Star # Lit c # ts) (utf8_chars s)"
  using assms(4)
proof (induction "length s" arbitrary: s rule: less_induct)
  case less
  let ?S = "search_stop (stop_bytes nc (ucast c)) m"
  show ?case using less.prems
  proof (cases rule: text_cases)
    case (fin y)
    then show ?thesis using search_end by simp
  next
    case char: (char x s')
    obtain r' where IH: "?S s' = Some r'" "result_ok nc r' (Star # Lit c # ts) (utf8_chars s')"
      using less.hyps char by blast
    obtain b y where s: "s = b # y" "b \<noteq> 0" using char by (cases s) auto
    have rd: "READ_UTF8 s = Some (x, s')" using char(2) utf8Read_eq [OF less.prems] by simp
    show ?thesis
    proof (cases "0x80 \<le> b")
      case True
      then obtain bs where "s = bs @ s'" "\<forall>b \<in> set bs. 0x80 \<le> b" "0x80 \<le> x" using read_high [OF rd] s by auto
      then have "?S s = Some r'" using search_stop_high stop_bytes_ascii [OF assms(2)] IH(1) by metis
      moreover have "\<not> accepts_char nc (Lit c) x" using \<open>0x80 \<le> x\<close> assms(2) by auto
      ultimately show ?thesis using search_skip [OF _ _ IH(2)] char(7) by auto
    next
      case False
      then have b: "b < 0x80" "x = ucast b" "s' = y" using rd s by (auto simp: READ_UTF8_def word_le_nat_alt word_less_nat_alt split: if_splits)
      show ?thesis
      proof (cases "accepts_char nc (Lit c) x")
        case True
        obtain r where r: "m s' = Some r" "result_ok nc r ts (utf8_chars s')" using assms(1) char(5) by (rule matcherE)
        have "?S s = Some (if r \<noteq> 1 then r else r')"
          using s b r IH True stop_bytes_iff [OF assms(2) b(1), of nc] by (simp del: accepts_char.simps)
        moreover have "result_ok nc (if r \<noteq> 1 then r else r') (Star # Lit c # ts) (utf8_chars s)"
          unfolding char(7) by (rule search_step [OF _ True r(2)]) (use IH in auto)
        ultimately show ?thesis by blast
      next
        case False
        then have "?S s = Some r'" using s b IH stop_bytes_iff [OF assms(2) b(1), of nc] by (simp del: accepts_char.simps)
        then show ?thesis using search_skip [OF _ False IH(2)] char(7) by auto
      qed
    qed
  qed
qed

lemma star_star: "pat_matches nc (Star # Star # ts) s \<longleftrightarrow> pat_matches nc (Star # ts) s"
  by (induction s) auto

lemma star_one: "pat_matches nc (Star # One # ts) (x # s) \<longleftrightarrow> pat_matches nc (Star # ts) s"
proof -
  have "tl (drop k (x # s)) = drop k s" for k by (cases k) (simp_all add: drop_Suc tl_drop)
  moreover have "drop k (x # s) \<noteq> [] \<longleftrightarrow> k \<le> length s" for k by auto
  ultimately have "pat_matches nc (Star # One # ts) (x # s) \<longleftrightarrow> (\<exists>k \<le> length s. pat_matches nc ts (drop k s))"
    unfolding star_iff by (simp add: matches_single)
  also have "\<dots> \<longleftrightarrow> (\<exists>k. pat_matches nc ts (drop k s))"
    by (metis drop_all linear order_refl)
  finally show ?thesis by (simp add: star_iff)
qed

text \<open>The tokens of what is left of a pattern once its next character \<open>c\<close> was read.\<close>

definition rest_tokens :: "compareInfo \<Rightarrow> u32 \<Rightarrow> u32 \<Rightarrow> u8 list \<Rightarrow> pat_token list" where
  "rest_tokens I other c p = (if c = 0 then [] else pat_tokens I other (c # utf8_chars p))"

text \<open>The wildcards differ from each other and from an escape character.\<close>

definition wild_ok :: "compareInfo \<Rightarrow> u32 \<Rightarrow> bool" where
  "wild_ok I other \<longleftrightarrow> (matchOne I \<noteq> 0 \<longrightarrow> other \<noteq> ucast (matchOne I) \<and> matchAll I \<noteq> matchOne I) \<and>
     (matchSet I \<noteq> 0 \<longrightarrow> other < 0x80)"

lemma ucast_u8_eq [simp]: "(ucast a :: u32) = ucast b \<longleftrightarrow> a = b" "(ucast a :: u32) = 0 \<longleftrightarrow> a = 0" "0 = (ucast a :: u32) \<longleftrightarrow> a = 0" for a b :: u8
  by (simp_all add: word_unat_eq_iff)

lemma skip_wild_correct:
  assumes "0 \<in> set p" "0 \<in> set s" "wild_ok I other" "matchAll I \<noteq> 0"
  shows "(skip_wild I p s = Some (Inl 2) \<and> \<not> pat_matches nc (Star # pat_tokens I other (utf8_chars p)) (utf8_chars s)) \<or>
    (\<exists>c p' s'. skip_wild I p s = Some (Inr (c, p', s')) \<and> length p' < length p \<and> (c \<noteq> 0 \<longrightarrow> 0 \<in> set p') \<and> 0 \<in> set s' \<and>
       (c \<noteq> 0 \<longrightarrow> c \<noteq> ucast (matchAll I) \<and> c \<noteq> ucast (matchOne I)) \<and>
       (pat_matches nc (Star # pat_tokens I other (utf8_chars p)) (utf8_chars s) \<longleftrightarrow>
        pat_matches nc (Star # rest_tokens I other c p') (utf8_chars s')))"
  using assms(1,2)
proof (induction "length p" arbitrary: p s rule: less_induct)
  case less
  show ?case using less.prems(1)
  proof (cases rule: text_cases)
    case (fin y)
    then have "skip_wild I p s = Some (Inr (0, y, s))" using assms(4) by (subst skip_wild.simps) auto
    then show ?thesis using fin less.prems(2) by (simp add: rest_tokens_def)
  next
    case char: (char c p')
    consider (all) "c = ucast (matchAll I)" "c \<noteq> ucast (matchOne I)" | (one) "c = ucast (matchOne I)" "c \<noteq> ucast (matchAll I)" "matchOne I \<noteq> 0"
      | (other) "c \<noteq> ucast (matchAll I)" "c \<noteq> ucast (matchOne I)"
      using char(4) assms(3,4) by (cases "c = ucast (matchOne I)"; cases "c = ucast (matchAll I)") (auto simp: wild_ok_def)
    then show ?thesis
    proof cases
      case all
      then have sk: "skip_wild I p s = skip_wild I p' s" using char by (subst skip_wild.simps) simp
      have "pat_tokens I other (utf8_chars p) = Star # pat_tokens I other (utf8_chars p')" using char all by simp
      then have "pat_matches nc (Star # pat_tokens I other (utf8_chars p)) (utf8_chars s) \<longleftrightarrow>
          pat_matches nc (Star # pat_tokens I other (utf8_chars p')) (utf8_chars s)" by (simp only: star_star)
      then show ?thesis using less.hyps [OF char(6,5) less.prems(2)] char(6) unfolding sk by (fastforce intro: less_trans)
    next
      case one
      then have t: "pat_tokens I other (utf8_chars p) = One # pat_tokens I other (utf8_chars p')"
        using char assms(3) by (auto simp: wild_ok_def)
      show ?thesis using less.prems(2)
      proof (cases rule: text_cases)
        case (fin y)
        then have "skip_wild I p s = Some (Inl 2)" using char one by (subst skip_wild.simps) simp
        then show ?thesis using t fin by simp
      next
        case s: (char x s')
        then have sk: "skip_wild I p s = skip_wild I p' s'" using char one by (subst skip_wild.simps) simp
        have "pat_matches nc (Star # pat_tokens I other (utf8_chars p)) (utf8_chars s) \<longleftrightarrow>
            pat_matches nc (Star # pat_tokens I other (utf8_chars p')) (utf8_chars s')" unfolding t s(7) by (rule star_one)
        then show ?thesis using less.hyps [OF char(6,5) s(5)] char(6) unfolding sk by (fastforce intro: less_trans)
      qed
    next
      case other
      then have "skip_wild I p s = Some (Inr (c, p', s))" using char by (subst skip_wild.simps) simp
      then show ?thesis using other char less.prems(2) by (simp add: rest_tokens_def)
    qed
  qed
qed

text \<open>Sets. \<open>left c p\<close> is what the code still has to look at: the character \<open>c\<close> it read and the pattern after it.\<close>

definition left :: "u32 \<Rightarrow> u8 list \<Rightarrow> u32 list" where
  "left c p = (if c = 0 then [] else c # utf8_chars p)"

lemma read_left:
  assumes "0 \<in> set p"
  obtains c p' where "sqlite3Utf8Read p = Some (c, p')" "left c p' = utf8_chars p" "c \<noteq> 0 \<longrightarrow> 0 \<in> set p'"
    "length p' < length p" "p \<noteq> []" "c = 0x5D \<longleftrightarrow> hd p = 0x5D" "c = 0 \<longleftrightarrow> hd p = 0"
  using assms
proof (cases rule: text_cases)
  case (fin y)
  then show ?thesis using that [of 0 y] by (simp add: left_def)
next
  case (char c p')
  have r: "READ_UTF8 p = Some (c, p')" using char(2) utf8Read_eq [OF assms] by simp
  have "c = 0x5D \<longleftrightarrow> hd p = 0x5D"
  proof (cases "0x80 \<le> hd p")
    case True
    then show ?thesis using read_high [OF r] by auto
  next
    case False
    then have "c = ucast (hd p)" using r char(9) by (cases p) (auto simp: READ_UTF8_def word_le_nat_alt split: if_splits)
    then show ?thesis using ucast_u8_eq(1) [of "hd p" "0x5D"] by simp
  qed
  then show ?thesis using that [of c p'] char by (simp add: left_def)
qed

definition set_result :: "u32 \<Rightarrow> bool \<Rightarrow> u8 list \<Rightarrow> (set_item list \<times> u32 list) option \<Rightarrow> (u32 \<times> u8 list \<times> bool) option \<Rightarrow> bool" where
  "set_result c seen p spec res \<longleftrightarrow>
     (\<exists>c2 p' seen'. res = Some (c2, p', seen') \<and>
        (case spec of
           None \<Rightarrow> c2 = 0
         | Some (is, r) \<Rightarrow> c2 = 0x5D \<and> 0 \<in> set p' \<and> utf8_chars p' = r \<and> length p' \<le> length p \<and>
             seen' = (seen \<or> (\<exists>i \<in> set is. item_has c i))))"

lemma set_result_cons:
  assumes "set_result c (seen \<or> item_has c i) q spec res" "length q \<le> length p"
  shows "set_result c seen p (map_option (apfst ((#) i)) spec) res"
  using assms unfolding set_result_def by (auto split: option.splits)

lemma set_loop_correct:
  "(c2 \<noteq> 0 \<longrightarrow> 0 \<in> set p) \<Longrightarrow> set_result c seen p (set_items prior (left c2 p)) (set_loop c c2 p prior seen)"
proof (induction "length p" arbitrary: c2 p prior seen rule: less_induct)
  case less
  consider "c2 = 0" | "c2 = 0x5D" | (more) "c2 \<noteq> 0" "c2 \<noteq> 0x5D" by blast
  then show ?case
  proof cases
    case more
    then have p0: "0 \<in> set p" using less.prems by blast
    obtain d p' where d: "sqlite3Utf8Read p = Some (d, p')" "left d p' = utf8_chars p" "d \<noteq> 0 \<longrightarrow> 0 \<in> set p'"
        "length p' < length p" "p \<noteq> []" "d = 0x5D \<longleftrightarrow> hd p = 0x5D" "d = 0 \<longleftrightarrow> hd p = 0"
      using read_left [OF p0] by blast
    show ?thesis
    proof (cases "c2 = 0x2D \<and> d \<noteq> 0x5D \<and> d \<noteq> 0 \<and> prior \<noteq> 0")
      case True
      then obtain e p'' where e: "sqlite3Utf8Read p' = Some (e, p'')" "left e p'' = utf8_chars p'" "e \<noteq> 0 \<longrightarrow> 0 \<in> set p''" "length p'' < length p'"
        using d(3) read_left [of p'] by blast
      have "set_loop c c2 p prior seen = set_loop c e p'' 0 (seen \<or> item_has c (Range prior d))"
        using more True d e by (subst set_loop.simps) (auto simp: word_neq_0_conv [symmetric])
      moreover have "set_items prior (left c2 p) = map_option (apfst ((#) (Range prior d))) (set_items 0 (left e p''))"
      proof -
        have "utf8_chars p = d # utf8_chars p'" using d(2) True by (auto simp: left_def)
        then have "left c2 p = c2 # d # left e p''" using more e(2) by (simp add: left_def [of c2])
        then show ?thesis using more True by simp
      qed
      moreover have "set_result c (seen \<or> item_has c (Range prior d)) p'' (set_items 0 (left e p'')) (set_loop c e p'' 0 (seen \<or> item_has c (Range prior d)))"
        using less.hyps [of p'' e] e d(4) by simp
      ultimately show ?thesis using set_result_cons e(4) d(4) by (metis less_imp_le less_trans)
    next
      case False
      then have sl: "set_loop c c2 p prior seen = set_loop c d p' c2 (seen \<or> item_has c (Single c2))"
        using more d by (subst set_loop.simps) (auto simp: word_neq_0_conv [symmetric])
      have IH: "set_result c (seen \<or> item_has c (Single c2)) p' (set_items c2 (left d p')) (set_loop c d p' c2 (seen \<or> item_has c (Single c2)))"
        using less.hyps [of p' d] d by simp
      show ?thesis
      proof (cases "d = 0")
        case True
        then have "set_items prior (left c2 p) = None" using more d(2) by (simp add: left_def)
        then show ?thesis using IH True unfolding sl by (simp add: left_def set_result_def)
      next
        case d0: False
        then have "set_items prior (left c2 p) = map_option (apfst ((#) (Single c2))) (set_items c2 (left d p'))"
          using more False d(2) [symmetric] by (auto simp: left_def [of c2] left_def [of d] simp del: set_items.simps(2) simp: set_items.simps(2) [of prior])
        then show ?thesis using set_result_cons [OF IH, of p] d(4) unfolding sl by simp
      qed
    qed
  qed (use less.prems in \<open>auto simp: left_def set_result_def set_loop.simps [of c _ p]\<close>)
qed

lemma set_match_correct:
  assumes "0 \<in> set p"
  shows "\<exists>b p'. set_match c p = Some (b, p') \<and>
    (case set_parse (utf8_chars p) of
       None \<Rightarrow> \<not> b
     | Some (neg, is, r) \<Rightarrow> 0 \<in> set p' \<and> utf8_chars p' = r \<and> length p' < length p \<and> b = ((\<exists>i \<in> set is. item_has c i) \<noteq> neg))"
proof -
  define F where "F inv c2 q = Option.bind (if c2 = 0x5D then map_option (\<lambda>(c2, p). (c = 0x5D, c2, p)) (sqlite3Utf8Read q) else Some (False, c2, q))
        (\<lambda>(seen, c2, p). map_option (\<lambda>(c2, p, seen). (c2 \<noteq> 0 \<and> seen \<noteq> inv, p)) (set_loop c c2 p 0 seen))" for inv c2 q
  have body: "\<exists>b p'. F inv c2 q = Some (b, p') \<and>
      (case set_body (left c2 q) of
         None \<Rightarrow> \<not> b
       | Some (is, r) \<Rightarrow> 0 \<in> set p' \<and> utf8_chars p' = r \<and> length p' \<le> length q \<and> b = ((\<exists>i \<in> set is. item_has c i) \<noteq> inv))"
    if q: "c2 \<noteq> 0 \<longrightarrow> 0 \<in> set q" for c2 q inv
  proof (cases "c2 = 0x5D")
    case True
    then have "0 \<in> set q" using q by simp
    then obtain d q' where d: "sqlite3Utf8Read q = Some (d, q')" "left d q' = utf8_chars q" "d \<noteq> 0 \<longrightarrow> 0 \<in> set q'" "length q' < length q"
      using read_left by blast
    have "set_result c False q (map_option (apfst ((#) (Single 0x5D))) (set_items 0 (left d q'))) (set_loop c d q' 0 (c = 0x5D))"
      using set_result_cons [OF set_loop_correct [of d q' c "False \<or> item_has c (Single 0x5D)" 0]] d by simp
    moreover have "set_body (left c2 q) = map_option (apfst ((#) (Single 0x5D))) (set_items 0 (left d q'))"
      using True d(2) by (simp add: set_body_def left_def [of "0x5D"])
    ultimately show ?thesis using True d(1) by (auto simp: F_def set_result_def split: option.splits)
  next
    case False
    have "set_body (left c2 q) = set_items 0 (left c2 q)" using False by (simp add: set_body_def left_def)
    then show ?thesis using False set_loop_correct [OF q, of c False 0] by (auto simp: F_def set_result_def split: option.splits)
  qed
  have whole: ?thesis if w: "set_match c p = F inv x y" "set_parse (utf8_chars p) = map_option (Pair inv) (set_body (left x y))"
      "length y < length p" "x \<noteq> 0 \<longrightarrow> 0 \<in> set y" for inv x y
  proof -
    obtain b p' where b: "F inv x y = Some (b, p')" "case set_body (left x y) of
         None \<Rightarrow> \<not> b
       | Some (is, r) \<Rightarrow> 0 \<in> set p' \<and> utf8_chars p' = r \<and> length p' \<le> length y \<and> b = ((\<exists>i \<in> set is. item_has c i) \<noteq> inv)"
      using body [OF w(4), of inv] by blast
    show ?thesis
    proof (cases "set_body (left x y)")
      case None
      then show ?thesis using w(1,2) b by (intro exI [of _ b] exI [of _ p']) simp
    next
      case (Some ir)
      obtain "is" r where ir: "ir = (is, r)" by (cases ir)
      have sp: "0 \<in> set p'" "utf8_chars p' = r" "length p' \<le> length y" "b = ((\<exists>i \<in> set is. item_has c i) \<noteq> inv)"
        using b(2) Some ir by simp_all
      have "length p' < length p" using sp(3) w(3) by linarith
      then show ?thesis using w(1,2) b(1) sp Some ir by (intro exI [of _ b] exI [of _ p']) simp
    qed
  qed
  obtain c2 q where c2: "sqlite3Utf8Read p = Some (c2, q)" "left c2 q = utf8_chars p" "c2 \<noteq> 0 \<longrightarrow> 0 \<in> set q" "length q < length p"
    using read_left [OF assms] by blast
  show ?thesis
  proof (cases "c2 = 0x5E")
    case True
    then have "0 \<in> set q" using c2(3) by simp
    then obtain d q' where d: "sqlite3Utf8Read q = Some (d, q')" "left d q' = utf8_chars q" "d \<noteq> 0 \<longrightarrow> 0 \<in> set q'" "length q' < length q"
      using read_left by blast
    have "set_parse (utf8_chars p) = map_option (Pair True) (set_body (left d q'))"
      using True c2(2) [symmetric] d(2) by (simp add: set_parse_def left_def [of "0x5E"])
    moreover have "set_match c p = F True d q'" using True c2(1) d(1) by (simp add: set_match_def F_def)
    moreover have "length q' < length p" using d(4) c2(4) by linarith
    ultimately show ?thesis using whole [of True d q'] d(3) by blast
  next
    case False
    have "set_parse (utf8_chars p) = map_option (Pair False) (set_body (left c2 q))"
      using False c2(2) [symmetric] by (simp add: set_parse_def left_def set_body_def)
    moreover have "set_match c p = F False c2 q" using False c2(1) by (simp add: set_match_def F_def)
    ultimately show ?thesis using whole c2(3,4) by blast
  qed
qed

section \<open>The comparison\<close>

lemma fold_zero:
  assumes "c < 0x80" "c \<noteq> 0"
  shows "UpperToLower (ucast (c :: u32)) \<noteq> UpperToLower 0"
  using assms by (auto simp: word_unat_eq_iff [of "UpperToLower _"] tolower_eq fold_nat_def unat_code word_unat_eq_iff)

text \<open>One character of the string against one token, and the rest of the pattern after it.\<close>

lemma char_step:
  assumes "matcher nc ts m" "t \<noteq> Star" "\<not> C 0" "\<And>x. x \<noteq> 0 \<Longrightarrow> C x = accepts_char nc t x" "0 \<in> set s"
  shows "\<exists>r. (case Utf8Read s of None \<Rightarrow> None | Some (c2, s) \<Rightarrow> if C c2 then m s else Some 1) = Some r \<and>
    result_ok nc r (t # ts) (utf8_chars s)"
  using assms(5)
proof (cases rule: text_cases)
  case (fin y)
  then show ?thesis using assms(2,3) result_fail by (simp add: matches_single)
next
  case char: (char x s')
  show ?thesis
  proof (cases "C x")
    case True
    obtain r where r: "m s' = Some r" "result_ok nc r ts (utf8_chars s')" using assms(1) char(5) by (rule matcherE)
    then show ?thesis using char True result_step [OF assms(2) _ r(2), of x] assms(4) by simp
  next
    case False
    then show ?thesis using char assms(2,4) result_fail by (simp add: matches_single)
  qed
qed

lemma compare_step:
  assumes "matcher (noCase I) ts m" "c \<noteq> 0" "0 \<in> set s"
  shows "\<exists>r. (case Utf8Read s of
      None \<Rightarrow> None
    | Some (c2, s) \<Rightarrow>
        if c = c2 \<or> noCase I \<and> UpperToLower (ucast c) = UpperToLower (ucast c2) \<and> c < 0x80 \<and> c2 < 0x80 \<or>
           c = ucast (matchOne I) \<and> \<not> esc \<and> c2 \<noteq> 0
        then m s else Some 1) = Some r \<and>
    result_ok (noCase I) r ((if c = ucast (matchOne I) \<and> \<not> esc then One else Lit c) # ts) (utf8_chars s)"
  using fold_zero [of c] assms(2) by (intro char_step [OF assms(1) _ _ _ assms(3)]) auto

text \<open>A wildcard for any text: after the skipped wildcards, the search for the token that follows.\<close>

lemma literal_search:
  assumes "matcher nc ts m" "c \<noteq> 0" "0 \<in> set s"
  shows "\<exists>r. (if c < 0x80 then search_stop (stop_bytes nc (ucast c)) m s else search_char c m s) = Some r \<and>
    result_ok nc r (Star # Lit c # ts) (utf8_chars s)"
  using search_stop_correct [OF assms(1) _ assms(2,3)] search_char_correct [OF assms(1) _ assms(3), of c] by (simp add: not_less)

lemma star_case:
  assumes "wild_ok I other" "0 \<in> set p" "0 \<in> set s" "matchAll I \<noteq> 0"
    and IH: "\<And>q. 0 \<in> set q \<Longrightarrow> length q \<le> length p \<Longrightarrow> matcher (noCase I) (pat_tokens I other (utf8_chars q)) (m q)"
  shows "\<exists>r. (case skip_wild I p s of
      None \<Rightarrow> None
    | Some (Inl r) \<Rightarrow> Some r
    | Some (Inr (c, p, s)) \<Rightarrow>
        if c = 0 then Some 0
        else if c = other \<and> matchSet I \<noteq> 0 then search_set (m (ucast c # p)) s
        else (case (if c = other then sqlite3Utf8Read p else Some (c, p)) of
                None \<Rightarrow> None
              | Some (c, p) \<Rightarrow>
                  if c = 0 then Some 2
                  else if c < 0x80 then search_stop (stop_bytes (noCase I) (ucast c)) (m p) s
                  else search_char c (m p) s)) = Some r \<and>
    result_ok (noCase I) r (Star # pat_tokens I other (utf8_chars p)) (utf8_chars s)"
proof -
  let ?T = "pat_tokens I other" and ?nc = "noCase I"
  consider (early) "skip_wild I p s = Some (Inl 2)" "\<not> pat_matches ?nc (Star # ?T (utf8_chars p)) (utf8_chars s)"
    | (go) c p' s' where "skip_wild I p s = Some (Inr (c, p', s'))" "length p' < length p" "c \<noteq> 0 \<longrightarrow> 0 \<in> set p'" "0 \<in> set s'"
        "c \<noteq> 0 \<longrightarrow> c \<noteq> ucast (matchAll I) \<and> c \<noteq> ucast (matchOne I)"
        "pat_matches ?nc (Star # ?T (utf8_chars p)) (utf8_chars s) \<longleftrightarrow> pat_matches ?nc (Star # rest_tokens I other c p') (utf8_chars s')"
    using skip_wild_correct [OF assms(2,3,1,4), of ?nc] by blast
  then show ?thesis
  proof cases
    case early
    then show ?thesis by (simp add: result_star)
  next
    case n: (go c p' s')
    have res: "result_ok ?nc r (Star # ?T (utf8_chars p)) (utf8_chars s) \<longleftrightarrow> result_ok ?nc r (Star # rest_tokens I other c p') (utf8_chars s')" for r
      unfolding result_star n(6) ..
    consider (stop) "c = 0" | (set) "c \<noteq> 0" "c = other" "matchSet I \<noteq> 0" | (esc) "c \<noteq> 0" "c = other" "matchSet I = 0"
      | (plain) "c \<noteq> 0" "c \<noteq> other" by blast
    then show ?thesis
    proof cases
      case stop
      have "pat_matches ?nc [Star] (utf8_chars s')" unfolding star_iff by (rule exI [of _ "length (utf8_chars s')"]) simp
      then show ?thesis unfolding result_star n(6) using n(1) stop by (simp add: rest_tokens_def)
    next
      case set
      have b: "ucast (ucast c :: u8) = c" "(ucast c :: u8) < 0x80"
        using set assms(1) by (simp_all add: wild_ok_def word_unat_eq_iff unat_code)
      have q: "0 \<in> set (ucast c # p')" "length (ucast c # p') \<le> length p" using set n(2,3) by simp_all
      have "READ_UTF8 (ucast c # p') = Some (c, p')" using b by (auto simp: READ_UTF8_def word_le_nat_alt word_less_nat_alt)
      then have ch: "utf8_chars (ucast c # p') = c # utf8_chars p'" using utf8_chars_Cons set(1) by blast
      have "\<exists>t ts. ?T (c # utf8_chars p') = t # ts \<and> t \<noteq> Star"
        using set n(5) by (cases "set_parse (utf8_chars p')") auto
      then obtain t ts where t: "?T (utf8_chars (ucast c # p')) = t # ts" "t \<noteq> Star" unfolding ch by blast
      then have "rest_tokens I other c p' = t # ts" using ch set(1) by (simp add: rest_tokens_def)
      then show ?thesis unfolding res using search_set_correct [OF _ t(2) n(4)] IH [OF q] t(1) n(1) set by auto
    next
      case esc
      have p': "0 \<in> set p'" using esc n(3) by simp
      show ?thesis using p'
      proof (cases rule: text_cases)
        case (fin y)
        then have "rest_tokens I other c p' = [Bad]" using esc n(5) by (simp add: rest_tokens_def)
        moreover have "\<not> pat_matches ?nc [Star, Bad] (utf8_chars s')" by (simp add: star_iff matches_single)
        ultimately show ?thesis unfolding result_star n(6) using esc fin n(1) by simp
      next
        case d: (char d p'')
        then have t: "rest_tokens I other c p' = Lit d # ?T (utf8_chars p'')" using esc n(5) by (simp add: rest_tokens_def)
        have "length p'' \<le> length p" using d(6) n(2) by simp
        then show ?thesis unfolding res t using literal_search [OF IH [of p''] d(4) n(4)] d esc n(1) by simp
      qed
    next
      case plain
      have t: "rest_tokens I other c p' = Lit c # ?T (utf8_chars p')" using plain n(5) by (simp add: rest_tokens_def)
      show ?thesis unfolding res t using literal_search [OF IH [of p'] plain(1) n(4)] n plain by simp
    qed
  qed
qed

text \<open>A set of characters.\<close>

lemma set_case:
  assumes "0 \<in> set q" "0 \<in> set s"
    and IH: "\<And>q'. 0 \<in> set q' \<Longrightarrow> length q' \<le> length q \<Longrightarrow> matcher nc (pat_tokens I other (utf8_chars q')) (m q')"
  shows "\<exists>r. (case sqlite3Utf8Read s of
      None \<Rightarrow> None
    | Some (c, s) \<Rightarrow>
        if c = 0 then Some 1
        else (case set_match c q of None \<Rightarrow> None | Some (b, p) \<Rightarrow> if b then m p s else Some 1)) = Some r \<and>
    result_ok nc r
      (case set_parse (utf8_chars q) of None \<Rightarrow> [Bad] | Some (neg, is, r) \<Rightarrow> InSet neg is # pat_tokens I other r)
      (utf8_chars s)"
  using assms(2)
proof (cases rule: text_cases)
  case (fin y)
  then show ?thesis using result_fail by (cases "set_parse (utf8_chars q)") auto
next
  case s: (char x s')
  obtain b p' where b: "set_match x q = Some (b, p')" "case set_parse (utf8_chars q) of
       None \<Rightarrow> \<not> b
     | Some (neg, is, r) \<Rightarrow> 0 \<in> set p' \<and> utf8_chars p' = r \<and> length p' < length q \<and> b = ((\<exists>i \<in> set is. item_has x i) \<noteq> neg)"
    using set_match_correct [OF assms(1), of x] by blast
  show ?thesis
  proof (cases "set_parse (utf8_chars q)")
    case None
    then show ?thesis using s b result_fail [of nc "[Bad]"] by simp
  next
    case (Some v)
    then obtain neg "is" where v: "v = (neg, is, utf8_chars p')" "0 \<in> set p'" "length p' < length q" "b = accepts_char nc (InSet neg is) x"
      using b(2) by (cases v) auto
    obtain r where r: "m p' s' = Some r" "result_ok nc r (pat_tokens I other (utf8_chars p')) (utf8_chars s')"
      using IH [OF v(2)] v(3) s(5) matcherE by (metis less_imp_le)
    show ?thesis
    proof (cases b)
      case True
      then show ?thesis using s b(1) Some v r result_step [OF _ _ r(2), of "InSet neg is" x] by simp
    next
      case False
      then show ?thesis using s b(1) Some v result_fail by simp
    qed
  qed
qed

lemma pattern_loop_correct:
  assumes "wild_ok I other" "0 \<in> set p" "0 \<in> set s" "length p \<le> f"
  shows "\<exists>r. pattern_loop f I other p s = Some r \<and>
    result_ok (noCase I) r (pat_tokens I other (utf8_chars p)) (utf8_chars s)"
  using assms(2-)
proof (induction f arbitrary: p s)
  case (Suc f)
  let ?T = "pat_tokens I other" and ?nc = "noCase I"
  show ?case using Suc.prems(1)
  proof (cases rule: text_cases)
    case (fin y)
    then have "pattern_loop (Suc f) I other p s = Some (if utf8_chars s = [] then 0 else 1)"
      using utf8_chars_Nil [OF Suc.prems(2)] Suc.prems(2) by (cases s) auto
    then show ?thesis using fin by (auto simp: result_ok_def)
  next
    case char: (char c q)
    have IH: "matcher ?nc (?T (utf8_chars q')) (pattern_loop f I other q')" if "0 \<in> set q'" "length q' \<le> length q" for q'
      using Suc.IH that char(6) Suc.prems(3) unfolding matcher_def by auto
    consider (star) "c = ucast (matchAll I)" | (set) "c \<noteq> ucast (matchAll I)" "c = other" "matchSet I \<noteq> 0"
      | (esc) "c \<noteq> ucast (matchAll I)" "c = other" "matchSet I = 0" | (plain) "c \<noteq> ucast (matchAll I)" "c \<noteq> other"
      by blast
    then show ?thesis
    proof cases
      case star
      then have "matchAll I \<noteq> 0" using char(4) by auto
      then show ?thesis using star_case [OF assms(1) char(5) Suc.prems(2) _ IH] char star by simp
    next
      case set
      then show ?thesis using set_case [OF char(5) Suc.prems(2) IH] char by simp
    next
      case esc
      show ?thesis using char(5)
      proof (cases rule: text_cases)
        case (fin y)
        then show ?thesis using char esc result_fail [of ?nc "[Bad]"] by (simp add: matches_single)
      next
        case d: (char d p')
        have "matcher ?nc (?T (utf8_chars p')) (pattern_loop f I other p')" using IH d(5,6) by simp
        then show ?thesis
          using compare_step [of I "?T (utf8_chars p')" "pattern_loop f I other p'" d s True] Suc.prems(2) char esc d
          by simp
      qed
    next
      case plain
      have "?T (utf8_chars p) = (if c = ucast (matchOne I) \<and> \<not> False then One else Lit c) # ?T (utf8_chars q)"
        using char plain by simp
      then show ?thesis using compare_step [OF IH [OF char(5) order_refl] char(4) Suc.prems(2), of False] char plain by simp
    qed
  qed
qed simp

lemma patternCompare_correct:
  assumes "wild_ok I other"
  shows "\<exists>r. patternCompare (p @ [0]) (s @ [0]) I other = Some r \<and>
    result_ok (noCase I) r (pat_tokens I other (utf8_chars (p @ [0]))) (utf8_chars (s @ [0]))"
  unfolding patternCompare_def by (rule pattern_loop_correct [OF assms]) simp_all

text \<open>The SQL function with an ESCAPE clause.\<close>

lemma likeFunc_escape:
  assumes "length P \<le> limit" "I = likeInfoNorm \<or> I = likeInfoAlt"
  shows "likeFunc limit I (ArgText P) (ArgText S) (Some (ArgText E)) =
    Some (case utf8_chars (E @ [0]) of
        [e] \<Rightarrow> LikeInt (pat_matches (noCase I)
          (pat_tokens (I\<lparr>matchAll := if e = 0x25 then 0 else 0x25, matchOne := if e = 0x5F then 0 else 0x5F\<rparr>) e
            (utf8_chars (P @ [0]))) (utf8_chars (S @ [0])))
      | _ \<Rightarrow> LikeError ''ESCAPE expression must be a single character'')"
proof -
  have len: "sqlite3Utf8CharLen (E @ [0]) None = Some (length (utf8_chars (E @ [0])))"
    using charlen_loop_eq [of "E @ [0]" "length (E @ [0]) + 1" 0] by (simp add: sqlite3Utf8CharLen_def)
  have I: "matchAll I = 0x25" "matchOne I = 0x5F" "matchSet I = 0" using assms(2) by (auto simp: likeInfoNorm_def likeInfoAlt_def)
  show ?thesis
  proof (cases "\<exists>e. utf8_chars (E @ [0]) = [e]")
    case True
    then obtain e where e: "utf8_chars (E @ [0]) = [e]" by blast
    have "0 \<in> set (E @ [0])" by simp
    then obtain z where rd: "sqlite3Utf8Read (E @ [0]) = Some (e, z)" by (cases rule: text_cases) (use e in auto)
    let ?J = "I\<lparr>matchAll := if e = 0x25 then 0 else 0x25, matchOne := if e = 0x5F then 0 else 0x5F\<rparr>"
    have "wild_ok ?J e" using I by (auto simp: wild_ok_def)
    then show ?thesis using patternCompare_correct [of ?J e P S] assms(1) e len rd I
      by (auto simp: likeFunc_def result_ok_def Let_def)
  next
    case False
    then have "length (utf8_chars (E @ [0])) \<noteq> 1" by (auto simp: length_Suc_conv)
    then show ?thesis using assms(1) len by (auto simp: likeFunc_def split: list.splits)
  qed
qed

end
