(* ===== verification/Sqlite_Mem.thy ===== *)
theory Sqlite_Mem
  imports Sqlite_Utf "HOL-Library.Multiset"
begin

text \<open>
  Value cells of the virtual machine, \<^verbatim>\<open>vdbemem.c\<close> of the bundled SQLite (\<^verbatim>\<open>sqlite3/sqlite3.c\<close>), with the conversion
  of their text encoding in \<^verbatim>\<open>utf.c\<close>: the union of text, blob and number, the flags that say which parts
  are valid and who owns the memory, and the operations that change them. They keep the
  invariants that the debug build asserts, stay inside their buffers, and call the destructor of a
  borrowed buffer exactly once.
\<close>

section \<open>Model\<close>

subsection \<open>Flags\<close>

definition MEM_Null :: u16 where "MEM_Null = 0x0001"
definition MEM_Str :: u16 where "MEM_Str = 0x0002"
definition MEM_Int :: u16 where "MEM_Int = 0x0004"
definition MEM_Real :: u16 where "MEM_Real = 0x0008"
definition MEM_Blob :: u16 where "MEM_Blob = 0x0010"
definition MEM_IntReal :: u16 where "MEM_IntReal = 0x0020"
definition MEM_AffMask :: u16 where "MEM_AffMask = 0x003f"
definition MEM_Cleared :: u16 where "MEM_Cleared = 0x0100"
definition MEM_Term :: u16 where "MEM_Term = 0x0200"
definition MEM_Zero :: u16 where "MEM_Zero = 0x0400"
definition MEM_Subtype :: u16 where "MEM_Subtype = 0x0800"
definition MEM_Dyn :: u16 where "MEM_Dyn = 0x1000"
definition MEM_Static :: u16 where "MEM_Static = 0x2000"
definition MEM_Ephem :: u16 where "MEM_Ephem = 0x4000"
definition MEM_Agg :: u16 where "MEM_Agg = 0x8000"

definition has :: "u16 \<Rightarrow> u16 \<Rightarrow> bool" where
  "has f m \<longleftrightarrow> f AND m \<noteq> 0"

subsection \<open>Cells\<close>

text \<open>
  Where \<^verbatim>\<open>Mem.z\<close> points: nowhere, to the cell's own allocation \<^verbatim>\<open>zMalloc\<close>, or to memory of somebody else, given
  by its address and the bytes that can be accessed there.
\<close>

datatype mem_ptr = Null | Own | Ext nat "u8 list"

datatype destructor = SQLITE_STATIC | SQLITE_TRANSIENT | SQLITE_DYNAMIC | Free | RCStrUnref | Noop | Custom nat

text \<open>The union \<^verbatim>\<open>MemValue\<close>: a real number by its 64-bit image, the definition of an aggregate without its contents.\<close>

datatype mem_value = U_r u64 | U_i u64 | U_nZero nat | U_zPType string | U_pDef

record Mem =
  mem_u :: mem_value
  mem_z :: mem_ptr
  mem_n :: nat
  mem_flags :: u16
  mem_enc :: nat
  mem_eSubtype :: u8
  mem_zMalloc :: "u8 list"
  mem_xDel :: destructor

text \<open>
  \<open>mem_zMalloc\<close> holds the bytes of the own allocation, so that \<^verbatim>\<open>szMalloc\<close> is its length, 0 for none.
  The surroundings of a cell: the allocator, which gives a block with arbitrary contents or fails,
  the finalizer of an aggregate, and the limit on the length of a value.
\<close>

record mem_env =
  me_alloc :: "nat \<Rightarrow> u8 list option"
  me_finalize :: "Mem \<Rightarrow> Mem \<times> mem_ptr list"
  me_limit :: nat

definition mem_bytes :: "Mem \<Rightarrow> u8 list" where
  "mem_bytes p = (case mem_z p of Null \<Rightarrow> [] | Own \<Rightarrow> mem_zMalloc p | Ext a b \<Rightarrow> b)"

definition put_bytes :: "u8 list \<Rightarrow> Mem \<Rightarrow> Mem" where
  "put_bytes b p =
     (case mem_z p of Null \<Rightarrow> p | Own \<Rightarrow> p\<lparr>mem_zMalloc := b\<rparr> | Ext a _ \<Rightarrow> p\<lparr>mem_z := Ext a b\<rparr>)"

text \<open>Storing bytes from index \<open>i\<close> on; \<open>None\<close> when they do not fit.\<close>

definition store :: "nat \<Rightarrow> u8 list \<Rightarrow> u8 list \<Rightarrow> u8 list option" where
  "store i v b = (if i + length v \<le> length b then Some (take i b @ v @ drop (i + length v) b) else None)"

definition mem_store :: "nat \<Rightarrow> u8 list \<Rightarrow> Mem \<Rightarrow> Mem option" where
  "mem_store i v p = map_option (\<lambda>b. put_bytes b p) (store i v (mem_bytes p))"

definition add_flags :: "u16 \<Rightarrow> Mem \<Rightarrow> Mem" where
  "add_flags m p = p\<lparr>mem_flags := mem_flags p OR m\<rparr>"

definition del_flags :: "u16 \<Rightarrow> Mem \<Rightarrow> Mem" where
  "del_flags m p = p\<lparr>mem_flags := mem_flags p AND NOT m\<rparr>"

subsection \<open>Release\<close>

text \<open>
  The results carry the list of pointers that were passed to a destructor.
\<close>

definition VdbeMemDynamic :: "Mem \<Rightarrow> bool" where
  "VdbeMemDynamic p \<longleftrightarrow> has (mem_flags p) (MEM_Agg OR MEM_Dyn)"

definition vdbeMemClearExternAndSetNull :: "mem_env \<Rightarrow> Mem \<Rightarrow> Mem \<times> mem_ptr list" where
  "vdbeMemClearExternAndSetNull E p =
     (case (if has (mem_flags p) MEM_Agg then me_finalize E p else (p, [])) of
        (p, w) \<Rightarrow> (p\<lparr>mem_flags := MEM_Null\<rparr>, w @ (if has (mem_flags p) MEM_Dyn then [mem_z p] else [])))"

definition vdbeMemClear :: "mem_env \<Rightarrow> Mem \<Rightarrow> Mem \<times> mem_ptr list" where
  "vdbeMemClear E p =
     (case (if VdbeMemDynamic p then vdbeMemClearExternAndSetNull E p else (p, [])) of
        (p, w) \<Rightarrow> (p\<lparr>mem_zMalloc := [], mem_z := Null\<rparr>, w))"

definition sqlite3VdbeMemRelease :: "mem_env \<Rightarrow> Mem \<Rightarrow> Mem \<times> mem_ptr list" where
  "sqlite3VdbeMemRelease E p =
     (if VdbeMemDynamic p \<or> mem_zMalloc p \<noteq> [] then vdbeMemClear E p else (p, []))"

definition sqlite3VdbeMemSetNull :: "mem_env \<Rightarrow> Mem \<Rightarrow> Mem \<times> mem_ptr list" where
  "sqlite3VdbeMemSetNull E p =
     (if VdbeMemDynamic p then vdbeMemClearExternAndSetNull E p else (p\<lparr>mem_flags := MEM_Null\<rparr>, []))"

subsection \<open>Growth\<close>

type_synonym mem_result = "(int \<times> Mem \<times> mem_ptr list) option"

text \<open>The end of a growth once the new block has its contents.\<close>

definition grown :: "u8 list \<Rightarrow> Mem \<Rightarrow> mem_result" where
  "grown b p =
     Some (0, del_flags (MEM_Dyn OR MEM_Ephem OR MEM_Static) (p\<lparr>mem_zMalloc := b, mem_z := Own\<rparr>),
           if has (mem_flags p) MEM_Dyn then [mem_z p] else [])"

definition sqlite3VdbeMemGrow :: "mem_env \<Rightarrow> Mem \<Rightarrow> nat \<Rightarrow> bool \<Rightarrow> mem_result" where
  "sqlite3VdbeMemGrow E p n bPreserve =
     (case me_alloc E n of
        None \<Rightarrow>
          (case sqlite3VdbeMemSetNull E p of (p, w) \<Rightarrow> Some (7, p\<lparr>mem_z := Null, mem_zMalloc := []\<rparr>, w))
      | Some b \<Rightarrow>
          if mem_zMalloc p \<noteq> [] \<and> bPreserve \<and> mem_z p = Own
          then grown (take (length b) (mem_zMalloc p) @ drop (length (mem_zMalloc p)) b) p
          else if bPreserve \<and> mem_z p \<noteq> Null
          then if mem_n p \<le> length (mem_bytes p)
               then Option.bind (store 0 (take (mem_n p) (mem_bytes p)) b) (\<lambda>b. grown b p)
               else None
          else grown b p)"

definition sqlite3VdbeMemClearAndResize :: "mem_env \<Rightarrow> Mem \<Rightarrow> nat \<Rightarrow> mem_result" where
  "sqlite3VdbeMemClearAndResize E p szNew =
     (if length (mem_zMalloc p) < szNew then sqlite3VdbeMemGrow E p szNew False
      else Some (0, p\<lparr>mem_z := Own, mem_flags := mem_flags p AND (MEM_Null OR MEM_Int OR MEM_Real OR MEM_IntReal)\<rparr>, []))"

text \<open>The result is the answer of the function, then the cell.\<close>

definition sqlite3VdbeMemZeroTerminateIfAble :: "Mem \<Rightarrow> (bool \<times> Mem) option" where
  "sqlite3VdbeMemZeroTerminateIfAble p =
     (if mem_flags p AND (MEM_Str OR MEM_Term OR MEM_Ephem OR MEM_Static) \<noteq> MEM_Str then Some (False, p)
      else if mem_enc p \<noteq> 1 then Some (False, p)
      else if has (mem_flags p) MEM_Dyn
      then if mem_xDel p = Free \<and> length (mem_bytes p) \<ge> mem_n p + 1
           then map_option (\<lambda>p. (True, add_flags MEM_Term p)) (mem_store (mem_n p) [0] p)
           else if mem_xDel p = RCStrUnref then Some (True, add_flags MEM_Term p)
           else Some (False, p)
      else if length (mem_zMalloc p) \<ge> mem_n p + 1
      then map_option (\<lambda>p. (True, add_flags MEM_Term p)) (mem_store (mem_n p) [0] p)
      else Some (False, p))"

definition then_do :: "mem_result \<Rightarrow> (Mem \<Rightarrow> mem_result) \<Rightarrow> mem_result" where
  "then_do r f =
     (case r of
        None \<Rightarrow> None
      | Some (rc, p, w) \<Rightarrow>
          if rc \<noteq> 0 then Some (rc, p, w)
          else map_option (\<lambda>(rc, p, w'). (rc, p, w @ w')) (f p))"

definition finish :: "Mem option \<Rightarrow> mem_result" where
  "finish r = map_option (\<lambda>p. (0, p, [])) r"

definition vdbeMemAddTerminator :: "mem_env \<Rightarrow> Mem \<Rightarrow> mem_result" where
  "vdbeMemAddTerminator E p =
     then_do (sqlite3VdbeMemGrow E p (mem_n p + 3) True)
       (\<lambda>p. finish (map_option (add_flags MEM_Term) (mem_store (mem_n p) [0, 0, 0] p)))"

definition mem_nZero :: "Mem \<Rightarrow> nat" where
  "mem_nZero p = (case mem_u p of U_nZero k \<Rightarrow> k | _ \<Rightarrow> 0)"

definition sqlite3VdbeMemExpandBlob :: "mem_env \<Rightarrow> Mem \<Rightarrow> mem_result" where
  "sqlite3VdbeMemExpandBlob E p =
     (let nByte = mem_n p + mem_nZero p
      in if nByte = 0 \<and> \<not> has (mem_flags p) MEM_Blob then Some (0, p, [])
         else then_do (sqlite3VdbeMemGrow E p (if nByte = 0 then 1 else nByte) True)
                (\<lambda>p. finish (map_option
                   (\<lambda>q. del_flags (MEM_Zero OR MEM_Term) (q\<lparr>mem_n := mem_n p + mem_nZero p\<rparr>))
                   (mem_store (mem_n p) (replicate (mem_nZero p) 0) p))))"

definition sqlite3VdbeMemMakeWriteable :: "mem_env \<Rightarrow> Mem \<Rightarrow> mem_result" where
  "sqlite3VdbeMemMakeWriteable E p =
     then_do
       (if has (mem_flags p) (MEM_Str OR MEM_Blob)
        then then_do (if has (mem_flags p) MEM_Zero then sqlite3VdbeMemExpandBlob E p else Some (0, p, []))
               (\<lambda>p. if mem_zMalloc p = [] \<or> mem_z p \<noteq> Own then vdbeMemAddTerminator E p else Some (0, p, []))
        else Some (0, p, []))
       (\<lambda>p. Some (0, del_flags MEM_Ephem p, []))"

definition sqlite3VdbeMemNulTerminate :: "mem_env \<Rightarrow> Mem \<Rightarrow> mem_result" where
  "sqlite3VdbeMemNulTerminate E p =
     (if mem_flags p AND (MEM_Term OR MEM_Str) \<noteq> MEM_Str then Some (0, p, []) else vdbeMemAddTerminator E p)"

subsection \<open>Encodings\<close>

text \<open>Encodings are 1 for UTF-8, 2 and 3 for little-endian and big-endian UTF-16.\<close>

definition utf16_reader :: "nat \<Rightarrow> u8 list \<Rightarrow> (u32 \<times> u8 list) option" where
  "utf16_reader enc = (if enc = 2 then READ_UTF16LE else READ_UTF16BE)"

definition utf16_writer :: "nat \<Rightarrow> u32 \<Rightarrow> u8 list" where
  "utf16_writer enc = (if enc = 2 then WRITE_UTF16LE else WRITE_UTF16BE)"

definition translated :: "mem_env \<Rightarrow> nat \<Rightarrow> u8 list \<Rightarrow> u8 list \<Rightarrow> Mem \<Rightarrow> mem_result" where
  "translated E desiredEnc out zOut p =
     map_option
       (\<lambda>b. let c = MEM_Str OR MEM_Term OR (mem_flags p AND (MEM_AffMask OR MEM_Subtype))
            in case sqlite3VdbeMemRelease E (p\<lparr>mem_n := length out\<rparr>) of
                 (p, w) \<Rightarrow> (0, p\<lparr>mem_flags := c, mem_enc := desiredEnc, mem_z := Own, mem_zMalloc := b\<rparr>, w))
       (store 0 (out @ (if desiredEnc = 1 then [0] else [0, 0])) zOut)"

definition sqlite3VdbeMemTranslate :: "mem_env \<Rightarrow> Mem \<Rightarrow> nat \<Rightarrow> mem_result" where
  "sqlite3VdbeMemTranslate E p desiredEnc =
     (if mem_enc p \<noteq> 1 \<and> desiredEnc \<noteq> 1
      then then_do (sqlite3VdbeMemMakeWriteable E p)
             (\<lambda>p. let k = mem_n p - mem_n p mod 2
                  in finish (if k \<le> length (mem_bytes p)
                             then Some ((put_bytes (swap_pairs (take k (mem_bytes p)) @ drop k (mem_bytes p)) p)
                                          \<lparr>mem_enc := desiredEnc\<rparr>)
                             else None))
      else let p = (if desiredEnc = 1 then p\<lparr>mem_n := mem_n p - mem_n p mod 2\<rparr> else p);
               len = 2 * mem_n p + (if desiredEnc = 1 then 1 else 2)
           in case me_alloc E len of
                None \<Rightarrow> Some (7, p, [])
              | Some zOut \<Rightarrow>
                  if mem_n p \<le> length (mem_bytes p)
                  then Option.bind
                         (recode (mem_n p)
                           (if mem_enc p = 1 then READ_UTF8 else utf16_reader (mem_enc p))
                           (if mem_enc p = 1 then utf16_writer desiredEnc else WRITE_UTF8)
                           (take (mem_n p) (mem_bytes p)))
                         (\<lambda>out. translated E desiredEnc out zOut p)
                  else None)"

definition sqlite3VdbeMemHandleBom :: "mem_env \<Rightarrow> Mem \<Rightarrow> mem_result" where
  "sqlite3VdbeMemHandleBom E p =
     (if mem_n p > 1
      then (case mem_bytes p of
              b1 # b2 # _ \<Rightarrow>
                let bom = (if b1 = 0xFF \<and> b2 = 0xFE then 2 else if b1 = 0xFE \<and> b2 = 0xFF then 3 else 0)
                in if bom \<noteq> 0
                   then then_do (sqlite3VdbeMemMakeWriteable E p)
                          (\<lambda>p. finish (map_option
                             (\<lambda>q. (add_flags MEM_Term q)\<lparr>mem_n := mem_n p - 2, mem_enc := bom\<rparr>)
                             (mem_store 0 (take (mem_n p - 2) (drop 2 (mem_bytes p)) @ [0, 0]) p)))
                   else Some (0, p, [])
            | _ \<Rightarrow> None)
      else Some (0, p, []))"

definition sqlite3VdbeChangeEncoding :: "mem_env \<Rightarrow> Mem \<Rightarrow> nat \<Rightarrow> mem_result" where
  "sqlite3VdbeChangeEncoding E p desiredEnc =
     (if \<not> has (mem_flags p) MEM_Str then Some (0, p\<lparr>mem_enc := desiredEnc\<rparr>, [])
      else if mem_enc p = desiredEnc then Some (0, p, [])
      else sqlite3VdbeMemTranslate E p desiredEnc)"

subsection \<open>New values\<close>

definition sqlite3VdbeMemSetInt64 :: "mem_env \<Rightarrow> Mem \<Rightarrow> u64 \<Rightarrow> Mem \<times> mem_ptr list" where
  "sqlite3VdbeMemSetInt64 E p val =
     (if VdbeMemDynamic p
      then (case sqlite3VdbeMemSetNull E p of (p, w) \<Rightarrow> (p\<lparr>mem_u := U_i val, mem_flags := MEM_Int\<rparr>, w))
      else (p\<lparr>mem_u := U_i val, mem_flags := MEM_Int\<rparr>, []))"

definition sqlite3VdbeMemSetZeroBlob :: "mem_env \<Rightarrow> Mem \<Rightarrow> int \<Rightarrow> Mem \<times> mem_ptr list" where
  "sqlite3VdbeMemSetZeroBlob E p n =
     (case sqlite3VdbeMemRelease E p of
        (p, w) \<Rightarrow>
          (p\<lparr>mem_flags := MEM_Blob OR MEM_Zero, mem_n := 0, mem_u := U_nZero (nat n), mem_enc := 1, mem_z := Null\<rparr>, w))"

text \<open>A pointer value; the source asserts that the cell is NULL before.\<close>

definition sqlite3VdbeMemSetPointer ::
    "mem_env \<Rightarrow> Mem \<Rightarrow> mem_ptr \<Rightarrow> string option \<Rightarrow> destructor option \<Rightarrow> Mem \<times> mem_ptr list" where
  "sqlite3VdbeMemSetPointer E p pPtr zPType xDestructor =
     (case vdbeMemClear E p of
        (p, w) \<Rightarrow>
          (p\<lparr>mem_u := U_zPType (case zPType of None \<Rightarrow> [] | Some t \<Rightarrow> t), mem_z := pPtr,
             mem_flags := MEM_Null OR MEM_Dyn OR MEM_Subtype OR MEM_Term, mem_eSubtype := 0x70,
             mem_xDel := (case xDestructor of None \<Rightarrow> Noop | Some d \<Rightarrow> d)\<rparr>, w))"

definition IsNaN :: "u64 \<Rightarrow> bool" where
  "IsNaN x \<longleftrightarrow> x AND push_bit 52 0x7ff = push_bit 52 0x7ff \<and> x AND (push_bit 52 1 - 1) \<noteq> 0"

definition sqlite3VdbeMemSetDouble :: "mem_env \<Rightarrow> Mem \<Rightarrow> u64 \<Rightarrow> Mem \<times> mem_ptr list" where
  "sqlite3VdbeMemSetDouble E p val =
     (case sqlite3VdbeMemSetNull E p of
        (p, w) \<Rightarrow> (if IsNaN val then p else p\<lparr>mem_u := U_r val, mem_flags := MEM_Real\<rparr>, w))"

text \<open>The length of zero-terminated text: for UTF-16 the search stops once the limit is passed.\<close>

fun strlen :: "u8 list \<Rightarrow> nat option" where
  "strlen [] = None"
| "strlen (b # z) = (if b = 0 then Some 0 else map_option Suc (strlen z))"

fun strlen16 :: "nat \<Rightarrow> nat \<Rightarrow> u8 list \<Rightarrow> nat option" where
  "strlen16 lim k (a # b # z) = (if k \<le> lim \<and> \<not> (a = 0 \<and> b = 0) then strlen16 lim (k + 2) z else Some k)"
| "strlen16 lim k z = (if k \<le> lim then None else Some k)"

definition give_away :: "destructor \<Rightarrow> nat \<Rightarrow> u8 list \<Rightarrow> mem_ptr list" where
  "give_away xDel a z =
     (if xDel \<in> {SQLITE_STATIC, SQLITE_TRANSIENT, SQLITE_DYNAMIC} then [] else [Ext a z])"

text \<open>
  Storing text or a blob. \<open>z\<close> is \<open>None\<close> for a null pointer; a negative \<^verbatim>\<open>n\<close> is \<open>None\<close>. A buffer passed with
  \<^verbatim>\<open>SQLITE_DYNAMIC\<close> becomes the own allocation of the cell; \<^verbatim>\<open>sqlite3VdbeMemSetText\<close> then clears \<^verbatim>\<open>xDel\<close>,
  \<^verbatim>\<open>sqlite3VdbeMemSetStr\<close> leaves it. \<^verbatim>\<open>SQLITE_STATIC\<close> is the null destructor.
\<close>

definition take_pointer :: "mem_env \<Rightarrow> bool \<Rightarrow> Mem \<Rightarrow> nat \<Rightarrow> u8 list \<Rightarrow> destructor \<Rightarrow> u16 \<Rightarrow> u16 \<times> Mem \<times> mem_ptr list" where
  "take_pointer E clear p a z xDel flags =
     (case sqlite3VdbeMemRelease E p of
        (p, w) \<Rightarrow>
          if xDel = SQLITE_DYNAMIC
          then (flags, p\<lparr>mem_z := Own, mem_zMalloc := z, mem_xDel := if clear then SQLITE_STATIC else mem_xDel p\<rparr>, w)
          else (flags OR (if xDel = SQLITE_STATIC then MEM_Static else MEM_Dyn),
                p\<lparr>mem_z := Ext a z, mem_xDel := xDel\<rparr>, w))"

definition sqlite3VdbeMemSetStr ::
    "mem_env \<Rightarrow> Mem \<Rightarrow> (nat \<times> u8 list) option \<Rightarrow> nat option \<Rightarrow> nat \<Rightarrow> destructor \<Rightarrow> mem_result" where
  "sqlite3VdbeMemSetStr E p zz n enc xDel =
     (case zz of
        None \<Rightarrow> (case sqlite3VdbeMemSetNull E p of (p, w) \<Rightarrow> Some (0, p, w))
      | Some (a, z) \<Rightarrow>
          Option.bind (case n of Some k \<Rightarrow> Some k | None \<Rightarrow> if enc = 1 then strlen z else strlen16 (me_limit E) 0 z) (\<lambda>nByte.
          let flags = (if n = None then MEM_Str OR MEM_Term else if enc = 0 then MEM_Blob else MEM_Str);
              enc = (if enc = 0 then 1 else enc)
          in if nByte > me_limit E
             then (case sqlite3VdbeMemSetNull E p of (p, w) \<Rightarrow> Some (18, p, give_away xDel a z @ w))
             else then_do
                    (if xDel = SQLITE_TRANSIENT
                     then let nAlloc = nByte + (if has flags MEM_Term then (if enc = 1 then 1 else 2) else 0)
                          in then_do (sqlite3VdbeMemClearAndResize E p (max nAlloc 32))
                               (\<lambda>p. finish (if nAlloc \<le> length z
                                            then map_option (\<lambda>p. p\<lparr>mem_n := nByte mod 2 ^ 31, mem_flags := flags, mem_enc := enc\<rparr>)
                                                   (mem_store 0 (take nAlloc z) p)
                                            else None))
                     else (case take_pointer E False p a z xDel flags of
                             (flags, p, w) \<Rightarrow>
                               Some (0, p\<lparr>mem_n := nByte mod 2 ^ 31, mem_flags := flags, mem_enc := enc\<rparr>, w)))
                    (\<lambda>p. if enc > 1 then sqlite3VdbeMemHandleBom E p else Some (0, p, []))))"

definition sqlite3VdbeMemSetText ::
    "mem_env \<Rightarrow> Mem \<Rightarrow> (nat \<times> u8 list) option \<Rightarrow> nat option \<Rightarrow> destructor \<Rightarrow> mem_result" where
  "sqlite3VdbeMemSetText E p zz n xDel =
     (case zz of
        None \<Rightarrow> (case sqlite3VdbeMemSetNull E p of (p, w) \<Rightarrow> Some (0, p, w))
      | Some (a, z) \<Rightarrow>
          Option.bind (case n of Some k \<Rightarrow> Some k | None \<Rightarrow> strlen z) (\<lambda>nByte.
          let flags = (if n = None then MEM_Str OR MEM_Term else MEM_Str)
          in if nByte > me_limit E
             then (case sqlite3VdbeMemSetNull E p of (p, w) \<Rightarrow> Some (18, p, give_away xDel a z @ w))
             else if xDel = SQLITE_TRANSIENT
             then then_do (sqlite3VdbeMemClearAndResize E p (max (nByte + 1) 32))
                    (\<lambda>p. finish (if nByte \<le> length z
                                 then map_option (\<lambda>p. p\<lparr>mem_n := nByte mod 2 ^ 31, mem_flags := flags, mem_enc := 1\<rparr>)
                                        (mem_store 0 (take nByte z @ [0]) p)
                                 else None))
             else (case take_pointer E True p a z xDel flags of
                     (flags, p, w) \<Rightarrow>
                       Some (0, p\<lparr>mem_n := nByte mod 2 ^ 31, mem_flags := flags, mem_enc := 1\<rparr>, w))))"

text \<open>
  Copies. The first \<^verbatim>\<open>MEMCELLSIZE\<close> bytes are the fields before \<^verbatim>\<open>db\<close>; a pointer to the own buffer of the source,
  which lies at the address \<open>a\<close>, is a foreign pointer for the copy.
\<close>

definition cell_copy :: "nat \<Rightarrow> Mem \<Rightarrow> Mem \<Rightarrow> Mem" where
  "cell_copy a pTo pFrom =
     pTo\<lparr>mem_u := mem_u pFrom, mem_z := (case mem_z pFrom of Own \<Rightarrow> Ext a (mem_zMalloc pFrom) | z \<Rightarrow> z),
         mem_n := mem_n pFrom, mem_flags := mem_flags pFrom, mem_enc := mem_enc pFrom, mem_eSubtype := mem_eSubtype pFrom\<rparr>"

definition sqlite3VdbeMemShallowCopy :: "mem_env \<Rightarrow> nat \<Rightarrow> Mem \<Rightarrow> Mem \<Rightarrow> u16 \<Rightarrow> Mem \<times> mem_ptr list" where
  "sqlite3VdbeMemShallowCopy E a pTo pFrom srcType =
     (case (if VdbeMemDynamic pTo then vdbeMemClearExternAndSetNull E pTo else (pTo, [])) of
        (p, w) \<Rightarrow>
          let p = cell_copy a p pFrom
          in (if has (mem_flags pFrom) MEM_Static then p
              else add_flags srcType (del_flags (MEM_Dyn OR MEM_Static OR MEM_Ephem) p), w))"

definition sqlite3VdbeMemCopy :: "mem_env \<Rightarrow> nat \<Rightarrow> Mem \<Rightarrow> Mem \<Rightarrow> mem_result" where
  "sqlite3VdbeMemCopy E a pTo pFrom =
     (case (if VdbeMemDynamic pTo then vdbeMemClearExternAndSetNull E pTo else (pTo, [])) of
        (p, w) \<Rightarrow>
          let p = del_flags MEM_Dyn (cell_copy a p pFrom)
          in if has (mem_flags p) (MEM_Str OR MEM_Blob) \<and> \<not> has (mem_flags pFrom) MEM_Static
             then then_do (Some (0, add_flags MEM_Ephem p, w)) (sqlite3VdbeMemMakeWriteable E)
             else Some (0, p, w))"

definition sqlite3VdbeMemMove :: "mem_env \<Rightarrow> Mem \<Rightarrow> Mem \<Rightarrow> Mem \<times> Mem \<times> mem_ptr list" where
  "sqlite3VdbeMemMove E pTo pFrom =
     (case sqlite3VdbeMemRelease E pTo of
        (_, w) \<Rightarrow> (pFrom, pFrom\<lparr>mem_flags := MEM_Null, mem_zMalloc := []\<rparr>, w))"

definition sqlite3VdbeMemTooBig :: "mem_env \<Rightarrow> Mem \<Rightarrow> bool" where
  "sqlite3VdbeMemTooBig E p \<longleftrightarrow>
     has (mem_flags p) (MEM_Str OR MEM_Blob) \<and>
     mem_n p + (if has (mem_flags p) MEM_Zero then mem_nZero p else 0) > me_limit E"

subsection \<open>Operations on one cell\<close>

text \<open>
  One call on a cell. \<open>ExpandBlob\<close> is the macro, which tests \<^verbatim>\<open>MEM_Zero\<close> first. The first argument of the copies is the
  address of the own buffer of the source.
\<close>

datatype mem_op =
    SetNull | SetInt64 u64 | SetDouble u64 | SetZeroBlob int
  | SetStr "(nat \<times> u8 list) option" "nat option" nat destructor
  | SetText "(nat \<times> u8 list) option" "nat option" destructor
  | SetPointer nat "u8 list" "string option" "destructor option"
  | ShallowCopy nat Mem u16 | Copy nat Mem
  | ExpandBlob | MakeWriteable | NulTerminate | ZeroTerminateIfAble | ChangeEncoding nat

definition returns :: "Mem \<times> mem_ptr list \<Rightarrow> mem_result" where
  "returns r = (case r of (p, w) \<Rightarrow> Some (0, p, w))"

fun mem_run :: "mem_env \<Rightarrow> mem_op \<Rightarrow> Mem \<Rightarrow> mem_result" where
  "mem_run E SetNull p = returns (sqlite3VdbeMemSetNull E p)"
| "mem_run E (SetInt64 v) p = returns (sqlite3VdbeMemSetInt64 E p v)"
| "mem_run E (SetDouble v) p = returns (sqlite3VdbeMemSetDouble E p v)"
| "mem_run E (SetZeroBlob n) p = returns (sqlite3VdbeMemSetZeroBlob E p n)"
| "mem_run E (SetStr z n enc xDel) p = sqlite3VdbeMemSetStr E p z n enc xDel"
| "mem_run E (SetText z n xDel) p = sqlite3VdbeMemSetText E p z n xDel"
| "mem_run E (SetPointer a b t xDel) p = returns (sqlite3VdbeMemSetPointer E p (Ext a b) t xDel)"
| "mem_run E (ShallowCopy a q srcType) p = returns (sqlite3VdbeMemShallowCopy E a p q srcType)"
| "mem_run E (Copy a q) p = sqlite3VdbeMemCopy E a p q"
| "mem_run E ExpandBlob p = (if has (mem_flags p) MEM_Zero then sqlite3VdbeMemExpandBlob E p else Some (0, p, []))"
| "mem_run E MakeWriteable p = sqlite3VdbeMemMakeWriteable E p"
| "mem_run E NulTerminate p = sqlite3VdbeMemNulTerminate E p"
| "mem_run E ZeroTerminateIfAble p = map_option (\<lambda>(b, q). (0, q, [])) (sqlite3VdbeMemZeroTerminateIfAble p)"
| "mem_run E (ChangeEncoding enc) p = sqlite3VdbeChangeEncoding E p enc"

section \<open>Flags as bits\<close>

named_theorems flag_simps \<open>flags of a cell as single bits\<close>

lemma bit_single: "k < 16 \<Longrightarrow> bit (push_bit k 1 :: u16) n \<longleftrightarrow> n = k"
  by (auto simp: bit_simps)

lemma bit_MEM [flag_simps]:
  "bit MEM_Null n \<longleftrightarrow> n = 0" "bit MEM_Str n \<longleftrightarrow> n = 1" "bit MEM_Int n \<longleftrightarrow> n = 2" "bit MEM_Real n \<longleftrightarrow> n = 3"
  "bit MEM_Blob n \<longleftrightarrow> n = 4" "bit MEM_IntReal n \<longleftrightarrow> n = 5" "bit MEM_Cleared n \<longleftrightarrow> n = 8" "bit MEM_Term n \<longleftrightarrow> n = 9"
  "bit MEM_Zero n \<longleftrightarrow> n = 10" "bit MEM_Subtype n \<longleftrightarrow> n = 11" "bit MEM_Dyn n \<longleftrightarrow> n = 12" "bit MEM_Static n \<longleftrightarrow> n = 13"
  "bit MEM_Ephem n \<longleftrightarrow> n = 14" "bit MEM_Agg n \<longleftrightarrow> n = 15" "bit MEM_AffMask n \<longleftrightarrow> n < 6"
proof -
  show "bit MEM_Null n \<longleftrightarrow> n = 0" using bit_single [of 0 n] by (simp add: MEM_Null_def)
  show "bit MEM_Str n \<longleftrightarrow> n = 1" using bit_single [of 1 n] by (simp add: MEM_Str_def)
  show "bit MEM_Int n \<longleftrightarrow> n = 2" using bit_single [of 2 n] by (simp add: MEM_Int_def)
  show "bit MEM_Real n \<longleftrightarrow> n = 3" using bit_single [of 3 n] by (simp add: MEM_Real_def)
  show "bit MEM_Blob n \<longleftrightarrow> n = 4" using bit_single [of 4 n] by (simp add: MEM_Blob_def)
  show "bit MEM_IntReal n \<longleftrightarrow> n = 5" using bit_single [of 5 n] by (simp add: MEM_IntReal_def)
  show "bit MEM_Cleared n \<longleftrightarrow> n = 8" using bit_single [of 8 n] by (simp add: MEM_Cleared_def)
  show "bit MEM_Term n \<longleftrightarrow> n = 9" using bit_single [of 9 n] by (simp add: MEM_Term_def)
  show "bit MEM_Zero n \<longleftrightarrow> n = 10" using bit_single [of 10 n] by (simp add: MEM_Zero_def)
  show "bit MEM_Subtype n \<longleftrightarrow> n = 11" using bit_single [of 11 n] by (simp add: MEM_Subtype_def)
  show "bit MEM_Dyn n \<longleftrightarrow> n = 12" using bit_single [of 12 n] by (simp add: MEM_Dyn_def)
  show "bit MEM_Static n \<longleftrightarrow> n = 13" using bit_single [of 13 n] by (simp add: MEM_Static_def)
  show "bit MEM_Ephem n \<longleftrightarrow> n = 14" using bit_single [of 14 n] by (simp add: MEM_Ephem_def)
  show "bit MEM_Agg n \<longleftrightarrow> n = 15" using bit_single [of 15 n] by (simp add: MEM_Agg_def)
  have m: "MEM_AffMask = mask 6" by (simp add: MEM_AffMask_def mask_eq_exp_minus_1)
  show "bit MEM_AffMask n \<longleftrightarrow> n < 6" unfolding m bit_mask_iff by auto
qed

lemma has_iff: "has f m \<longleftrightarrow> (\<exists>n. bit f n \<and> bit m n)"
  unfolding has_def by (auto simp: bit_eq_iff bit_simps) (use bit_imp_le_length in fastforce)

lemma has_MEM [flag_simps]:
  "has f MEM_Null \<longleftrightarrow> bit f 0" "has f MEM_Str \<longleftrightarrow> bit f 1" "has f MEM_Int \<longleftrightarrow> bit f 2" "has f MEM_Real \<longleftrightarrow> bit f 3"
  "has f MEM_Blob \<longleftrightarrow> bit f 4" "has f MEM_IntReal \<longleftrightarrow> bit f 5" "has f MEM_Cleared \<longleftrightarrow> bit f 8" "has f MEM_Term \<longleftrightarrow> bit f 9"
  "has f MEM_Zero \<longleftrightarrow> bit f 10" "has f MEM_Subtype \<longleftrightarrow> bit f 11" "has f MEM_Dyn \<longleftrightarrow> bit f 12" "has f MEM_Static \<longleftrightarrow> bit f 13"
  "has f MEM_Ephem \<longleftrightarrow> bit f 14" "has f MEM_Agg \<longleftrightarrow> bit f 15"
  by (auto simp: has_iff bit_MEM)

lemma has_or [flag_simps]: "has f (m OR k) \<longleftrightarrow> has f m \<or> has f k"
  by (auto simp: has_iff bit_simps)

lemmas bit_flags [flag_simps] = bit_and_iff bit_or_iff

lemma bit_not_flags [flag_simps]: "n < 16 \<Longrightarrow> bit (NOT (f :: u16)) n \<longleftrightarrow> \<not> bit f n"
  by (simp add: bit_simps)

lemma only_str [flag_simps]:
  "f AND (MEM_Str OR MEM_Term OR MEM_Ephem OR MEM_Static) = MEM_Str \<longleftrightarrow> bit f 1 \<and> \<not> bit f 9 \<and> \<not> bit f 14 \<and> \<not> bit f 13"
  "f AND (MEM_Term OR MEM_Str) = MEM_Str \<longleftrightarrow> bit f 1 \<and> \<not> bit f 9"
  by (auto simp: bit_eq_iff [where 'a = u16] flag_simps numeral_eq_Suc All_less_Suc)

section \<open>The invariant\<close>

text \<open>Exactly one owner: the cell, a destructor, an ephemeral or a static buffer.\<close>

definition one_owner :: "Mem \<Rightarrow> bool" where
  "one_owner p \<longleftrightarrow>
     of_bool (mem_z p = Own \<and> mem_zMalloc p \<noteq> []) + of_bool (has (mem_flags p) MEM_Dyn) +
     of_bool (has (mem_flags p) MEM_Ephem) + of_bool (has (mem_flags p) MEM_Static) = (1 :: nat)"

definition terminated :: "Mem \<Rightarrow> bool" where
  "terminated p \<longleftrightarrow>
     mem_n p < length (mem_bytes p) \<and> mem_bytes p ! mem_n p = 0 \<and>
     (mem_enc p \<noteq> 1 \<longrightarrow> mem_n p + 1 < length (mem_bytes p) \<and> mem_bytes p ! (mem_n p + 1) = 0)"

text \<open>
  What \<^verbatim>\<open>sqlite3VdbeCheckMemInvariants\<close> and \<^verbatim>\<open>sqlite3VdbeMemValidStrRep\<close> assert of a cell that is not the context of an
  aggregate, and that its text or blob lies inside its buffer.
\<close>

definition flags_ok :: "u16 \<Rightarrow> bool" where
  "flags_ok f \<longleftrightarrow>
     \<not> has f MEM_Agg \<and> \<not> (has f MEM_Dyn \<and> has f MEM_Static) \<and>
     of_bool (has f MEM_Int) + of_bool (has f MEM_Real) + of_bool (has f MEM_IntReal) \<le> (1 :: nat) \<and>
     (has f MEM_Null \<longrightarrow> \<not> has f (MEM_Int OR MEM_Real OR MEM_Str OR MEM_Blob)) \<and>
     (has f MEM_Cleared \<longrightarrow> has f MEM_Null) \<and>
     (has f MEM_Zero \<longrightarrow> has f MEM_Blob \<and> \<not> has f MEM_Str)"

text \<open>The member of the union that the flags name is the one that was written last.\<close>

definition union_ok :: "u16 \<Rightarrow> mem_value \<Rightarrow> bool" where
  "union_ok f u \<longleftrightarrow>
     (has f (MEM_Int OR MEM_IntReal) \<longrightarrow> (\<exists>i. u = U_i i)) \<and> (has f MEM_Real \<longrightarrow> (\<exists>r. u = U_r r)) \<and>
     (has f MEM_Zero \<longrightarrow> (\<exists>k. u = U_nZero k))"

definition mem_ok :: "Mem \<Rightarrow> bool" where
  "mem_ok p \<longleftrightarrow>
     flags_ok (mem_flags p) \<and> union_ok (mem_flags p) (mem_u p) \<and>
     (has (mem_flags p) MEM_Dyn \<longrightarrow> mem_zMalloc p = [] \<and> mem_xDel p \<noteq> SQLITE_STATIC \<and> (\<exists>a b. mem_z p = Ext a b)) \<and>
     (has (mem_flags p) (MEM_Str OR MEM_Blob) \<longrightarrow> mem_n p \<le> length (mem_bytes p)) \<and>
     (has (mem_flags p) MEM_Str \<or> has (mem_flags p) MEM_Blob \<and> mem_n p > 0 \<longrightarrow> one_owner p) \<and>
     (has (mem_flags p) MEM_Str \<longrightarrow> mem_enc p \<in> {1, 2, 3} \<and> (mem_enc p = 1 \<or> even (mem_n p))) \<and>
     (has (mem_flags p) MEM_Str \<and> has (mem_flags p) MEM_Term \<longrightarrow> terminated p) \<and>
     (has (mem_flags p) MEM_Str \<and> has (mem_flags p) MEM_Dyn \<and> mem_xDel p = RCStrUnref \<and> mem_enc p = 1 \<longrightarrow>
        mem_n p < length (mem_bytes p) \<and> mem_bytes p ! mem_n p = 0)"

lemma mem_okD:
  assumes "mem_ok p"
  shows "flags_ok (mem_flags p)" "has (mem_flags p) MEM_Dyn \<Longrightarrow> mem_zMalloc p = []"
    "has (mem_flags p) MEM_Dyn \<Longrightarrow> \<exists>a b. mem_z p = Ext a b"
    "has (mem_flags p) (MEM_Str OR MEM_Blob) \<Longrightarrow> mem_n p \<le> length (mem_bytes p)"
    "has (mem_flags p) MEM_Str \<or> has (mem_flags p) MEM_Blob \<and> mem_n p > 0 \<Longrightarrow> one_owner p"
    "has (mem_flags p) MEM_Str \<Longrightarrow> mem_enc p \<in> {1, 2, 3} \<and> (mem_enc p = 1 \<or> even (mem_n p))"
    "has (mem_flags p) MEM_Str \<Longrightarrow> has (mem_flags p) MEM_Term \<Longrightarrow> terminated p"
    "has (mem_flags p) MEM_Str \<Longrightarrow> has (mem_flags p) MEM_Dyn \<Longrightarrow> mem_xDel p = RCStrUnref \<Longrightarrow> mem_enc p = 1 \<Longrightarrow>
      mem_n p < length (mem_bytes p) \<and> mem_bytes p ! mem_n p = 0"
    "union_ok (mem_flags p) (mem_u p)" "has (mem_flags p) MEM_Dyn \<Longrightarrow> mem_xDel p \<noteq> SQLITE_STATIC"
  using assms unfolding mem_ok_def by blast+

definition env_ok :: "mem_env \<Rightarrow> bool" where
  "env_ok E \<longleftrightarrow> (\<forall>n b. me_alloc E n = Some b \<longrightarrow> n \<le> length b) \<and> me_limit E < 2 ^ 31"

text \<open>The addresses of buffers that a cell must hand to a destructor, and those handed over.\<close>

definition held :: "Mem \<Rightarrow> nat list" where
  "held p = (if has (mem_flags p) MEM_Dyn then (case mem_z p of Ext a b \<Rightarrow> [a] | _ \<Rightarrow> []) else [])"

definition handed :: "mem_ptr list \<Rightarrow> nat list" where
  "handed w = concat (map (\<lambda>x. case x of Ext a b \<Rightarrow> [a] | _ \<Rightarrow> []) w)"

lemma handed_simps [simp]: "handed [] = []" "handed (Ext a b # w) = a # handed w" "handed (u @ w) = handed u @ handed w"
  by (simp_all add: handed_def)

lemma mem_bytes_update [simp]:
  "mem_bytes (p\<lparr>mem_enc := d\<rparr>) = mem_bytes p" "mem_bytes (p\<lparr>mem_n := n\<rparr>) = mem_bytes p"
  "mem_bytes (p\<lparr>mem_flags := f\<rparr>) = mem_bytes p"
  by (cases "mem_z p"; simp add: mem_bytes_def)+

section \<open>Each operation\<close>

definition dyn_call :: "Mem \<Rightarrow> mem_ptr list" where
  "dyn_call p = (if has (mem_flags p) MEM_Dyn then [mem_z p] else [])"

lemma handed_dyn_call: "mem_ok p \<Longrightarrow> handed (dyn_call p) = held p"
  using mem_okD(3) [of p] by (auto simp: dyn_call_def held_def)

lemma no_agg: "mem_ok p \<Longrightarrow> \<not> has (mem_flags p) MEM_Agg"
  using mem_okD(1) [of p] by (simp add: flags_ok_def)

lemma clearExtern_eq:
  "\<not> has (mem_flags p) MEM_Agg \<Longrightarrow> vdbeMemClearExternAndSetNull E p = (p\<lparr>mem_flags := MEM_Null\<rparr>, dyn_call p)"
  by (simp add: vdbeMemClearExternAndSetNull_def dyn_call_def)

lemma dynamic_iff: "\<not> has (mem_flags p) MEM_Agg \<Longrightarrow> VdbeMemDynamic p \<longleftrightarrow> has (mem_flags p) MEM_Dyn"
  by (simp add: VdbeMemDynamic_def has_or)

lemma setNull_eq: "mem_ok p \<Longrightarrow> sqlite3VdbeMemSetNull E p = (p\<lparr>mem_flags := MEM_Null\<rparr>, dyn_call p)"
  using no_agg [of p] by (simp add: sqlite3VdbeMemSetNull_def clearExtern_eq dynamic_iff) (simp add: dyn_call_def)

lemma release_eq:
  assumes "\<not> has (mem_flags p) MEM_Agg"
  shows "sqlite3VdbeMemRelease E p =
    (if has (mem_flags p) MEM_Dyn then p\<lparr>mem_flags := MEM_Null, mem_zMalloc := [], mem_z := Null\<rparr>
     else if mem_zMalloc p \<noteq> [] then p\<lparr>mem_zMalloc := [], mem_z := Null\<rparr> else p, dyn_call p)"
proof (cases "has (mem_flags p) MEM_Dyn")
  case True
  then show ?thesis using assms by (simp add: sqlite3VdbeMemRelease_def vdbeMemClear_def clearExtern_eq dynamic_iff)
next
  case False
  then have "dyn_call p = []" by (simp add: dyn_call_def)
  then show ?thesis using False assms by (simp add: sqlite3VdbeMemRelease_def vdbeMemClear_def dynamic_iff)
qed

text \<open>A cell that holds NULL or a number and no borrowed buffer is well formed, whatever its other fields.\<close>

lemma mem_ok_simple:
  "mem_flags p = MEM_Null \<Longrightarrow> mem_ok p" "mem_flags p = MEM_Int \<Longrightarrow> mem_u p = U_i i \<Longrightarrow> mem_ok p"
  "mem_flags p = MEM_Real \<Longrightarrow> mem_u p = U_r r \<Longrightarrow> mem_ok p"
  "mem_flags p = MEM_Null \<or> mem_flags p = MEM_Int \<or> mem_flags p = MEM_Real \<Longrightarrow> held p = []"
  by (auto simp: mem_ok_def flags_ok_def union_ok_def held_def flag_simps)

text \<open>
  Growth that keeps the contents: a failure leaves NULL; otherwise the first \<open>n\<close> bytes are in the own
  buffer, which has at least the size asked for.
\<close>

lemma grow_keep:
  assumes "env_ok E" "mem_ok p" "mem_n p \<le> k" "0 < k" "has (mem_flags p) (MEM_Str OR MEM_Blob)"
  obtains (fail) "sqlite3VdbeMemGrow E p k True = Some (7, p\<lparr>mem_flags := MEM_Null, mem_z := Null, mem_zMalloc := []\<rparr>, dyn_call p)"
    | (ok) b where "k \<le> length b" "take (mem_n p) b = take (mem_n p) (mem_bytes p)"
        "mem_z p = Own \<Longrightarrow> mem_zMalloc p \<noteq> [] \<Longrightarrow> \<forall>i < length b. i < length (mem_zMalloc p) \<longrightarrow> b ! i = mem_zMalloc p ! i"
        "sqlite3VdbeMemGrow E p k True =
          Some (0, del_flags (MEM_Dyn OR MEM_Ephem OR MEM_Static) (p\<lparr>mem_zMalloc := b, mem_z := Own\<rparr>), dyn_call p)"
proof (cases "me_alloc E k")
  case None
  then show ?thesis using fail assms(2) by (simp add: sqlite3VdbeMemGrow_def setNull_eq)
next
  case (Some b)
  then have len: "k \<le> length b" using assms(1) by (simp add: env_ok_def)
  have n: "mem_n p \<le> length (mem_bytes p)" using mem_okD(4) [OF assms(2,5)] .
  consider (re) "mem_zMalloc p \<noteq> []" "mem_z p = Own" | (copy) "\<not> (mem_zMalloc p \<noteq> [] \<and> mem_z p = Own)" "mem_z p \<noteq> Null" | (none) "mem_z p = Null"
    by blast
  then show ?thesis
  proof cases
    case re
    let ?b = "take (length b) (mem_zMalloc p) @ drop (length (mem_zMalloc p)) b"
    show ?thesis
      by (rule ok [of ?b]) (use re n len assms(3) Some in \<open>auto simp: sqlite3VdbeMemGrow_def grown_def dyn_call_def mem_bytes_def nth_append min_def\<close>)
  next
    case copy
    let ?b = "take (mem_n p) (mem_bytes p) @ drop (mem_n p) b"
    show ?thesis
      by (rule ok [of ?b]) (use copy n len assms(3) Some in \<open>auto simp: sqlite3VdbeMemGrow_def grown_def dyn_call_def store_def\<close>)
  next
    case none
    then have "mem_n p = 0" using n by (simp add: mem_bytes_def)
    then show ?thesis
      by (intro ok [of b]) (use none n len assms(3) Some in \<open>auto simp: sqlite3VdbeMemGrow_def grown_def dyn_call_def\<close>)
  qed
qed

lemma nZero_update [simp]:
  "mem_nZero (p\<lparr>mem_z := z\<rparr>) = mem_nZero p" "mem_nZero (p\<lparr>mem_zMalloc := b\<rparr>) = mem_nZero p" "mem_nZero (p\<lparr>mem_flags := f\<rparr>) = mem_nZero p"
  by (simp_all add: mem_nZero_def)

lemma own_cell_ok:
  assumes "flags_ok (mem_flags q)" "union_ok (mem_flags q) (mem_u q)" "\<not> has (mem_flags q) (MEM_Dyn OR MEM_Ephem OR MEM_Static)"
    "mem_z q = Own" "Suc 0 \<le> length (mem_zMalloc q)" "mem_n q \<le> length (mem_zMalloc q)"
    "has (mem_flags q) MEM_Str \<Longrightarrow> mem_enc q \<in> {1, 2, 3} \<and> (mem_enc q = 1 \<or> even (mem_n q))"
    "has (mem_flags q) MEM_Str \<Longrightarrow> has (mem_flags q) MEM_Term \<Longrightarrow> terminated q"
  shows "mem_ok q" "held q = []"
proof -
  have "one_owner q" "mem_bytes q = mem_zMalloc q" "\<not> has (mem_flags q) MEM_Dyn"
    using assms(3-5) by (auto simp: one_owner_def mem_bytes_def has_or)
  then show "mem_ok q" "held q = []" using assms(1,2,6-8) by (simp_all add: mem_ok_def held_def)
qed

abbreviation (input) owner_flags :: u16 where "owner_flags \<equiv> MEM_Dyn OR MEM_Ephem OR MEM_Static"

lemma flags_ok_steps:
  "flags_ok f \<Longrightarrow> flags_ok ((f AND NOT owner_flags) OR MEM_Term)"
  "flags_ok f \<Longrightarrow> flags_ok ((f AND NOT owner_flags) AND NOT (MEM_Zero OR MEM_Term))"
  "flags_ok f \<Longrightarrow> flags_ok (f AND NOT MEM_Ephem)" "flags_ok f \<Longrightarrow> flags_ok (f OR MEM_Term)"
  by (simp_all add: flags_ok_def flag_simps)

lemma union_ok_steps:
  "union_ok f u \<Longrightarrow> union_ok ((f AND NOT owner_flags) OR MEM_Term) u"
  "union_ok f u \<Longrightarrow> union_ok ((f AND NOT owner_flags) AND NOT (MEM_Zero OR MEM_Term)) u"
  "union_ok f u \<Longrightarrow> union_ok (f AND NOT MEM_Ephem) u" "union_ok f u \<Longrightarrow> union_ok (f OR MEM_Term) u"
  "union_ok f u \<Longrightarrow> union_ok (MEM_Str OR MEM_Term OR (f AND (MEM_AffMask OR MEM_Subtype))) u"
  by (simp_all add: union_ok_def flag_simps)

definition failed :: "Mem \<Rightarrow> mem_ptr list \<Rightarrow> mem_result \<Rightarrow> bool" where
  "failed p w r \<longleftrightarrow> (\<exists>q. r = Some (7, q, w) \<and> mem_flags q = MEM_Null)"

lemma addTerminator_ok:
  assumes "env_ok E" "mem_ok p" "has (mem_flags p) (MEM_Str OR MEM_Blob)"
  obtains (fail) "failed p (dyn_call p) (vdbeMemAddTerminator E p)"
    | (ok) q where "vdbeMemAddTerminator E p = Some (0, q, dyn_call p)" "mem_ok q" "held q = []" "mem_z q = Own" "mem_zMalloc q \<noteq> []"
        "mem_n q = mem_n p" "mem_enc q = mem_enc p" "take (mem_n p) (mem_zMalloc q) = take (mem_n p) (mem_bytes p)"
        "mem_flags q = (mem_flags p AND NOT owner_flags) OR MEM_Term"
proof -
  have k: "mem_n p \<le> mem_n p + 3" "0 < mem_n p + 3" by simp_all
  from assms(1,2) k assms(3) show ?thesis
  proof (cases rule: grow_keep)
  case fail': fail
  then show ?thesis using fail by (simp add: vdbeMemAddTerminator_def then_do_def failed_def)
next
  case ok': (ok b)
  let ?b = "take (mem_n p) b @ [0, 0, 0] @ drop (Suc (Suc (Suc (mem_n p)))) b"
  let ?q = "p\<lparr>mem_z := Own, mem_zMalloc := ?b, mem_flags := (mem_flags p AND NOT owner_flags) OR MEM_Term\<rparr>"
  have r: "vdbeMemAddTerminator E p = Some (0, ?q, dyn_call p)"
    using ok'(1,4) by (simp add: vdbeMemAddTerminator_def then_do_def finish_def mem_store_def store_def mem_bytes_def put_bytes_def
        add_flags_def del_flags_def)
  have "terminated ?q" using ok'(1) by (simp add: terminated_def mem_bytes_def nth_append) presburger
  then have "mem_ok ?q" "held ?q = []"
    using own_cell_ok [of ?q] flags_ok_steps(1) [OF mem_okD(1) [OF assms(2)]] union_ok_steps(1) [OF mem_okD(9) [OF assms(2)]]
      mem_okD(6) [OF assms(2)] ok'(1)
    by (simp_all add: flag_simps)
  then show ?thesis by (rule ok [OF r]) (use ok'(1,2) mem_okD(4) [OF assms(2,3)] in simp_all)
  qed
qed

lemma expandBlob_ok:
  assumes "env_ok E" "mem_ok p" "has (mem_flags p) MEM_Zero"
  obtains (fail) "failed p (dyn_call p) (sqlite3VdbeMemExpandBlob E p)"
    | (ok) q where "sqlite3VdbeMemExpandBlob E p = Some (0, q, dyn_call p)" "mem_ok q" "held q = []" "mem_z q = Own" "mem_zMalloc q \<noteq> []"
        "\<not> has (mem_flags q) MEM_Str" "has (mem_flags q) MEM_Blob" "mem_n q = mem_n p + mem_nZero p"
        "take (mem_n q) (mem_zMalloc q) = take (mem_n p) (mem_bytes p) @ replicate (mem_nZero p) 0"
proof -
  let ?k = "if mem_n p + mem_nZero p = 0 then 1 else mem_n p + mem_nZero p"
  have f: "has (mem_flags p) MEM_Blob" "\<not> has (mem_flags p) MEM_Str" "has (mem_flags p) (MEM_Str OR MEM_Blob)"
    using mem_okD(1) [OF assms(2)] assms(3) by (simp_all add: flags_ok_def has_or)
  have k: "mem_n p \<le> ?k" "0 < ?k" by simp_all
  from assms(1,2) k f(3) show ?thesis
  proof (cases rule: grow_keep)
    case fail': fail
    then show ?thesis using fail f(1) by (simp add: sqlite3VdbeMemExpandBlob_def Let_def then_do_def failed_def)
  next
    case ok': (ok b)
    let ?b = "take (mem_n p) b @ replicate (mem_nZero p) 0 @ drop (mem_n p + mem_nZero p) b"
    let ?q = "p\<lparr>mem_z := Own, mem_zMalloc := ?b, mem_n := mem_n p + mem_nZero p,
      mem_flags := (mem_flags p AND NOT owner_flags) AND NOT (MEM_Zero OR MEM_Term)\<rparr>"
    have l: "mem_n p + mem_nZero p \<le> length b" "b \<noteq> []" "Suc 0 \<le> length b" using ok'(1) by (auto split: if_splits)
    then have l0: "0 < mem_n p \<or> 0 < mem_nZero p \<or> length b \<noteq> mem_n p + mem_nZero p" by (cases b) auto
    have r: "sqlite3VdbeMemExpandBlob E p = Some (0, ?q, dyn_call p)"
      using ok'(4) f(1) l(1) by (simp add: sqlite3VdbeMemExpandBlob_def Let_def then_do_def finish_def mem_store_def store_def mem_bytes_def put_bytes_def
          del_flags_def)
    have "mem_ok ?q" "held ?q = []"
      using own_cell_ok [of ?q] flags_ok_steps(2) [OF mem_okD(1) [OF assms(2)]] union_ok_steps(2) [OF mem_okD(9) [OF assms(2)]] l l0 f by (simp_all add: flag_simps)
    then show ?thesis by (rule ok [OF r]) (use ok'(2) l l0 f mem_okD(4) [OF assms(2) f(3)] in \<open>auto simp: flag_simps\<close>)
  qed
qed

text \<open>Making text writable keeps its bytes and leaves the cell with its own buffer.\<close>

lemma makeWriteable_str:
  assumes "env_ok E" "mem_ok p" "has (mem_flags p) MEM_Str"
  obtains (fail) "failed p (dyn_call p) (sqlite3VdbeMemMakeWriteable E p)"
    | (ok) q where "sqlite3VdbeMemMakeWriteable E p = Some (0, q, dyn_call p)" "mem_ok q" "held q = []" "mem_z q = Own" "mem_zMalloc q \<noteq> []"
        "mem_n q = mem_n p" "mem_enc q = mem_enc p" "take (mem_n p) (mem_zMalloc q) = take (mem_n p) (mem_bytes p)"
        "has (mem_flags q) MEM_Str" "\<not> has (mem_flags q) owner_flags"
proof -
  have f: "\<not> has (mem_flags p) MEM_Zero" "has (mem_flags p) (MEM_Str OR MEM_Blob)"
    using mem_okD(1) [OF assms(2)] assms(3) by (auto simp: flags_ok_def has_or)
  have o: "one_owner p" using mem_okD(5) [OF assms(2)] assms(3) by blast
  show ?thesis
  proof (cases "mem_zMalloc p \<noteq> [] \<and> mem_z p = Own")
    case True
    then have n: "\<not> has (mem_flags p) owner_flags" "dyn_call p = []" using o by (auto simp: one_owner_def has_or dyn_call_def)
    have fl: "mem_flags p AND NOT MEM_Ephem = mem_flags p"
      using n(1) by (auto simp: bit_eq_iff [where 'a = u16] flag_simps)
    have r: "sqlite3VdbeMemMakeWriteable E p = Some (0, p, dyn_call p)"
      using True f n(2) by (simp add: sqlite3VdbeMemMakeWriteable_def then_do_def del_flags_def fl)
    have "held p = []" using n(1) by (simp add: held_def has_or)
    then show ?thesis by (rule ok [OF r assms(2)]) (use assms(3) True n in \<open>simp_all add: mem_bytes_def\<close>)
  next
    case False
    from assms(1,2) f(2) show ?thesis
    proof (cases rule: addTerminator_ok)
      case fail': fail
      then show ?thesis using fail False f by (auto simp: sqlite3VdbeMemMakeWriteable_def then_do_def failed_def)
    next
      case ok': (ok q)
      have fl: "mem_flags q AND NOT MEM_Ephem = mem_flags q"
        unfolding ok'(9) by (auto simp: bit_eq_iff [where 'a = u16] flag_simps)
      have r: "sqlite3VdbeMemMakeWriteable E p = Some (0, q, dyn_call p)"
        using ok'(1) False f by (simp add: sqlite3VdbeMemMakeWriteable_def then_do_def del_flags_def fl)
      have "has (mem_flags q) MEM_Str" "\<not> has (mem_flags q) owner_flags" using ok'(9) assms(3) by (simp_all add: flag_simps)
      then show ?thesis by (intro ok [OF r] ok')
    qed
  qed
qed

text \<open>
  What every operation does: it returns, leaves a well-formed cell, and every buffer with a
  destructor, the old one and those in \<open>gs\<close>, is now either held by the cell or was handed to its
  destructor, exactly once. \<open>P\<close> is what holds of the cell on success.
\<close>

definition kept :: "Mem \<Rightarrow> nat list \<Rightarrow> (Mem \<Rightarrow> bool) \<Rightarrow> mem_result \<Rightarrow> bool" where
  "kept p gs P r \<longleftrightarrow>
     (\<exists>rc q w. r = Some (rc, q, w) \<and> mem_ok q \<and> mset (handed w) + mset (held q) = mset (held p) + mset gs \<and> (rc = 0 \<longrightarrow> P q))"

lemma kept_mono: "kept p gs P r \<Longrightarrow> (\<And>q. P q \<Longrightarrow> Q q) \<Longrightarrow> kept p gs Q r"
  unfolding kept_def by blast

lemma kept_failed: "mem_ok p \<Longrightarrow> failed p (dyn_call p) r \<Longrightarrow> kept p [] P r"
  using mem_ok_simple handed_dyn_call [of p] by (auto simp: kept_def failed_def)

definition mem_text :: "Mem \<Rightarrow> u8 list" where
  "mem_text p = take (mem_n p) (mem_bytes p)"

definition mem_content :: "Mem \<Rightarrow> u8 list" where
  "mem_content p = mem_text p @ (if has (mem_flags p) MEM_Zero then replicate (mem_nZero p) 0 else [])"

lemma swap_pairs_length [simp]: "length (swap_pairs z) = length z"
  by (induction z rule: swap_pairs.induct) simp_all

lemma translate_swap:
  assumes "env_ok E" "mem_ok p" "has (mem_flags p) MEM_Str" "mem_enc p \<noteq> 1" "d = 2 \<or> d = 3"
  shows "kept p [] (\<lambda>q. mem_enc q = d \<and> has (mem_flags q) MEM_Str \<and> mem_text q = swap_pairs (mem_text p)) (sqlite3VdbeMemTranslate E p d)"
  using assms(1-3)
proof (cases rule: makeWriteable_str)
  case fail
  then have "failed p (dyn_call p) (sqlite3VdbeMemTranslate E p d)"
    using assms(4,5) by (auto simp: sqlite3VdbeMemTranslate_def then_do_def failed_def)
  then show ?thesis by (rule kept_failed [OF assms(2)])
next
  case (ok q)
  have n: "even (mem_n p)" using mem_okD(6) [OF assms(2,3)] assms(4) by blast
  then have k: "mem_n q - mem_n q mod 2 = mem_n p" using ok(6) by simp
  have l: "mem_n p \<le> length (mem_zMalloc q)" using mem_okD(4) [OF ok(2)] ok(4,6,9) by (simp add: mem_bytes_def has_or)
  have l1: "Suc 0 \<le> length (mem_zMalloc q)" using ok(5) by (simp add: Suc_le_eq)
  let ?b = "swap_pairs (take (mem_n p) (mem_zMalloc q)) @ drop (mem_n p) (mem_zMalloc q)"
  let ?q = "q\<lparr>mem_zMalloc := ?b, mem_enc := d\<rparr>"
  have r: "sqlite3VdbeMemTranslate E p d = Some (0, ?q, dyn_call p)"
    using ok(1,4) assms(4,5) k l
    by (auto simp: sqlite3VdbeMemTranslate_def then_do_def Let_def finish_def mem_bytes_def put_bytes_def)
  have "terminated ?q" if "has (mem_flags q) MEM_Term"
    using mem_okD(7) [OF ok(2,9) that] ok(4,6,7) assms(4) l by (simp add: terminated_def mem_bytes_def nth_append)
  then have q: "mem_ok ?q" "held ?q = []"
    using own_cell_ok [of ?q] mem_okD(1,9) [OF ok(2)] ok(4,6,10) l l1 assms(5) n by auto
  have "mem_bytes ?q = ?b" using ok(4) by (simp add: mem_bytes_def)
  then have "mem_text ?q = swap_pairs (take (mem_n p) (mem_zMalloc q))" using ok(6) l by (simp add: mem_text_def)
  then have "mem_text ?q = swap_pairs (mem_text p)" unfolding ok(8) by (simp add: mem_text_def)
  then show ?thesis using r q handed_dyn_call [OF assms(2)] ok(9) by (simp add: kept_def)
qed

lemma flags_ok_translated:
  assumes "flags_ok f" "has f MEM_Str"
  defines "c \<equiv> MEM_Str OR MEM_Term OR (f AND (MEM_AffMask OR MEM_Subtype))"
  shows "flags_ok c" "has c MEM_Str" "has c MEM_Term" "\<not> has c owner_flags"
  using assms(1,2) by (auto simp: c_def flags_ok_def flag_simps)

lemma translated_ok:
  assumes "mem_ok p" "has (mem_flags p) MEM_Str" "d \<in> {1, 2, 3}" "d = 1 \<or> even (length out)"
    "length out + 2 \<le> length b \<or> d = 1 \<and> length out + 1 \<le> length b"
  shows "kept p [] (\<lambda>q. mem_enc q = d \<and> has (mem_flags q) MEM_Str \<and> mem_text q = out) (translated E d out b p)"
proof -
  let ?t = "if d = 1 then [0] else [0, 0 :: u8]"
  let ?b = "out @ ?t @ drop (length out + length ?t) b" and ?p = "p\<lparr>mem_n := length out\<rparr>"
  let ?c = "MEM_Str OR MEM_Term OR (mem_flags p AND (MEM_AffMask OR MEM_Subtype))"
  obtain q w where rel: "sqlite3VdbeMemRelease E ?p = (q, w)" by fastforce
  have q: "mem_n q = length out" "w = dyn_call p" "mem_u q = mem_u p"
    using rel no_agg [OF assms(1)] release_eq [of ?p E] by (auto simp: dyn_call_def split: if_splits)
  let ?q = "q\<lparr>mem_flags := ?c, mem_enc := d, mem_z := Own, mem_zMalloc := ?b\<rparr>"
  have "store 0 (out @ ?t) b = Some ?b" using assms(5) by (auto simp: store_def)
  then have r: "translated E d out b p = Some (0, ?q, dyn_call p)"
    using rel q(2) by (simp add: translated_def Let_def)
  have c: "flags_ok ?c" "has ?c MEM_Str" "has ?c MEM_Term" "\<not> has ?c owner_flags"
    using flags_ok_translated [OF mem_okD(1) [OF assms(1)] assms(2)] by blast+
  have "terminated ?q" using assms(3,5) q(1) by (auto simp: terminated_def mem_bytes_def nth_append)
  then have "mem_ok ?q" "held ?q = []"
    using own_cell_ok [of ?q] c q(1,3) union_ok_steps(5) [OF mem_okD(9) [OF assms(1)]] assms(3,4) by auto
  moreover have "mem_text ?q = out" using q(1) by (simp add: mem_text_def mem_bytes_def)
  ultimately show ?thesis using r c(2) handed_dyn_call [OF assms(1)] by (simp add: kept_def)
qed

lemma recode_even:
  "(\<And>c. even (length (wr c))) \<Longrightarrow> recode f rd wr z = Some out \<Longrightarrow> even (length out)"
  by (induction f arbitrary: z out) (auto split: if_splits option.splits prod.splits)

lemma translate_recode:
  assumes "env_ok E" "mem_ok p" "has (mem_flags p) MEM_Str" "mem_enc p \<noteq> d" "mem_enc p = 1 \<or> d = 1" "d \<in> {1, 2, 3}"
  shows "kept p [] (\<lambda>q. mem_enc q = d \<and> has (mem_flags q) MEM_Str \<and>
      recode (mem_n p) (if mem_enc p = 1 then READ_UTF8 else utf16_reader (mem_enc p))
        (if mem_enc p = 1 then utf16_writer d else WRITE_UTF8) (mem_text p) = Some (mem_text q)) (sqlite3VdbeMemTranslate E p d)"
proof -
  have n: "mem_n p \<le> length (mem_bytes p)" using mem_okD(4) [OF assms(2)] assms(3) by (simp add: has_or)
  have e: "d = 1 \<Longrightarrow> even (mem_n p)" using mem_okD(6) [OF assms(2,3)] assms(4) by auto
  then have p: "(if d = 1 then p\<lparr>mem_n := mem_n p - mem_n p mod 2\<rparr> else p) = p" by auto
  let ?rd = "if mem_enc p = 1 then READ_UTF8 else utf16_reader (mem_enc p)"
  let ?wr = "if mem_enc p = 1 then utf16_writer d else WRITE_UTF8"
  obtain out where out: "recode (mem_n p) ?rd ?wr (mem_text p) = Some out" "length out \<le> 2 * mem_n p" "d = 1 \<or> even (length out)"
  proof -
    have t: "length (mem_text p) = mem_n p" using n by (simp add: mem_text_def)
    show thesis
    proof (cases "mem_enc p = 1")
      case True
      then have w: "utf16_writer d = WRITE_UTF16LE \<or> utf16_writer d = WRITE_UTF16BE" by (simp add: utf16_writer_def)
      then obtain out where o: "recode (mem_n p) READ_UTF8 (utf16_writer d) (mem_text p) = Some out" "length out \<le> 2 * mem_n p"
        using recode_to_utf16_total [of "mem_text p" "mem_n p" "utf16_writer d"] t by auto
      have "even (length out)" by (rule recode_even [OF _ o(1)]) (use w write_utf16_length in auto)
      then show thesis using that [of out] True o by simp
    next
      case False
      then have "d = 1" "even (length (mem_text p))" using assms(5) e t by simp_all
      moreover have "utf16_reader (mem_enc p) = READ_UTF16LE \<or> utf16_reader (mem_enc p) = READ_UTF16BE" by (simp add: utf16_reader_def)
      ultimately obtain out where "recode (mem_n p) (utf16_reader (mem_enc p)) WRITE_UTF8 (mem_text p) = Some out" "length out \<le> 2 * mem_n p"
        using recode_to_utf8_total [of "mem_text p" "mem_n p" "utf16_reader (mem_enc p)"] t by auto
      then show thesis using that [of out] False \<open>d = 1\<close> by simp
    qed
  qed
  show ?thesis
  proof (cases "me_alloc E (2 * mem_n p + (if d = 1 then 1 else 2))")
    case None
    then show ?thesis using assms p by (auto simp: sqlite3VdbeMemTranslate_def kept_def Let_def)
  next
    case (Some b)
    then have "length out + 2 \<le> length b \<or> d = 1 \<and> length out + 1 \<le> length b"
    proof -
      have "2 * mem_n p + (if d = 1 then 1 else 2) \<le> length b" using Some assms(1) unfolding env_ok_def by blast
      then show ?thesis using out(2) by (cases "d = 1") simp_all
    qed
    then have "kept p [] (\<lambda>q. mem_enc q = d \<and> has (mem_flags q) MEM_Str \<and> mem_text q = out) (translated E d out b p)"
      by (rule translated_ok [OF assms(2,3,6) out(3)])
    moreover have "sqlite3VdbeMemTranslate E p d = translated E d out b p"
      using Some n out(1) assms(4,5) p by (auto simp: sqlite3VdbeMemTranslate_def Let_def mem_text_def)
    ultimately show ?thesis using out(1) by (auto simp: kept_def)
  qed
qed

lemma changeEncoding_ok:
  assumes "env_ok E" "mem_ok p" "d \<in> {1, 2, 3}"
  shows "kept p [] (\<lambda>q. mem_enc q = d) (sqlite3VdbeChangeEncoding E p d)"
proof (cases "has (mem_flags p) MEM_Str")
  case False
  have "mem_ok (p\<lparr>mem_enc := d\<rparr>)" "held (p\<lparr>mem_enc := d\<rparr>) = held p"
    using assms(2) False by (simp_all add: mem_ok_def held_def one_owner_def)
  then show ?thesis using False by (simp add: kept_def sqlite3VdbeChangeEncoding_def)
next
  case True
  consider "mem_enc p = d" | "mem_enc p \<noteq> d" "mem_enc p \<noteq> 1" "d \<noteq> 1" | "mem_enc p \<noteq> d" "mem_enc p = 1 \<or> d = 1" by blast
  then show ?thesis
  proof cases
    case 1
    then show ?thesis using True assms(2) by (simp add: kept_def sqlite3VdbeChangeEncoding_def)
  next
    case 2
    then have "d = 2 \<or> d = 3" using assms(3) by auto
    then have "kept p [] (\<lambda>q. mem_enc q = d) (sqlite3VdbeMemTranslate E p d)"
      by (rule kept_mono [OF translate_swap [OF assms(1,2) True 2(2)]]) simp
    then show ?thesis using True 2(1) by (simp add: sqlite3VdbeChangeEncoding_def)
  next
    case 3
    have "kept p [] (\<lambda>q. mem_enc q = d) (sqlite3VdbeMemTranslate E p d)"
      by (rule kept_mono [OF translate_recode [OF assms(1,2) True 3 assms(3)]]) simp
    then show ?thesis using True 3(1) by (simp add: sqlite3VdbeChangeEncoding_def)
  qed
qed

lemma handleBom_ok:
  assumes "env_ok E" "mem_ok p" "has (mem_flags p) MEM_Str" "mem_enc p \<noteq> 1"
  shows "kept p [] (\<lambda>q. has (mem_flags q) MEM_Str) (sqlite3VdbeMemHandleBom E p)"
proof (cases "mem_n p > 1")
  case False
  then show ?thesis using assms(2,3) by (simp add: kept_def sqlite3VdbeMemHandleBom_def)
next
  case True
  have n: "mem_n p \<le> length (mem_bytes p)" using mem_okD(4) [OF assms(2)] assms(3) by (simp add: has_or)
  then obtain b1 b2 bs where b: "mem_bytes p = b1 # b2 # bs" using True by (cases "mem_bytes p"; cases "tl (mem_bytes p)") auto
  define bom :: nat where "bom = (if b1 = 0xFF \<and> b2 = 0xFE then 2 else if b1 = 0xFE \<and> b2 = 0xFF then 3 else 0)"
  let ?F = "\<lambda>p. finish (map_option (\<lambda>q. (add_flags MEM_Term q)\<lparr>mem_n := mem_n p - 2, mem_enc := bom\<rparr>)
    (mem_store 0 (take (mem_n p - 2) (drop 2 (mem_bytes p)) @ [0, 0]) p))"
  have h: "sqlite3VdbeMemHandleBom E p = (if bom \<noteq> 0 then then_do (sqlite3VdbeMemMakeWriteable E p) ?F else Some (0, p, []))"
    using True b unfolding sqlite3VdbeMemHandleBom_def bom_def Let_def by simp
  show ?thesis
  proof (cases "bom = 0")
    case True
    then show ?thesis using h assms(2,3) by (simp add: kept_def)
  next
    case False
    from assms(1-3) show ?thesis
    proof (cases rule: makeWriteable_str)
      case fail
      then have "failed p (dyn_call p) (sqlite3VdbeMemHandleBom E p)" using h False by (auto simp: then_do_def failed_def)
      then show ?thesis by (rule kept_failed [OF assms(2)])
    next
      case (ok q)
      have l: "mem_n p \<le> length (mem_zMalloc q)" "Suc 0 \<le> length (mem_zMalloc q)"
        using mem_okD(4) [OF ok(2)] ok(4,5,6,9) by (simp_all add: mem_bytes_def has_or Suc_le_eq)
      let ?b = "take (mem_n p - 2) (drop 2 (mem_zMalloc q)) @ [0, 0] @ drop (mem_n p) (mem_zMalloc q)"
      let ?q = "q\<lparr>mem_zMalloc := ?b, mem_flags := mem_flags q OR MEM_Term, mem_n := mem_n p - 2, mem_enc := bom\<rparr>"
      have "mem_bytes q = mem_zMalloc q" "Suc (Suc (mem_n p - 2)) = mem_n p" using ok(4) True by (simp_all add: mem_bytes_def)
      then have "?F q = Some (0, ?q, [])"
        using ok(4,6) l by (simp add: finish_def mem_store_def store_def put_bytes_def add_flags_def)
      then have r: "sqlite3VdbeMemHandleBom E p = Some (0, ?q, dyn_call p)"
        using h False ok(1) by (simp add: then_do_def)
      have f: "flags_ok (mem_flags ?q)" "has (mem_flags ?q) MEM_Str" "\<not> has (mem_flags ?q) owner_flags"
        using flags_ok_steps(4) [OF mem_okD(1) [OF ok(2)]] ok(9,10) by (simp_all add: flag_simps)
      have "terminated ?q" using l True ok(4) by (auto simp: terminated_def mem_bytes_def nth_append)
      moreover have "even (mem_n p)" using mem_okD(6) [OF assms(2,3)] assms(4) by blast
      ultimately have "mem_ok ?q" "held ?q = []"
        using own_cell_ok [of ?q] f union_ok_steps(4) [OF mem_okD(9) [OF ok(2)]] l ok(4) True False by (auto simp: bom_def)
      then show ?thesis using r f(2) handed_dyn_call [OF assms(2)] by (simp add: kept_def)
    qed
  qed
qed

lemma kept_then:
  assumes "kept p gs P r" "\<And>q. mem_ok q \<Longrightarrow> P q \<Longrightarrow> kept q [] Q (f q)"
  shows "kept p gs Q (then_do r f)"
proof -
  obtain rc q w where r: "r = Some (rc, q, w)" "mem_ok q" "mset (handed w) + mset (held q) = mset (held p) + mset gs" "rc = 0 \<longrightarrow> P q"
    using assms(1) unfolding kept_def by blast
  show ?thesis
  proof (cases "rc = 0")
    case True
    then obtain rc' q' w' where f: "f q = Some (rc', q', w')" "mem_ok q'" "mset (handed w') + mset (held q') = mset (held q)" "rc' = 0 \<longrightarrow> Q q'"
      using assms(2) [OF r(2)] r(4) unfolding kept_def by auto
    have "mset (handed (w @ w')) + mset (held q') = mset (held p) + mset gs"
      using r(3) f(3) by (simp add: add.assoc)
    then show ?thesis using True r(1) f by (simp add: kept_def then_do_def)
  next
    case False
    then show ?thesis using r by (simp add: kept_def then_do_def)
  qed
qed

lemma kept_same: "mem_ok p \<Longrightarrow> P p \<Longrightarrow> kept p [] P (Some (rc, p, []))"
  by (simp add: kept_def)

lemma del_ephem_ok:
  assumes "mem_ok p" "\<not> has (mem_flags p) (MEM_Str OR MEM_Blob) \<or> mem_z p = Own \<and> mem_zMalloc p \<noteq> []"
  shows "kept p [] (\<lambda>q. mem_text q = mem_text p \<and> mem_z q = mem_z p \<and> mem_zMalloc q = mem_zMalloc p) (Some (0, del_flags MEM_Ephem p, []))"
proof -
  define q where "q = del_flags MEM_Ephem p"
  have h: "has (mem_flags q) MEM_Str = has (mem_flags p) MEM_Str" "has (mem_flags q) MEM_Blob = has (mem_flags p) MEM_Blob"
    "has (mem_flags q) MEM_Dyn = has (mem_flags p) MEM_Dyn" "has (mem_flags q) MEM_Term = has (mem_flags p) MEM_Term"
    "has (mem_flags q) MEM_Static = has (mem_flags p) MEM_Static" "\<not> has (mem_flags q) MEM_Ephem"
    by (simp_all add: q_def del_flags_def flag_simps)
  have e: "mem_z q = mem_z p" "mem_zMalloc q = mem_zMalloc p" "mem_n q = mem_n p" "mem_enc q = mem_enc p" "mem_xDel q = mem_xDel p"
    "mem_bytes q = mem_bytes p" by (simp_all add: q_def del_flags_def)
  have f: "flags_ok (mem_flags q)" "union_ok (mem_flags q) (mem_u q)"
    using flags_ok_steps(3) [OF mem_okD(1) [OF assms(1)]] union_ok_steps(3) [OF mem_okD(9) [OF assms(1)]] by (simp_all add: q_def del_flags_def)
  have o: "one_owner p \<Longrightarrow> mem_z p = Own \<and> mem_zMalloc p \<noteq> [] \<Longrightarrow> one_owner q"
    using h(6) unfolding one_owner_def h e by simp
  have "terminated q = terminated p" unfolding terminated_def e ..
  then have "mem_ok q" using assms f o unfolding mem_ok_def has_or h e by blast
  moreover have "held q = held p" "mem_text q = mem_text p" unfolding held_def mem_text_def h e by simp_all
  ultimately show ?thesis using e unfolding q_def by (simp add: kept_def)
qed

lemma expandBlob_kept:
  assumes "env_ok E" "mem_ok p" "has (mem_flags p) MEM_Zero"
  shows "kept p [] (\<lambda>q. has (mem_flags q) (MEM_Str OR MEM_Blob) \<and> mem_text q = mem_text p @ replicate (mem_nZero p) 0) (sqlite3VdbeMemExpandBlob E p)"
  using assms
proof (cases rule: expandBlob_ok)
  case fail
  then show ?thesis by (rule kept_failed [OF assms(2)])
next
  case (ok q)
  then have "mem_text q = mem_text p @ replicate (mem_nZero p) 0" by (simp add: mem_text_def mem_bytes_def)
  then show ?thesis using ok handed_dyn_call [OF assms(2)] by (simp add: kept_def has_or)
qed

lemma makeWriteable_ok:
  assumes "env_ok E" "mem_ok p"
  shows "kept p [] (\<lambda>q. has (mem_flags p) (MEM_Str OR MEM_Blob) \<longrightarrow> mem_text q = mem_content p \<and> mem_z q = Own \<and> mem_zMalloc q \<noteq> [])
    (sqlite3VdbeMemMakeWriteable E p)"
proof (cases "has (mem_flags p) (MEM_Str OR MEM_Blob)")
  case False
  have "sqlite3VdbeMemMakeWriteable E p = Some (0, del_flags MEM_Ephem p, [])"
    using False by (simp add: sqlite3VdbeMemMakeWriteable_def then_do_def)
  then show ?thesis using kept_mono [OF del_ephem_ok [OF assms(2)]] False by simp
next
  case True
  let ?own = "\<lambda>q. mem_z q = Own \<and> mem_zMalloc q \<noteq> []"
  have blob: "kept p [] (\<lambda>q. has (mem_flags q) (MEM_Str OR MEM_Blob) \<and> mem_text q = mem_content p)
      (if has (mem_flags p) MEM_Zero then sqlite3VdbeMemExpandBlob E p else Some (0, p, []))"
    using expandBlob_kept [OF assms] kept_same [OF assms(2)] True by (simp add: mem_content_def)
  have own: "kept q [] (\<lambda>r. ?own r \<and> mem_text r = mem_content p)
      (if mem_zMalloc q = [] \<or> mem_z q \<noteq> Own then vdbeMemAddTerminator E q else Some (0, q, []))"
    if q: "mem_ok q" "has (mem_flags q) (MEM_Str OR MEM_Blob) \<and> mem_text q = mem_content p" for q
  proof (cases "?own q")
    case True
    then show ?thesis using kept_same [OF q(1)] q(2) by simp
  next
    case False
    from assms(1) q(1) conjunct1 [OF q(2)] show ?thesis
    proof (cases rule: addTerminator_ok)
      case fail
      then show ?thesis using kept_failed [OF q(1)] False by auto
    next
      case (ok q')
      have "mem_text q' = mem_text q" using ok(4,6,8) by (simp add: mem_text_def mem_bytes_def)
      then show ?thesis using False handed_dyn_call [OF q(1)] ok q(2) by (auto simp: kept_def)
    qed
  qed
  have fin: "kept q [] (\<lambda>r. mem_text r = mem_content p \<and> ?own r) (Some (0, del_flags MEM_Ephem q, []))"
    if q: "mem_ok q" "?own q \<and> mem_text q = mem_content p" for q
    using kept_mono [OF del_ephem_ok [OF q(1)]] q(2) by simp
  show ?thesis unfolding sqlite3VdbeMemMakeWriteable_def
    by (rule kept_then [where P = "\<lambda>q. ?own q \<and> mem_text q = mem_content p"]) (use True kept_then [OF blob own] fin in auto)
qed

lemma nulTerminate_ok:
  assumes "env_ok E" "mem_ok p"
  shows "kept p [] (\<lambda>q. has (mem_flags p) MEM_Str \<longrightarrow> has (mem_flags q) MEM_Term) (sqlite3VdbeMemNulTerminate E p)"
proof (cases "mem_flags p AND (MEM_Term OR MEM_Str) \<noteq> MEM_Str")
  case True
  then have "has (mem_flags p) MEM_Str \<longrightarrow> has (mem_flags p) MEM_Term" by (simp add: flag_simps)
  then show ?thesis using True kept_same [OF assms(2)] by (simp add: sqlite3VdbeMemNulTerminate_def)
next
  case False
  then have "has (mem_flags p) (MEM_Str OR MEM_Blob)" by (simp add: flag_simps)
  with assms show ?thesis
  proof (cases rule: addTerminator_ok)
    case fail
    then show ?thesis using kept_failed [OF assms(2)] False by (simp add: sqlite3VdbeMemNulTerminate_def)
  next
    case (ok q)
    have "has (mem_flags q) MEM_Term" using ok(9) by (simp add: flag_simps)
    then show ?thesis using ok False handed_dyn_call [OF assms(2)] by (simp add: kept_def sqlite3VdbeMemNulTerminate_def)
  qed
qed

text \<open>Adding the terminator in place.\<close>

lemma add_term_ok:
  assumes "mem_ok p" "has (mem_flags p) MEM_Str" "mem_enc p = 1" "mem_n p < length (mem_bytes p)"
  defines "v \<equiv> take (mem_n p) (mem_bytes p) @ 0 # drop (Suc (mem_n p)) (mem_bytes p)"
  defines "q \<equiv> add_flags MEM_Term (put_bytes v p)"
  shows "mem_ok q" "held q = held p" "mem_text q = mem_text p" "has (mem_flags q) MEM_Term"
proof -
  have v: "length v = length (mem_bytes p)" "v ! mem_n p = 0" "take (mem_n p) v = take (mem_n p) (mem_bytes p)" "v \<noteq> []"
    using assms(4) by (auto simp: v_def nth_append)
  have z: "mem_z p \<noteq> Null" using assms(4) by (auto simp: mem_bytes_def)
  then have b: "mem_bytes q = v" by (cases "mem_z p") (simp_all add: q_def add_flags_def put_bytes_def mem_bytes_def)
  have h: "has (mem_flags q) MEM_Str = has (mem_flags p) MEM_Str" "has (mem_flags q) MEM_Blob = has (mem_flags p) MEM_Blob"
    "has (mem_flags q) MEM_Dyn = has (mem_flags p) MEM_Dyn" "has (mem_flags q) MEM_Ephem = has (mem_flags p) MEM_Ephem"
    "has (mem_flags q) MEM_Static = has (mem_flags p) MEM_Static" "has (mem_flags q) MEM_Term"
    by (cases "mem_z p"; simp add: q_def add_flags_def put_bytes_def flag_simps)+
  have e: "mem_n q = mem_n p" "mem_enc q = mem_enc p" "mem_xDel q = mem_xDel p" "mem_z q = Own \<longleftrightarrow> mem_z p = Own"
    "(\<exists>b. mem_z q = Ext a b) \<longleftrightarrow> (\<exists>b. mem_z p = Ext a b)" for a
    by (cases "mem_z p"; simp add: q_def add_flags_def put_bytes_def)+
  have zm: "mem_zMalloc q = (if mem_z p = Own then v else mem_zMalloc p)"
    by (cases "mem_z p") (simp_all add: q_def add_flags_def put_bytes_def)
  have "flags_ok (mem_flags q)" using flags_ok_steps(4) [OF mem_okD(1) [OF assms(1)]]
    by (cases "mem_z p") (simp_all add: q_def add_flags_def put_bytes_def)
  moreover have "union_ok (mem_flags q) (mem_u q)" using union_ok_steps(4) [OF mem_okD(9) [OF assms(1)]]
    by (cases "mem_z p") (simp_all add: q_def add_flags_def put_bytes_def)
  moreover have "one_owner q" using mem_okD(5) [OF assms(1)] assms(2,4) v(4) unfolding one_owner_def h e zm
    by (cases "mem_z p = Own") (auto simp: mem_bytes_def split: if_splits)
  moreover have "terminated q" using assms(3,4) v unfolding terminated_def b e by simp
  moreover have "has (mem_flags q) MEM_Dyn \<longrightarrow> mem_zMalloc q = [] \<and> mem_xDel q \<noteq> SQLITE_STATIC \<and> (\<exists>a b. mem_z q = Ext a b)"
    using mem_okD(2,3,10) [OF assms(1)] unfolding h e zm by auto
  ultimately show "mem_ok q" using assms(2,3,4) v mem_okD(4,6) [OF assms(1)] unfolding mem_ok_def h e b by auto
  show "held q = held p" using z by (cases "mem_z p") (simp_all add: held_def h(3), simp_all add: q_def add_flags_def put_bytes_def)
  show "mem_text q = mem_text p" unfolding mem_text_def b e v(3) ..
  show "has (mem_flags q) MEM_Term" by (rule h(6))
qed

lemma zeroTerminate_ok:
  assumes "mem_ok p"
  shows "\<exists>b q. sqlite3VdbeMemZeroTerminateIfAble p = Some (b, q) \<and> mem_ok q \<and> held q = held p \<and>
    (b \<longrightarrow> has (mem_flags q) MEM_Term) \<and> mem_text q = mem_text p"
proof (cases "mem_flags p AND (MEM_Str OR MEM_Term OR MEM_Ephem OR MEM_Static) = MEM_Str \<and> mem_enc p = 1")
  case False
  then show ?thesis using assms by (auto simp: sqlite3VdbeMemZeroTerminateIfAble_def)
next
  case True
  then have f: "has (mem_flags p) MEM_Str" "\<not> has (mem_flags p) MEM_Ephem" "\<not> has (mem_flags p) MEM_Static" "mem_enc p = 1"
    by (simp_all add: flag_simps)
  let ?q = "add_flags MEM_Term (put_bytes (take (mem_n p) (mem_bytes p) @ 0 # drop (Suc (mem_n p)) (mem_bytes p)) p)"
  have st: "mem_store (mem_n p) [0] p = Some (put_bytes (take (mem_n p) (mem_bytes p) @ 0 # drop (Suc (mem_n p)) (mem_bytes p)) p)"
    if "mem_n p < length (mem_bytes p)" using that by (simp add: mem_store_def store_def Suc_le_eq)
  note t = add_term_ok [OF assms f(1,4)]
  show ?thesis
  proof (cases "has (mem_flags p) MEM_Dyn")
    case dyn: True
    consider (free) "mem_xDel p = Free" "mem_n p < length (mem_bytes p)" | (rc) "mem_xDel p = RCStrUnref"
      | (other) "\<not> (mem_xDel p = Free \<and> mem_n p < length (mem_bytes p))" "mem_xDel p \<noteq> RCStrUnref" by blast
    then show ?thesis
    proof cases
      case free
      then show ?thesis using True dyn st t
        by (intro exI [of _ True] exI [of _ ?q]) (simp add: sqlite3VdbeMemZeroTerminateIfAble_def Suc_le_eq)
    next
      case rc
      then have n: "mem_n p < length (mem_bytes p)" "mem_bytes p ! mem_n p = 0" using mem_okD(8) [OF assms f(1) dyn _ f(4)] by blast+
      then have "take (mem_n p) (mem_bytes p) @ 0 # drop (Suc (mem_n p)) (mem_bytes p) = mem_bytes p"
        using id_take_nth_drop [of "mem_n p" "mem_bytes p"] by simp
      moreover have "put_bytes (mem_bytes p) p = p" by (cases "mem_z p") (simp_all add: put_bytes_def mem_bytes_def)
      ultimately have "?q = add_flags MEM_Term p" by simp
      then show ?thesis using True dyn rc t [OF n(1)]
        by (intro exI [of _ True] exI [of _ ?q]) (simp add: sqlite3VdbeMemZeroTerminateIfAble_def)
    next
      case other
      then show ?thesis using True dyn assms by (auto simp: sqlite3VdbeMemZeroTerminateIfAble_def Suc_le_eq)
    qed
  next
    case False
    have "one_owner p" using mem_okD(5) [OF assms] f(1) by blast
    then have "mem_z p = Own" using False f by (cases "mem_z p = Own") (simp_all add: one_owner_def)
    then have b: "mem_bytes p = mem_zMalloc p" by (simp add: mem_bytes_def)
    show ?thesis
    proof (cases "mem_n p < length (mem_bytes p)")
      case n: True
      then show ?thesis using True False st t b
        by (intro exI [of _ True] exI [of _ ?q]) (simp add: sqlite3VdbeMemZeroTerminateIfAble_def Suc_le_eq)
    next
      case n: False
      then show ?thesis using True False assms b
        by (intro exI [of _ False] exI [of _ p]) (simp add: sqlite3VdbeMemZeroTerminateIfAble_def)
    qed
  qed
qed

lemma setInt64_ok:
  assumes "mem_ok p"
  shows "kept p [] (\<lambda>q. mem_flags q = MEM_Int \<and> mem_u q = U_i v) (returns (sqlite3VdbeMemSetInt64 E p v))"
proof -
  have "sqlite3VdbeMemSetInt64 E p v = (p\<lparr>mem_u := U_i v, mem_flags := MEM_Int\<rparr>, dyn_call p)"
    using setNull_eq [OF assms] dynamic_iff [OF no_agg [OF assms]] by (simp add: sqlite3VdbeMemSetInt64_def) (simp add: dyn_call_def)
  then show ?thesis using mem_ok_simple handed_dyn_call [OF assms] by (simp add: kept_def returns_def)
qed

lemma setNull_ok:
  assumes "mem_ok p"
  shows "kept p [] (\<lambda>q. mem_flags q = MEM_Null) (case sqlite3VdbeMemSetNull E p of (q, w) \<Rightarrow> Some (0, q, w))"
  using setNull_eq [OF assms] mem_ok_simple handed_dyn_call [OF assms] by (simp add: kept_def)

lemma setZeroBlob_ok:
  assumes "mem_ok p"
  shows "kept p [] (\<lambda>q. has (mem_flags q) MEM_Blob \<and> mem_content q = replicate (nat n) 0)
    (returns (sqlite3VdbeMemSetZeroBlob E p n))"
proof -
  obtain r where r: "sqlite3VdbeMemRelease E p = (r, dyn_call p)" using release_eq [OF no_agg [OF assms]] by simp
  let ?q = "r\<lparr>mem_flags := MEM_Blob OR MEM_Zero, mem_n := 0, mem_u := U_nZero (nat n), mem_enc := 1, mem_z := Null\<rparr>"
  have "mem_ok ?q" "held ?q = []" by (simp_all add: mem_ok_def flags_ok_def union_ok_def held_def flag_simps)
  then show ?thesis using r handed_dyn_call [OF assms]
    by (simp add: kept_def returns_def sqlite3VdbeMemSetZeroBlob_def flag_simps mem_nZero_def mem_text_def mem_content_def)
qed

text \<open>Storing text and blobs.\<close>

lemma strlen_ok: "0 \<in> set z \<Longrightarrow> \<exists>k. strlen z = Some k \<and> k < length z \<and> z ! k = 0"
  by (induction z) auto

definition utf16_terminated :: "u8 list \<Rightarrow> bool" where
  "utf16_terminated z \<longleftrightarrow> (\<exists>i. Suc (2 * i) < length z \<and> z ! (2 * i) = 0 \<and> z ! Suc (2 * i) = 0)"

lemma strlen16_ok:
  "utf16_terminated z \<Longrightarrow> even j \<Longrightarrow> \<exists>k. strlen16 lim j z = Some (j + k) \<and>
    (j + k \<le> lim \<longrightarrow> even k \<and> Suc k < length z \<and> z ! k = 0 \<and> z ! Suc k = 0)"
proof (induction lim j z rule: strlen16.induct)
  case (1 lim j a b z)
  show ?case
  proof (cases "j \<le> lim \<and> \<not> (a = 0 \<and> b = 0)")
    case True
    obtain i where i: "Suc (2 * i) < length (a # b # z)" "(a # b # z) ! (2 * i) = 0" "(a # b # z) ! Suc (2 * i) = 0"
      using 1(2) unfolding utf16_terminated_def by blast
    then have "i \<noteq> 0" using True by (cases i) auto
    then have "utf16_terminated z" unfolding utf16_terminated_def using i by (intro exI [of _ "i - 1"]) (cases i; simp)
    then obtain k where "strlen16 lim (j + 2) z = Some (j + 2 + k)"
        "j + 2 + k \<le> lim \<longrightarrow> even k \<and> Suc k < length z \<and> z ! k = 0 \<and> z ! Suc k = 0"
      using 1(1) [OF True] 1(3) by auto
    then show ?thesis using True by (intro exI [of _ "Suc (Suc k)"]) auto
  next
    case False
    then show ?thesis by (intro exI [of _ 0]) auto
  qed
qed (auto simp: utf16_terminated_def)

lemma resize_ok:
  assumes "env_ok E" "mem_ok p" "0 < k"
  obtains (fail) "failed p (dyn_call p) (sqlite3VdbeMemClearAndResize E p k)"
    | (ok) q w where "sqlite3VdbeMemClearAndResize E p k = Some (0, q, w)" "handed w = held p" "mem_z q = Own" "k \<le> length (mem_zMalloc q)"
proof (cases "length (mem_zMalloc p) < k")
  case False
  then have "\<not> has (mem_flags p) MEM_Dyn" using mem_okD(2) [OF assms(2)] assms(3) by auto
  then show ?thesis using ok False by (simp add: sqlite3VdbeMemClearAndResize_def held_def)
next
  case True
  show ?thesis
  proof (cases "me_alloc E k")
    case None
    then show ?thesis using True fail setNull_eq [OF assms(2)]
      by (simp add: sqlite3VdbeMemClearAndResize_def sqlite3VdbeMemGrow_def failed_def)
  next
    case (Some b)
    then have "k \<le> length b" using assms(1) unfolding env_ok_def by blast
    then show ?thesis using ok True Some handed_dyn_call [OF assms(2)]
      by (simp add: sqlite3VdbeMemClearAndResize_def sqlite3VdbeMemGrow_def grown_def del_flags_def dyn_call_def)
  qed
qed

text \<open>What a caller must respect: the length lies in the buffer, or the buffer is terminated.\<close>

definition string_ok :: "u8 list \<Rightarrow> nat option \<Rightarrow> nat \<Rightarrow> destructor \<Rightarrow> bool" where
  "string_ok z n enc xDel \<longleftrightarrow> enc \<le> 3 \<and> (xDel = SQLITE_DYNAMIC \<longrightarrow> z \<noteq> []) \<and>
     (case n of
        None \<Rightarrow> if enc = 1 then 0 \<in> set z else enc \<noteq> 0 \<and> utf16_terminated z
      | Some k \<Rightarrow> k \<le> length z \<and> (1 < enc \<longrightarrow> even k) \<and> (xDel = RCStrUnref \<longrightarrow> k < length z \<and> z ! k = 0))"

definition text_end :: "u8 list \<Rightarrow> nat \<Rightarrow> nat \<Rightarrow> bool" where
  "text_end z k e \<longleftrightarrow> k < length z \<and> z ! k = 0 \<and> (e \<noteq> 1 \<longrightarrow> Suc k < length z \<and> z ! Suc k = 0)"

text \<open>\<open>string_fit\<close>: the facts about the bytes \<open>z\<close>, the length \<open>k\<close> and the encoding \<open>e\<close> of a value with the flags \<open>f\<close>.\<close>

definition string_fit :: "u8 list \<Rightarrow> nat \<Rightarrow> nat \<Rightarrow> u16 \<Rightarrow> bool" where
  "string_fit z k e f \<longleftrightarrow>
     k \<le> length z \<and> e \<in> {1, 2, 3} \<and> (e = 1 \<or> even k) \<and> (f = MEM_Blob \<or> f = MEM_Str \<or> f = MEM_Str OR MEM_Term \<and> text_end z k e)"

lemma string_flags:
  assumes "string_fit z k e f"
  shows "flags_ok f" "\<not> has f owner_flags" "flags_ok (f OR MEM_Static)" "flags_ok (f OR MEM_Dyn)"
    "has f MEM_Term \<Longrightarrow> text_end z k e" "has f MEM_Str \<or> has f MEM_Blob"
    "union_ok f u" "union_ok (f OR MEM_Static) u" "union_ok (f OR MEM_Dyn) u"
proof -
  have c: "f = MEM_Blob \<or> f = MEM_Str \<or> f = MEM_Str OR MEM_Term" and t: "f = MEM_Blob \<or> f = MEM_Str \<or> text_end z k e"
    using assms unfolding string_fit_def by blast+
  show "flags_ok f" using c by (elim disjE) (simp_all add: flags_ok_def flag_simps)
  show "\<not> has f owner_flags" using c by (elim disjE) (simp_all add: flag_simps)
  show "flags_ok (f OR MEM_Static)" using c by (elim disjE) (simp_all add: flags_ok_def flag_simps)
  show "flags_ok (f OR MEM_Dyn)" using c by (elim disjE) (simp_all add: flags_ok_def flag_simps)
  show "union_ok f u" using c by (elim disjE) (simp_all add: union_ok_def flag_simps)
  show "union_ok (f OR MEM_Static) u" using c by (elim disjE) (simp_all add: union_ok_def flag_simps)
  show "union_ok (f OR MEM_Dyn) u" using c by (elim disjE) (simp_all add: union_ok_def flag_simps)
  show "has f MEM_Str \<or> has f MEM_Blob" using c by (elim disjE) (simp_all add: flag_simps)
  show "has f MEM_Term \<Longrightarrow> text_end z k e" using t by (elim disjE) (simp_all add: flag_simps)
qed

lemma string_fitD:
  assumes "string_fit z k e f"
  shows "k \<le> length z" "e \<in> {1, 2, 3}" "e = 1 \<or> even k"
  using assms unfolding string_fit_def by blast+

lemma string_own:
  assumes "string_fit z k e f" "mem_z q = Own" "length z \<le> length (mem_zMalloc q)" "Suc 0 \<le> length (mem_zMalloc q)"
    "take (length z) (mem_zMalloc q) = z" "mem_n q = k" "mem_flags q = f" "mem_enc q = e"
  shows "mem_ok q" "held q = []" "mem_text q = take k z"
proof -
  have b: "mem_bytes q = mem_zMalloc q" using assms(2) by (simp add: mem_bytes_def)
  have nth: "mem_zMalloc q ! i = z ! i" if "i < length z" for i using assms(5) that by (metis nth_take)
  have "terminated q" if "has f MEM_Term"
    using string_flags(5) [OF assms(1) that] nth assms(3,6,8) b by (auto simp: text_end_def terminated_def)
  then have t: "has (mem_flags q) MEM_Str \<Longrightarrow> has (mem_flags q) MEM_Term \<Longrightarrow> terminated q" using assms(7) by simp
  have n: "mem_n q \<le> length (mem_zMalloc q)" using string_fitD(1) [OF assms(1)] assms(3,6) by simp
  have e: "mem_enc q \<in> {1, 2, 3} \<and> (mem_enc q = 1 \<or> even (mem_n q))" using string_fitD(2,3) [OF assms(1)] assms(6,8) by simp
  have f: "flags_ok (mem_flags q)" "union_ok (mem_flags q) (mem_u q)" "\<not> has (mem_flags q) owner_flags"
    using string_flags(1,2,7) [OF assms(1)] assms(7) by simp_all
  show "mem_ok q" "held q = []" using own_cell_ok [OF f assms(2,4) n e t] by blast+
  have "take k (mem_zMalloc q) = take k (take (length z) (mem_zMalloc q))" using string_fitD(1) [OF assms(1)] by (simp add: min_def)
  then show "mem_text q = take k z" using assms(5,6) b by (simp add: mem_text_def)
qed

lemma string_ext:
  assumes "string_fit z k e f" "mem_z q = Ext a z" "mem_n q = k" "mem_enc q = e"
    "mem_flags q = f OR (if dyn then MEM_Dyn else MEM_Static)" "dyn \<Longrightarrow> mem_zMalloc q = [] \<and> mem_xDel q \<noteq> SQLITE_STATIC"
    "mem_xDel q = RCStrUnref \<Longrightarrow> k < length z \<and> z ! k = 0"
  shows "mem_ok q" "held q = (if dyn then [a] else [])" "mem_text q = take k z"
proof -
  have b: "mem_bytes q = z" using assms(2) by (simp add: mem_bytes_def)
  have o: "\<not> has f MEM_Dyn" "\<not> has f MEM_Ephem" "\<not> has f MEM_Static" using string_flags(2) [OF assms(1)] by (simp_all add: has_or)
  have h: "has (mem_flags q) MEM_Dyn = dyn" "has (mem_flags q) MEM_Static = (\<not> dyn)" "\<not> has (mem_flags q) MEM_Ephem"
    "has (mem_flags q) MEM_Term = has f MEM_Term"
    using o unfolding assms(5) by (cases dyn; simp add: flag_simps)+
  have f: "flags_ok (mem_flags q)" "union_ok (mem_flags q) (mem_u q)"
    using string_flags(3,4,8,9) [OF assms(1)] unfolding assms(5) by simp_all
  have w: "one_owner q" using assms(2) h by (simp add: one_owner_def)
  have t: "has (mem_flags q) MEM_Term \<Longrightarrow> terminated q"
    using string_flags(5) [OF assms(1)] b assms(3,4) h(4) by (auto simp: text_end_def terminated_def)
  have e: "mem_enc q \<in> {1, 2, 3} \<and> (mem_enc q = 1 \<or> even (mem_n q))" "mem_n q \<le> length (mem_bytes q)"
    using string_fitD [OF assms(1)] assms(3,4) b by simp_all
  show "mem_ok q" unfolding mem_ok_def using f w t e assms(2,3,6,7) h(1) b by blast
  show "held q = (if dyn then [a] else [])" using assms(2) h(1) by (simp add: held_def)
  show "mem_text q = take k z" using b assms(3) by (simp add: mem_text_def)
qed

lemma copy_stage:
  assumes "env_ok E" "mem_ok p" "string_fit v k e f" "length v \<le> sz" "0 < sz" "k < 2 ^ 31"
  shows "kept p [] (\<lambda>q. mem_enc q = e \<and> (has (mem_flags q) MEM_Str \<longleftrightarrow> has f MEM_Str) \<and> mem_text q = take k v)
    (then_do (sqlite3VdbeMemClearAndResize E p sz)
       (\<lambda>p. finish (map_option (\<lambda>p. p\<lparr>mem_n := k mod 2 ^ 31, mem_flags := f, mem_enc := e\<rparr>) (mem_store 0 v p))))"
  using assms(1,2,5)
proof (cases rule: resize_ok)
  case fail
  then have "failed p (dyn_call p) (then_do (sqlite3VdbeMemClearAndResize E p sz)
       (\<lambda>p. finish (map_option (\<lambda>p. p\<lparr>mem_n := k mod 2 ^ 31, mem_flags := f, mem_enc := e\<rparr>) (mem_store 0 v p))))"
    by (auto simp: failed_def then_do_def)
  then show ?thesis by (rule kept_failed [OF assms(2)])
next
  case (ok q w)
  let ?b = "v @ drop (length v) (mem_zMalloc q)"
  let ?q = "q\<lparr>mem_zMalloc := ?b, mem_n := k, mem_flags := f, mem_enc := e\<rparr>"
  have l: "length v \<le> length (mem_zMalloc q)" "Suc 0 \<le> length (mem_zMalloc q)" using ok(4) assms(4,5) by linarith+
  have "mem_store 0 v q = Some (q\<lparr>mem_zMalloc := ?b\<rparr>)"
    using ok(3) l by (simp add: mem_store_def store_def mem_bytes_def put_bytes_def)
  then have r: "then_do (sqlite3VdbeMemClearAndResize E p sz)
       (\<lambda>p. finish (map_option (\<lambda>p. p\<lparr>mem_n := k mod 2 ^ 31, mem_flags := f, mem_enc := e\<rparr>) (mem_store 0 v p))) = Some (0, ?q, w)"
    using ok(1) assms(6) by (simp add: then_do_def finish_def)
  have "mem_ok ?q" "held ?q = []" "mem_text ?q = take k v" using string_own [OF assms(3), of ?q] ok(3) l by simp_all
  then show ?thesis using r ok(2) by (simp add: kept_def)
qed

lemma pointer_stage:
  assumes "mem_ok p" "string_fit z k e f" "k < 2 ^ 31" "xDel \<noteq> SQLITE_TRANSIENT" "xDel = SQLITE_DYNAMIC \<Longrightarrow> z \<noteq> []"
    "xDel = RCStrUnref \<Longrightarrow> k < length z \<and> z ! k = 0"
  shows "kept p (handed (give_away xDel a z)) (\<lambda>q. mem_enc q = e \<and> (has (mem_flags q) MEM_Str \<longleftrightarrow> has f MEM_Str) \<and> mem_text q = take k z)
    (case take_pointer E c p a z xDel f of (f, p, w) \<Rightarrow> Some (0, p\<lparr>mem_n := k mod 2 ^ 31, mem_flags := f, mem_enc := e\<rparr>, w))"
proof -
  obtain r where r: "sqlite3VdbeMemRelease E p = (r, dyn_call p)" "mem_zMalloc r = []"
    using release_eq [OF no_agg [OF assms(1)], of E] by (auto split: if_splits)
  show ?thesis
  proof (cases "xDel = SQLITE_DYNAMIC")
    case True
    let ?q = "r\<lparr>mem_z := Own, mem_zMalloc := z, mem_xDel := if c then SQLITE_STATIC else mem_xDel r, mem_n := k, mem_flags := f, mem_enc := e\<rparr>"
    have "Suc 0 \<le> length z" using assms(5) True by (simp add: Suc_le_eq)
    then have "mem_ok ?q" "held ?q = []" "mem_text ?q = take k z" using string_own [OF assms(2), of ?q] by simp_all
    then show ?thesis using True r(1) handed_dyn_call [OF assms(1)] assms(3)
      by (simp add: kept_def take_pointer_def give_away_def)
  next
    case False
    define dyn where "dyn = (xDel \<noteq> SQLITE_STATIC)"
    let ?q = "r\<lparr>mem_z := Ext a z, mem_xDel := xDel, mem_n := k, mem_flags := f OR (if dyn then MEM_Dyn else MEM_Static), mem_enc := e\<rparr>"
    have q: "mem_ok ?q" "held ?q = (if dyn then [a] else [])" "mem_text ?q = take k z"
      using string_ext [OF assms(2), of ?q a dyn] r(2) assms(6) by (simp_all add: dyn_def)
    have "(case take_pointer E c p a z xDel f of (f, p, w) \<Rightarrow> Some (0, p\<lparr>mem_n := k mod 2 ^ 31, mem_flags := f, mem_enc := e\<rparr>, w)) = Some (0, ?q, dyn_call p)"
      using False r(1) assms(3) by (simp add: take_pointer_def dyn_def)
    moreover have "handed (give_away xDel a z) = (if dyn then [a] else [])"
      using False assms(4) by (auto simp: give_away_def dyn_def)
    moreover have "has (mem_flags ?q) MEM_Str \<longleftrightarrow> has f MEM_Str" by (simp add: flag_simps)
    ultimately show ?thesis using q handed_dyn_call [OF assms(1)] unfolding kept_def
      by (intro exI [of _ 0] exI [of _ ?q] exI [of _ "dyn_call p"]) simp
  qed
qed

lemma too_big:
  assumes "mem_ok p"
  shows "kept p (handed g) P (case sqlite3VdbeMemSetNull E p of (q, w) \<Rightarrow> Some (18, q, g @ w))"
  using setNull_eq [OF assms] mem_ok_simple handed_dyn_call [OF assms] by (simp add: kept_def)

text \<open>
  Text beyond the limit: the cell becomes NULL, whatever it held, although the comment of the
  function says that its value may be unchanged.
\<close>

lemma setStr_too_long_clears:
  assumes "mem_ok p" "me_limit E < k"
  shows "sqlite3VdbeMemSetStr E p (Some (a, z)) (Some k) enc xDel = Some (18, p\<lparr>mem_flags := MEM_Null\<rparr>, give_away xDel a z @ dyn_call p)"
  using assms setNull_eq [OF assms(1)] by (simp add: sqlite3VdbeMemSetStr_def Let_def)

text \<open>The length, flags and encoding computed from the arguments fit the bytes unless the text is too long.\<close>

abbreviation (input) str_flags :: "nat option \<Rightarrow> nat \<Rightarrow> u16" where
  "str_flags n enc \<equiv> if n = None then MEM_Str OR MEM_Term else if enc = 0 then MEM_Blob else MEM_Str"

lemma string_length:
  assumes "string_ok z n enc xDel"
  obtains k where "(case n of Some k \<Rightarrow> Some k | None \<Rightarrow> if enc = 1 then strlen z else strlen16 lim 0 z) = Some k"
    "k \<le> lim \<Longrightarrow> string_fit z k (if enc = 0 then 1 else enc) (str_flags n enc)"
    "k \<le> lim \<Longrightarrow> xDel = RCStrUnref \<Longrightarrow> k < length z \<and> z ! k = 0" "n \<noteq> None \<Longrightarrow> n = Some k"
proof (cases n)
  case (Some k)
  then show ?thesis using assms by (intro that [of k]) (auto simp: string_ok_def string_fit_def)
next
  case None
  show ?thesis
  proof (cases "enc = 1")
    case True
    then obtain k where "strlen z = Some k" "k < length z" "z ! k = 0" using strlen_ok [of z] assms None by (auto simp: string_ok_def)
    then show ?thesis using True None by (intro that [of k]) (simp_all add: string_fit_def text_end_def)
  next
    case False
    then have "utf16_terminated z" "enc = 2 \<or> enc = 3" using assms None by (auto simp: string_ok_def)
    moreover from this(1) obtain k where "strlen16 lim 0 z = Some k" "k \<le> lim \<longrightarrow> even k \<and> Suc k < length z \<and> z ! k = 0 \<and> z ! Suc k = 0"
      using strlen16_ok [of z 0 lim] by auto
    ultimately show ?thesis using False None by (intro that [of k]) (auto simp: string_fit_def text_end_def)
  qed
qed

lemma string_fit_take:
  assumes "string_fit z k e f"
  defines "m \<equiv> k + (if has f MEM_Term then if e = 1 then 1 else 2 else 0)"
  shows "m \<le> length z" "string_fit (take m z) k e f" "take k (take m z) = take k z"
proof -
  have m: "k \<le> m" "has f MEM_Term \<Longrightarrow> k < m \<and> (e \<noteq> 1 \<longrightarrow> Suc k < m)" by (auto simp: m_def)
  show "m \<le> length z" using string_fitD(1) [OF assms(1)] string_flags(5) [OF assms(1)] by (auto simp: m_def text_end_def)
  then show "string_fit (take m z) k e f" using m assms(1) by (auto simp: string_fit_def text_end_def flag_simps)
  show "take k (take m z) = take k z" using m(1) by (simp add: min_def)
qed

definition str_result :: "(nat \<times> u8 list) option \<Rightarrow> nat option \<Rightarrow> nat \<Rightarrow> Mem \<Rightarrow> bool" where
  "str_result zz n enc q \<longleftrightarrow>
     (case zz of
        None \<Rightarrow> mem_flags q = MEM_Null
      | Some (a, z) \<Rightarrow> \<forall>k. n = Some k \<and> enc \<le> 1 \<longrightarrow>
          mem_text q = take k z \<and> (has (mem_flags q) MEM_Str \<longleftrightarrow> enc = 1) \<and> (enc = 1 \<longrightarrow> mem_enc q = 1))"

definition str_given :: "(nat \<times> u8 list) option \<Rightarrow> destructor \<Rightarrow> nat list" where
  "str_given zz xDel = (case zz of None \<Rightarrow> [] | Some (a, z) \<Rightarrow> handed (give_away xDel a z))"

definition str_args_ok :: "(nat \<times> u8 list) option \<Rightarrow> nat option \<Rightarrow> nat \<Rightarrow> destructor \<Rightarrow> bool" where
  "str_args_ok zz n enc xDel = (case zz of None \<Rightarrow> True | Some (a, z) \<Rightarrow> string_ok z n enc xDel)"

lemma setStr_stage:
  assumes "env_ok E" "mem_ok p" "string_fit z k e f" "k \<le> me_limit E" "xDel = SQLITE_DYNAMIC \<Longrightarrow> z \<noteq> []"
    "xDel = RCStrUnref \<Longrightarrow> k < length z \<and> z ! k = 0"
  shows "kept p (handed (give_away xDel a z)) (\<lambda>q. mem_enc q = e \<and> (has (mem_flags q) MEM_Str \<longleftrightarrow> has f MEM_Str) \<and> mem_text q = take k z)
    (if xDel = SQLITE_TRANSIENT
     then let nAlloc = k + (if has f MEM_Term then (if e = 1 then 1 else 2) else 0)
          in then_do (sqlite3VdbeMemClearAndResize E p (max nAlloc 32))
               (\<lambda>p. finish (if nAlloc \<le> length z
                            then map_option (\<lambda>p. p\<lparr>mem_n := k mod 2 ^ 31, mem_flags := f, mem_enc := e\<rparr>)
                                   (mem_store 0 (take nAlloc z) p)
                            else None))
     else (case take_pointer E False p a z xDel f of
             (f, p, w) \<Rightarrow> Some (0, p\<lparr>mem_n := k mod 2 ^ 31, mem_flags := f, mem_enc := e\<rparr>, w)))"
proof -
  have k: "k < 2 ^ 31" using assms(1,4) by (simp add: env_ok_def)
  show ?thesis
  proof (cases "xDel = SQLITE_TRANSIENT")
    case True
    let ?m = "k + (if has f MEM_Term then if e = 1 then 1 else 2 else 0)"
    note t = string_fit_take [OF assms(3)]
    have "kept p [] (\<lambda>q. mem_enc q = e \<and> (has (mem_flags q) MEM_Str \<longleftrightarrow> has f MEM_Str) \<and> mem_text q = take k (take ?m z))
      (then_do (sqlite3VdbeMemClearAndResize E p (max ?m 32))
         (\<lambda>p. finish (map_option (\<lambda>p. p\<lparr>mem_n := k mod 2 ^ 31, mem_flags := f, mem_enc := e\<rparr>) (mem_store 0 (take ?m z) p))))"
      by (rule copy_stage [OF assms(1,2) t(2) _ _ k]) auto
    then show ?thesis using True t(1,3) by (simp add: give_away_def Let_def)
  next
    case False
    then show ?thesis using pointer_stage [OF assms(2,3) k False assms(5,6), where a = a and E = E and c = False] by simp
  qed
qed

lemma setStr_ok:
  assumes "env_ok E" "mem_ok p" "str_args_ok zz n enc xDel"
  shows "kept p (str_given zz xDel) (str_result zz n enc) (sqlite3VdbeMemSetStr E p zz n enc xDel)"
proof (cases zz)
  case None
  then show ?thesis using kept_mono [OF setNull_ok [OF assms(2)]] by (simp add: sqlite3VdbeMemSetStr_def str_result_def str_given_def)
next
  case (Some az)
  obtain a z where zz: "zz = Some (a, z)" using Some by (cases az) simp
  then have s: "string_ok z n enc xDel" using assms(3) by (simp add: str_args_ok_def)
  obtain k where k: "(case n of Some k \<Rightarrow> Some k | None \<Rightarrow> if enc = 1 then strlen z else strlen16 (me_limit E) 0 z) = Some k"
    "k \<le> me_limit E \<Longrightarrow> string_fit z k (if enc = 0 then 1 else enc) (str_flags n enc)"
    "k \<le> me_limit E \<Longrightarrow> xDel = RCStrUnref \<Longrightarrow> k < length z \<and> z ! k = 0" "n \<noteq> None \<Longrightarrow> n = Some k"
    using string_length [OF s] by blast
  show ?thesis
  proof (cases "k \<le> me_limit E")
    case False
    then show ?thesis using too_big [OF assms(2), of "give_away xDel a z"] k(1) zz by (simp add: sqlite3VdbeMemSetStr_def Let_def str_given_def)
  next
    case True
    let ?e = "if enc = 0 then 1 else enc" and ?f = "str_flags n enc"
    let ?P = "\<lambda>q. mem_enc q = ?e \<and> (has (mem_flags q) MEM_Str \<longleftrightarrow> has ?f MEM_Str) \<and> mem_text q = take k z"
    have d: "xDel = SQLITE_DYNAMIC \<Longrightarrow> z \<noteq> []" using s by (simp add: string_ok_def)
    note st = setStr_stage [OF assms(1,2) k(2) [OF True] True d k(3) [OF True], where a = a]
    have h: "has ?f MEM_Str \<longleftrightarrow> enc \<noteq> 0" using s by (cases n) (auto simp: flag_simps string_ok_def split: if_splits)
    have "kept q [] (str_result zz n enc) (if ?e > 1 then sqlite3VdbeMemHandleBom E q else Some (0, q, []))" if q: "mem_ok q" "?P q" for q
    proof (cases "enc > 1")
      case True
      then have "kept q [] (\<lambda>q. has (mem_flags q) MEM_Str) (sqlite3VdbeMemHandleBom E q)"
        using handleBom_ok [OF assms(1) q(1)] q(2) h by simp
      then have "kept q [] (str_result zz n enc) (sqlite3VdbeMemHandleBom E q)"
        by (rule kept_mono) (use True zz in \<open>simp add: str_result_def\<close>)
      then show ?thesis using True by simp
    next
      case False
      have "str_result zz n enc q" using q(2) h k(4) zz False by (auto simp: str_result_def)
      then show ?thesis using kept_same [OF q(1)] False by simp
    qed
    then show ?thesis using kept_then [OF st] True k(1) zz
      unfolding sqlite3VdbeMemSetStr_def by (simp add: Let_def str_given_def)
  qed
qed

lemma setText_ok:
  assumes "env_ok E" "mem_ok p" "str_args_ok zz n 1 xDel"
  shows "kept p (str_given zz xDel) (str_result zz n 1) (sqlite3VdbeMemSetText E p zz n xDel)"
proof (cases zz)
  case None
  then show ?thesis using kept_mono [OF setNull_ok [OF assms(2)]] by (simp add: sqlite3VdbeMemSetText_def str_result_def str_given_def)
next
  case (Some az)
  obtain a z where zz: "zz = Some (a, z)" using Some by (cases az) simp
  then have s: "string_ok z n 1 xDel" using assms(3) by (simp add: str_args_ok_def)
  define f where "f = (if n = None then MEM_Str OR MEM_Term else MEM_Str)"
  obtain k where k: "(case n of Some k \<Rightarrow> Some k | None \<Rightarrow> strlen z) = Some k"
    "k \<le> me_limit E \<Longrightarrow> string_fit z k 1 f"
    "k \<le> me_limit E \<Longrightarrow> xDel = RCStrUnref \<Longrightarrow> k < length z \<and> z ! k = 0" "n \<noteq> None \<Longrightarrow> n = Some k"
  proof (rule string_length [OF s, of "me_limit E"], goal_cases)
    case (1 k)
    show ?case by (rule 1(1)) (use 1(2-5) in \<open>cases n; simp add: f_def\<close>)+
  qed
  let ?P = "\<lambda>q. mem_enc q = 1 \<and> (has (mem_flags q) MEM_Str \<longleftrightarrow> has f MEM_Str) \<and> mem_text q = take k z"
  have h: "has f MEM_Str" by (simp add: f_def flag_simps)
  have P: "str_result zz n 1 q" if "?P q" for q using that h k(4) zz by (auto simp: str_result_def)
  consider (big) "\<not> k \<le> me_limit E" | (copy) "k \<le> me_limit E" "xDel = SQLITE_TRANSIENT" | (ptr) "k \<le> me_limit E" "xDel \<noteq> SQLITE_TRANSIENT"
    by blast
  then show ?thesis
  proof cases
    case big
    then show ?thesis using too_big [OF assms(2), of "give_away xDel a z"] k(1) zz by (simp add: sqlite3VdbeMemSetText_def Let_def str_given_def)
  next
    case copy
    have l: "k \<le> length z" "k < 2 ^ 31" using string_fitD(1) [OF k(2) [OF copy(1)]] assms(1) copy(1) by (simp_all add: env_ok_def)
    then have v: "string_fit (take k z @ [0]) k 1 f" by (auto simp: string_fit_def text_end_def nth_append f_def)
    have "kept p [] (\<lambda>q. mem_enc q = 1 \<and> (has (mem_flags q) MEM_Str \<longleftrightarrow> has f MEM_Str) \<and> mem_text q = take k (take k z @ [0]))
      (then_do (sqlite3VdbeMemClearAndResize E p (max (k + 1) 32))
         (\<lambda>p. finish (map_option (\<lambda>p. p\<lparr>mem_n := k mod 2 ^ 31, mem_flags := f, mem_enc := 1\<rparr>) (mem_store 0 (take k z @ [0]) p))))"
      by (rule copy_stage [OF assms(1,2) v _ _ l(2)]) (use l in auto)
    then have "kept p [] (str_result zz n 1) (then_do (sqlite3VdbeMemClearAndResize E p (max (k + 1) 32))
         (\<lambda>p. finish (map_option (\<lambda>p. p\<lparr>mem_n := k mod 2 ^ 31, mem_flags := f, mem_enc := 1\<rparr>) (mem_store 0 (take k z @ [0]) p))))"
      by (rule kept_mono) (rule P, use l in simp)
    then have "kept p [] (str_result zz n 1) (sqlite3VdbeMemSetText E p zz n xDel)"
      using copy k(1) zz l by (simp add: sqlite3VdbeMemSetText_def Let_def f_def [symmetric])
    then show ?thesis using copy(2) zz by (simp add: str_given_def give_away_def)
  next
    case ptr
    have d: "xDel = SQLITE_DYNAMIC \<Longrightarrow> z \<noteq> []" using s by (simp add: string_ok_def)
    have "k < 2 ^ 31" using assms(1) ptr(1) by (simp add: env_ok_def)
    from kept_mono [OF pointer_stage [OF assms(2) k(2) [OF ptr(1)] this ptr(2) d k(3) [OF ptr(1)], where a = a and E = E and c = True] P]
    show ?thesis using ptr k(1) zz by (simp add: sqlite3VdbeMemSetText_def Let_def str_given_def f_def [symmetric])
  qed
qed

lemma setDouble_ok:
  assumes "mem_ok p"
  shows "kept p [] (\<lambda>q. if IsNaN v then mem_flags q = MEM_Null else mem_flags q = MEM_Real \<and> mem_u q = U_r v)
    (returns (sqlite3VdbeMemSetDouble E p v))"
  using setNull_eq [OF assms] mem_ok_simple handed_dyn_call [OF assms]
  by (simp add: kept_def returns_def sqlite3VdbeMemSetDouble_def)

lemma setPointer_ok:
  assumes "mem_flags p = MEM_Null" "xDel \<noteq> Some SQLITE_STATIC"
  shows "kept p [a] (\<lambda>q. mem_z q = Ext a b \<and> has (mem_flags q) MEM_Null) (returns (sqlite3VdbeMemSetPointer E p (Ext a b) t xDel))"
proof -
  have "vdbeMemClear E p = (p\<lparr>mem_zMalloc := [], mem_z := Null\<rparr>, [])" "held p = []"
    using assms(1) by (simp_all add: vdbeMemClear_def VdbeMemDynamic_def held_def flag_simps)
  then show ?thesis using assms(2)
    by (auto simp: kept_def returns_def sqlite3VdbeMemSetPointer_def mem_ok_def flags_ok_def union_ok_def held_def flag_simps split: option.splits)
qed

text \<open>A copy of the cell that does not own the buffer.\<close>

lemma cell_copy_ok:
  fixes a :: nat and t :: Mem
  assumes "mem_ok p" "flags_ok f" "union_ok f (mem_u p)" "\<not> has f MEM_Dyn" "\<And>m. m \<in> {MEM_Str, MEM_Blob, MEM_Term} \<Longrightarrow> has f m = has (mem_flags p) m"
    "has f MEM_Str \<or> has f MEM_Blob \<and> mem_n p > 0 \<Longrightarrow> has f MEM_Ephem \<noteq> has f MEM_Static"
  defines "q \<equiv> (cell_copy a t p)\<lparr>mem_flags := f\<rparr>"
  shows "mem_ok q" "held q = []" "mem_text q = mem_text p"
proof -
  have b: "mem_bytes q = mem_bytes p" by (cases "mem_z p") (simp_all add: q_def cell_copy_def mem_bytes_def)
  have e: "mem_n q = mem_n p" "mem_enc q = mem_enc p" "mem_u q = mem_u p" "mem_flags q = f" "mem_z q \<noteq> Own"
    by (cases "mem_z p"; simp add: q_def cell_copy_def)+
  have o: "has f MEM_Str \<or> has f MEM_Blob \<and> mem_n p > 0 \<Longrightarrow> one_owner q"
    using assms(4,6) e by (cases "has f MEM_Ephem") (simp_all add: one_owner_def)
  have t: "terminated q \<longleftrightarrow> terminated p" unfolding terminated_def b e ..
  show "mem_ok q" unfolding mem_ok_def e b t
    using mem_okD(4,6,7) [OF assms(1)] assms(2-5) o by (auto simp: has_or)
  show "held q = []" using assms(4) e by (simp add: held_def)
  show "mem_text q = mem_text p" unfolding mem_text_def b e ..
qed

lemma clear_ok:
  assumes "mem_ok p"
  obtains r where "(if VdbeMemDynamic p then vdbeMemClearExternAndSetNull E p else (p, [])) = (r, dyn_call p)"
proof (cases "has (mem_flags p) MEM_Dyn")
  case True
  then show ?thesis using that no_agg [OF assms] by (simp add: dynamic_iff clearExtern_eq)
next
  case False
  then show ?thesis using that no_agg [OF assms] by (simp add: dynamic_iff dyn_call_def)
qed

lemma shallow_flags:
  assumes "s = MEM_Ephem \<or> s = MEM_Static"
  defines "g f \<equiv> (f AND NOT (MEM_Dyn OR MEM_Static OR MEM_Ephem)) OR s"
  shows "flags_ok f \<Longrightarrow> flags_ok (g f)" "\<not> has (g f) MEM_Dyn" "union_ok f u \<Longrightarrow> union_ok (g f) u"
    "has (g f) MEM_Str = has f MEM_Str" "has (g f) MEM_Blob = has f MEM_Blob" "has (g f) MEM_Term = has f MEM_Term"
    "has (g f) MEM_Ephem \<noteq> has (g f) MEM_Static"
  using assms(1) unfolding g_def flags_ok_def union_ok_def by (elim disjE; simp add: flag_simps)+

lemma shallowCopy_ok:
  assumes "mem_ok p" "mem_ok q" "srcType = MEM_Ephem \<or> srcType = MEM_Static"
  shows "kept p [] (\<lambda>r. mem_text r = mem_text q) (returns (sqlite3VdbeMemShallowCopy E a p q srcType))"
proof -
  obtain r where r: "(if VdbeMemDynamic p then vdbeMemClearExternAndSetNull E p else (p, [])) = (r, dyn_call p)"
    using clear_ok [OF assms(1)] .
  define f where "f = (if has (mem_flags q) MEM_Static then mem_flags q
    else (mem_flags q AND NOT (MEM_Dyn OR MEM_Static OR MEM_Ephem)) OR srcType)"
  let ?q = "(cell_copy a r q)\<lparr>mem_flags := f\<rparr>"
  have "sqlite3VdbeMemShallowCopy E a p q srcType = (?q, dyn_call p)"
    using r by (simp add: sqlite3VdbeMemShallowCopy_def Let_def f_def add_flags_def del_flags_def cell_copy_def)
  moreover have "mem_ok ?q" "held ?q = []" "mem_text ?q = mem_text q"
  proof -
    note g = shallow_flags [OF assms(3), of "mem_flags q"]
    have "\<not> (has (mem_flags q) MEM_Dyn \<and> has (mem_flags q) MEM_Static)" using mem_okD(1) [OF assms(2)] unfolding flags_ok_def by blast
    then have fo: "flags_ok f" "\<not> has f MEM_Dyn" using mem_okD(1) [OF assms(2)] g(1,2) unfolding f_def by auto
    have u: "union_ok f (mem_u q)" using mem_okD(9) [OF assms(2)] g(3) unfolding f_def by simp
    have same: "has f m = has (mem_flags q) m" if "m \<in> {MEM_Str, MEM_Blob, MEM_Term}" for m
      using that g(4-6) unfolding f_def by auto
    have own: "has f MEM_Ephem \<noteq> has f MEM_Static" if "has f MEM_Str \<or> has f MEM_Blob \<and> mem_n q > 0"
    proof (cases "has (mem_flags q) MEM_Static")
      case True
      have "one_owner q" using mem_okD(5) [OF assms(2)] that same by simp
      then show ?thesis using True by (auto simp: f_def one_owner_def)
    next
      case False
      then show ?thesis using g(7) unfolding f_def by simp
    qed
    show "mem_ok ?q" "held ?q = []" "mem_text ?q = mem_text q"
      using cell_copy_ok [OF assms(2) fo(1) u fo(2) same own] by blast+
  qed
  ultimately show ?thesis using handed_dyn_call [OF assms(1)] by (simp add: kept_def returns_def)
qed

lemma copy_flags:
  defines "g f \<equiv> f AND NOT MEM_Dyn"
  shows "flags_ok f \<Longrightarrow> flags_ok (g f)" "\<not> has (g f) MEM_Dyn" "union_ok f u \<Longrightarrow> union_ok (g f) u"
    "has (g f) MEM_Str = has f MEM_Str" "has (g f) MEM_Blob = has f MEM_Blob" "has (g f) MEM_Term = has f MEM_Term"
    "has (g f) MEM_Ephem = has f MEM_Ephem" "has (g f) MEM_Static = has f MEM_Static"
    "flags_ok f \<Longrightarrow> flags_ok (g f OR MEM_Ephem)" "\<not> has (g f OR MEM_Ephem) MEM_Dyn" "union_ok f u \<Longrightarrow> union_ok (g f OR MEM_Ephem) u"
    "has (g f OR MEM_Ephem) MEM_Str = has f MEM_Str" "has (g f OR MEM_Ephem) MEM_Blob = has f MEM_Blob"
    "has (g f OR MEM_Ephem) MEM_Term = has f MEM_Term" "has (g f OR MEM_Ephem) MEM_Static = has f MEM_Static"
    "has (g f OR MEM_Ephem) MEM_Ephem" "has (g f OR MEM_Ephem) MEM_Zero = has f MEM_Zero"
  unfolding g_def flags_ok_def union_ok_def by (simp_all add: flag_simps)

lemma copy_ok:
  assumes "env_ok E" "mem_ok p" "mem_ok q"
  shows "kept p [] (\<lambda>r. has (mem_flags q) (MEM_Str OR MEM_Blob) \<longrightarrow>
      (if has (mem_flags q) MEM_Static then mem_text r = mem_text q else mem_text r = mem_content q \<and> mem_z r = Own))
    (sqlite3VdbeMemCopy E a p q)"
proof -
  obtain r where r: "(if VdbeMemDynamic p then vdbeMemClearExternAndSetNull E p else (p, [])) = (r, dyn_call p)"
    using clear_ok [OF assms(2)] .
  let ?c = "cell_copy a r q" and ?f = "mem_flags q AND NOT MEM_Dyn"
  have fl: "mem_flags ?c = mem_flags q" by (simp add: cell_copy_def)
  note g = copy_flags [of "mem_flags q"]
  have sb: "has ?f (MEM_Str OR MEM_Blob) \<longleftrightarrow> has (mem_flags q) (MEM_Str OR MEM_Blob)" using g(4,5) by (simp add: has_or)
  show ?thesis
  proof (cases "has (mem_flags q) (MEM_Str OR MEM_Blob) \<and> \<not> has (mem_flags q) MEM_Static")
    case True
    let ?t = "?c\<lparr>mem_flags := ?f OR MEM_Ephem\<rparr>"
    have t: "mem_ok ?t" "held ?t = []" "mem_text ?t = mem_text q"
      by (rule cell_copy_ok [OF assms(3) g(9) [OF mem_okD(1)] g(11) [OF mem_okD(9)] g(10), OF assms(3) assms(3)]; use g(12-16) True in auto)+
    have c: "mem_content ?t = mem_content q" "has (mem_flags ?t) (MEM_Str OR MEM_Blob)"
      using t(3) g(12,13,17) True unfolding mem_content_def by (simp_all add: mem_nZero_def cell_copy_def has_or)
    have "sqlite3VdbeMemCopy E a p q = then_do (Some (0, ?t, dyn_call p)) (sqlite3VdbeMemMakeWriteable E)"
      using r True sb by (simp add: sqlite3VdbeMemCopy_def Let_def add_flags_def del_flags_def fl)
    moreover have "kept p [] (\<lambda>r. r = ?t) (Some (0, ?t, dyn_call p))"
      using t(1,2) handed_dyn_call [OF assms(2)] by (simp add: kept_def)
    moreover have "kept ?t [] (\<lambda>r. mem_text r = mem_content q \<and> mem_z r = Own) (sqlite3VdbeMemMakeWriteable E ?t)"
      by (rule kept_mono [OF makeWriteable_ok [OF assms(1) t(1)]]) (use c in simp)
    ultimately have "kept p [] (\<lambda>r. mem_text r = mem_content q \<and> mem_z r = Own) (sqlite3VdbeMemCopy E a p q)"
      using kept_then [of p "[]" "\<lambda>r. r = ?t"] by simp
    then show ?thesis by (rule kept_mono) (use True in simp)
  next
    case False
    let ?t = "?c\<lparr>mem_flags := ?f\<rparr>"
    have "has ?f MEM_Ephem \<noteq> has ?f MEM_Static" if n: "has ?f MEM_Str \<or> has ?f MEM_Blob \<and> mem_n q > 0"
    proof -
      have "has (mem_flags q) MEM_Static" using False n g(4,5) by (auto simp: has_or)
      moreover have "one_owner q" using mem_okD(5) [OF assms(3)] n g(4,5) by simp
      ultimately show ?thesis using g(7,8) by (auto simp: one_owner_def)
    qed
    then have t: "mem_ok ?t" "held ?t = []" "mem_text ?t = mem_text q"
      by (intro cell_copy_ok [OF assms(3) g(1) [OF mem_okD(1)] g(3) [OF mem_okD(9)] g(2), OF assms(3) assms(3)]; use g(4-6) in auto)+
    have "sqlite3VdbeMemCopy E a p q = Some (0, ?t, dyn_call p)"
      using r False sb by (auto simp: sqlite3VdbeMemCopy_def Let_def del_flags_def fl)
    then show ?thesis using t handed_dyn_call [OF assms(2)] False by (simp add: kept_def)
  qed
qed

section \<open>All operations\<close>

text \<open>
  What a caller must respect: the assertions of the source, and for text that the bytes are there.
  \<open>given\<close> are the buffers that come with a destructor.
\<close>

fun op_ok :: "Mem \<Rightarrow> mem_op \<Rightarrow> bool" where
  "op_ok p (SetStr z n enc xDel) = str_args_ok z n enc xDel"
| "op_ok p (SetText z n xDel) = str_args_ok z n 1 xDel"
| "op_ok p (SetPointer a b t xDel) = (mem_flags p = MEM_Null \<and> xDel \<noteq> Some SQLITE_STATIC)"
| "op_ok p (ShallowCopy a q srcType) = (mem_ok q \<and> (srcType = MEM_Ephem \<or> srcType = MEM_Static))"
| "op_ok p (Copy a q) = mem_ok q"
| "op_ok p (ChangeEncoding enc) = (enc \<in> {1, 2, 3})"
| "op_ok p _ = True"

fun given :: "mem_op \<Rightarrow> nat list" where
  "given (SetStr z n enc xDel) = str_given z xDel"
| "given (SetText z n xDel) = str_given z xDel"
| "given (SetPointer a b t xDel) = [a]"
| "given _ = []"

text \<open>What an operation that succeeds has stored.\<close>

fun op_done :: "Mem \<Rightarrow> mem_op \<Rightarrow> Mem \<Rightarrow> bool" where
  "op_done p SetNull q \<longleftrightarrow> mem_flags q = MEM_Null"
| "op_done p (SetInt64 v) q \<longleftrightarrow> mem_flags q = MEM_Int \<and> mem_u q = U_i v"
| "op_done p (SetDouble v) q \<longleftrightarrow> (if IsNaN v then mem_flags q = MEM_Null else mem_flags q = MEM_Real \<and> mem_u q = U_r v)"
| "op_done p (SetZeroBlob n) q \<longleftrightarrow> has (mem_flags q) MEM_Blob \<and> mem_content q = replicate (nat n) 0"
| "op_done p (SetStr z n enc xDel) q \<longleftrightarrow> str_result z n enc q"
| "op_done p (SetText z n xDel) q \<longleftrightarrow> str_result z n 1 q"
| "op_done p (SetPointer a b t xDel) q \<longleftrightarrow> mem_z q = Ext a b \<and> has (mem_flags q) MEM_Null"
| "op_done p (ShallowCopy a r srcType) q \<longleftrightarrow> mem_text q = mem_text r"
| "op_done p (Copy a r) q \<longleftrightarrow>
     (has (mem_flags r) (MEM_Str OR MEM_Blob) \<longrightarrow>
        (if has (mem_flags r) MEM_Static then mem_text q = mem_text r else mem_text q = mem_content r \<and> mem_z q = Own))"
| "op_done p ExpandBlob q \<longleftrightarrow> mem_text q = mem_content p"
| "op_done p MakeWriteable q \<longleftrightarrow>
     (has (mem_flags p) (MEM_Str OR MEM_Blob) \<longrightarrow> mem_text q = mem_content p \<and> mem_z q = Own \<and> mem_zMalloc q \<noteq> [])"
| "op_done p NulTerminate q \<longleftrightarrow> (has (mem_flags p) MEM_Str \<longrightarrow> has (mem_flags q) MEM_Term)"
| "op_done p ZeroTerminateIfAble q \<longleftrightarrow> mem_text q = mem_text p"
| "op_done p (ChangeEncoding enc) q \<longleftrightarrow> mem_enc q = enc"

lemma mem_run_ok:
  assumes "env_ok E" "mem_ok p" "op_ok p op"
  shows "kept p (given op) (op_done p op) (mem_run E op p)"
proof (cases op)
  case ExpandBlob
  show ?thesis
  proof (cases "has (mem_flags p) MEM_Zero")
    case True
    then show ?thesis using kept_mono [OF expandBlob_kept [OF assms(1,2) True]] ExpandBlob by (simp add: mem_content_def)
  next
    case False
    then show ?thesis using kept_same [OF assms(2)] ExpandBlob by (simp add: mem_content_def)
  qed
next
  case ZeroTerminateIfAble
  then show ?thesis using zeroTerminate_ok [OF assms(2)] by (auto simp: kept_def)
next
  case SetNull
  then show ?thesis using kept_mono [where Q = "op_done p op", OF setNull_ok [OF assms(2)]] by (simp add: returns_def)
next
  case (SetStr z n enc xDel)
  then show ?thesis using kept_mono [where Q = "op_done p op", OF setStr_ok [OF assms(1,2)]] assms(3) by simp
next
  case (SetText z n xDel)
  then show ?thesis using kept_mono [where Q = "op_done p op", OF setText_ok [OF assms(1,2)]] assms(3) by simp
next
  case (Copy a q)
  then show ?thesis using kept_mono [where Q = "op_done p op", OF copy_ok [OF assms(1,2)]] assms(3) by simp
next
  case MakeWriteable
  then show ?thesis using kept_mono [where Q = "op_done p op", OF makeWriteable_ok [OF assms(1,2)]] by simp
next
  case NulTerminate
  then show ?thesis using kept_mono [where Q = "op_done p op", OF nulTerminate_ok [OF assms(1,2)]] by simp
next
  case (ChangeEncoding enc)
  then show ?thesis using kept_mono [where Q = "op_done p op", OF changeEncoding_ok [OF assms(1,2)]] assms(3) by simp
next
  case (SetInt64 v)
  then show ?thesis using kept_mono [where Q = "op_done p op", OF setInt64_ok [OF assms(2)]] by simp
next
  case (SetDouble v)
  then show ?thesis using kept_mono [where Q = "op_done p op", OF setDouble_ok [OF assms(2)]] by simp
next
  case (SetZeroBlob n)
  then show ?thesis using kept_mono [where Q = "op_done p op", OF setZeroBlob_ok [OF assms(2)]] by simp
next
  case (SetPointer a b t xDel)
  then show ?thesis using kept_mono [where Q = "op_done p op", OF setPointer_ok] assms(3) by simp
next
  case (ShallowCopy a q srcType)
  then show ?thesis using kept_mono [where Q = "op_done p op", OF shallowCopy_ok [OF assms(2)]] assms(3) by simp
qed

text \<open>The life of a cell: any sequence of operations, with the buffers it was given and the pointers it handed over.\<close>

inductive mem_life :: "mem_env \<Rightarrow> Mem \<Rightarrow> nat list \<Rightarrow> mem_ptr list \<Rightarrow> Mem \<Rightarrow> bool" where
  start: "mem_life E p [] [] p"
| call: "mem_life E p (gs @ given op) (w @ w') r"
    if "mem_life E p gs w q" "op_ok q op" "mem_run E op q = Some (rc, r, w')"

lemma mem_life_ok:
  assumes "mem_life E p gs w q" "env_ok E" "mem_ok p"
  shows "mem_ok q \<and> mset (handed w) + mset (held q) = mset (held p) + mset gs"
  using assms
proof (induction rule: mem_life.induct)
  case (start E p)
  then show ?case by simp
next
  case (call E p gs w q op rc r w')
  then have q: "mem_ok q" "mset (handed w) + mset (held q) = mset (held p) + mset gs" by simp_all
  have "mem_ok r" "mset (handed w') + mset (held r) = mset (held q) + mset (given op)"
    using mem_run_ok [OF \<open>env_ok E\<close> q(1) call(2)] call(3) unfolding kept_def by auto
  then show ?case using q(2) by (simp add: add_ac) (metis add.assoc add.commute)
qed

lemma release_ok:
  assumes "mem_ok p"
  shows "handed (snd (sqlite3VdbeMemRelease E p)) = held p" "mem_zMalloc (fst (sqlite3VdbeMemRelease E p)) = []"
    "\<not> has (mem_flags (fst (sqlite3VdbeMemRelease E p))) MEM_Dyn"
  using release_eq [OF no_agg [OF assms], of E] handed_dyn_call [OF assms] mem_okD(2) [OF assms]
  by (auto simp: flag_simps)

text \<open>Moving a cell hands over its pointer as it is, an ephemeral one too, where the comment announces a copy.\<close>

lemma move_ok:
  assumes "mem_ok p" "mem_ok q" "sqlite3VdbeMemMove E p q = (p', q', w)"
  shows "mem_ok p'" "mem_ok q'" "mem_flags q' = MEM_Null" "p' = q"
    "mset (handed w) + mset (held p') + mset (held q') = mset (held p) + mset (held q)"
proof -
  have e: "p' = q" "q' = q\<lparr>mem_flags := MEM_Null, mem_zMalloc := []\<rparr>" "w = snd (sqlite3VdbeMemRelease E p)"
    using assms(3) by (auto simp: sqlite3VdbeMemMove_def split: prod.splits)
  then show "p' = q" "mem_ok p'" "mem_ok q'" "mem_flags q' = MEM_Null" using assms(2) mem_ok_simple by simp_all
  show "mset (handed w) + mset (held p') + mset (held q') = mset (held p) + mset (held q)"
    using e release_ok(1) [OF assms(1), of E] mem_ok_simple(4) [of q'] by simp
qed

section \<open>Result codes\<close>

text \<open>When no allocation fails, the only error is text that is too long.\<close>

definition codes :: "int set \<Rightarrow> mem_result \<Rightarrow> bool" where
  "codes R r \<longleftrightarrow> (\<forall>rc q w. r = Some (rc, q, w) \<longrightarrow> rc \<in> R)"

lemma codes_mono: "codes R r \<Longrightarrow> R \<subseteq> S \<Longrightarrow> codes S r"
  unfolding codes_def by blast

lemma codes_simps [simp]: "codes R None" "codes R (Some (rc, x)) \<longleftrightarrow> rc \<in> R" "codes {0} (grown b p)" "codes {0} (finish r)"
  "codes {0} (returns x)"
  by (cases r; cases x; simp add: codes_def grown_def finish_def returns_def)+

lemma codes_then: "codes {0} r \<Longrightarrow> (\<And>p. codes R (f p)) \<Longrightarrow> codes R (then_do r f)"
  by (auto simp: codes_def then_do_def split: option.splits)

lemma codes_bind: "(\<And>x. codes R (f x)) \<Longrightarrow> codes R (Option.bind y f)"
  by (cases y) simp_all

lemma codes_translated: "codes {0} (translated E d out z p)"
  by (cases "sqlite3VdbeMemRelease E (p\<lparr>mem_n := length out\<rparr>)") (auto simp: codes_def translated_def Let_def)

lemmas codes_intros = codes_then codes_bind codes_translated

lemma codes_alloc:
  assumes "\<And>n. me_alloc E n \<noteq> None"
  shows "codes {0} (sqlite3VdbeMemGrow E p k b)" "codes {0} (sqlite3VdbeMemClearAndResize E p k)" "codes {0} (vdbeMemAddTerminator E p)"
    "codes {0} (sqlite3VdbeMemExpandBlob E p)" "codes {0} (sqlite3VdbeMemMakeWriteable E p)" "codes {0} (sqlite3VdbeMemNulTerminate E p)"
    "codes {0} (sqlite3VdbeMemTranslate E p d)" "codes {0} (sqlite3VdbeMemHandleBom E p)" "codes {0} (sqlite3VdbeChangeEncoding E p d)"
proof -
  show grow: "codes {0} (sqlite3VdbeMemGrow E p k b)" for p k b
    using assms [of k] by (auto simp: sqlite3VdbeMemGrow_def intro!: codes_bind)
  show "codes {0} (sqlite3VdbeMemClearAndResize E p k)" using grow by (simp add: sqlite3VdbeMemClearAndResize_def)
  show tm: "codes {0} (vdbeMemAddTerminator E p)" for p
    unfolding vdbeMemAddTerminator_def by (intro codes_then grow) simp
  show blob: "codes {0} (sqlite3VdbeMemExpandBlob E p)" for p
    unfolding sqlite3VdbeMemExpandBlob_def Let_def by (auto intro!: codes_then grow)
  show wr: "codes {0} (sqlite3VdbeMemMakeWriteable E p)" for p
    unfolding sqlite3VdbeMemMakeWriteable_def using tm blob by (auto intro!: codes_then)
  show "codes {0} (sqlite3VdbeMemNulTerminate E p)" using tm by (simp add: sqlite3VdbeMemNulTerminate_def)
  show tr: "codes {0} (sqlite3VdbeMemTranslate E p d)"
  proof -
    define al where "al n = the (me_alloc E n)" for n
    have "me_alloc E n = Some (al n)" for n using assms [of n] by (auto simp: al_def)
    then show ?thesis unfolding sqlite3VdbeMemTranslate_def Let_def by (auto intro!: codes_intros wr)
  qed
  show "codes {0} (sqlite3VdbeMemHandleBom E p)"
    unfolding sqlite3VdbeMemHandleBom_def Let_def by (auto intro!: codes_then wr split: list.splits)
  show "codes {0} (sqlite3VdbeChangeEncoding E p d)" using tr by (simp add: sqlite3VdbeChangeEncoding_def)
qed

definition too_long :: "mem_env \<Rightarrow> mem_op \<Rightarrow> bool" where
  "too_long E op \<longleftrightarrow>
     (case op of
        SetStr (Some (a, z)) n enc xDel \<Rightarrow>
          (\<exists>k > me_limit E. (case n of Some k \<Rightarrow> Some k | None \<Rightarrow> if enc = 1 then strlen z else strlen16 (me_limit E) 0 z) = Some k)
      | SetText (Some (a, z)) n xDel \<Rightarrow> (\<exists>k > me_limit E. (case n of Some k \<Rightarrow> Some k | None \<Rightarrow> strlen z) = Some k)
      | _ \<Rightarrow> False)"

lemma codes_case: "(\<And>q w. x = (q, w) \<Longrightarrow> codes R (f q w)) \<Longrightarrow> codes R (case x of (q, w) \<Rightarrow> f q w)"
  by (cases x) simp

lemma codes_setStr:
  assumes "\<And>n. me_alloc E n \<noteq> None"
  shows "codes (if too_long E (SetStr zz n enc xDel) then {18} else {0}) (sqlite3VdbeMemSetStr E p zz n enc xDel)"
proof (cases zz)
  case None
  then show ?thesis by (auto simp: sqlite3VdbeMemSetStr_def too_long_def intro!: codes_case)
next
  case (Some az)
  obtain a z where zz: "zz = Some (a, z)" using Some by (cases az) simp
  let ?l = "case n of Some k \<Rightarrow> Some k | None \<Rightarrow> if enc = 1 then strlen z else strlen16 (me_limit E) 0 z"
  note c = codes_alloc [OF assms]
  show ?thesis
  proof (cases ?l)
    case None
    then show ?thesis unfolding sqlite3VdbeMemSetStr_def zz option.case prod.case None by simp
  next
    case (Some k)
    have t: "too_long E (SetStr (Some (a, z)) n enc xDel) \<longleftrightarrow> k > me_limit E" using Some by (simp add: too_long_def)
    show ?thesis unfolding zz t sqlite3VdbeMemSetStr_def option.case prod.case Some Option.bind.bind_lunit Let_def
      by (cases "k > me_limit E"; simp only: if_True if_False; intro codes_then codes_case conjI impI c; simp split: if_splits; intro codes_then codes_case conjI impI c; simp)
  qed
qed

lemma codes_setText:
  assumes "\<And>n. me_alloc E n \<noteq> None"
  shows "codes (if too_long E (SetText zz n xDel) then {18} else {0}) (sqlite3VdbeMemSetText E p zz n xDel)"
proof (cases zz)
  case None
  then show ?thesis by (auto simp: sqlite3VdbeMemSetText_def too_long_def intro!: codes_case)
next
  case (Some az)
  obtain a z where zz: "zz = Some (a, z)" using Some by (cases az) simp
  let ?l = "case n of Some k \<Rightarrow> Some k | None \<Rightarrow> strlen z"
  note c = codes_alloc [OF assms]
  show ?thesis
  proof (cases ?l)
    case None
    then show ?thesis unfolding sqlite3VdbeMemSetText_def zz option.case prod.case None by simp
  next
    case (Some k)
    have t: "too_long E (SetText (Some (a, z)) n xDel) \<longleftrightarrow> k > me_limit E" using Some by (simp add: too_long_def)
    show ?thesis unfolding zz t sqlite3VdbeMemSetText_def option.case prod.case Some Option.bind.bind_lunit Let_def
      using codes_then [OF c(2)] by (simp split: prod.splits)
  qed
qed

lemma mem_run_codes:
  assumes "\<And>n. me_alloc E n \<noteq> None"
  shows "codes (if too_long E op then {18} else {0}) (mem_run E op p)"
proof (cases op)
  case (Copy a q)
  then show ?thesis using codes_alloc(5) [OF assms]
    by (auto simp: sqlite3VdbeMemCopy_def Let_def too_long_def intro!: codes_then split: prod.splits)
next
  case ZeroTerminateIfAble
  then show ?thesis by (auto simp: codes_def too_long_def)
next
  case (SetStr z n enc xDel)
  then show ?thesis using codes_setStr [OF assms] by simp
next
  case (SetText z n xDel)
  then show ?thesis using codes_setText [OF assms] by simp
qed (use codes_alloc [OF assms] in \<open>simp_all add: too_long_def\<close>)

section \<open>Conversion of text\<close>

definition utf_writer :: "nat \<Rightarrow> u32 \<Rightarrow> u8 list" where
  "utf_writer enc = (if enc = 1 then WRITE_UTF8 else utf16_writer enc)"

lemma changeEncoding_text:
  assumes "env_ok E" "mem_ok p" "has (mem_flags p) MEM_Str" "d \<in> {1, 2, 3}" "\<forall>c \<in> set cs. utf8_char c"
    "mem_text p = text_of (utf_writer (mem_enc p)) cs"
  shows "kept p [] (\<lambda>q. mem_enc q = d \<and> has (mem_flags q) MEM_Str \<and> mem_text q = text_of (utf_writer d) cs) (sqlite3VdbeChangeEncoding E p d)"
proof -
  have n: "length (mem_text p) = mem_n p" "mem_enc p \<in> {1, 2, 3}"
    using mem_okD(4,6) [OF assms(2)] assms(3) by (simp_all add: mem_text_def has_or)
  have sc: "\<forall>c \<in> set cs. scalar c" using assms(5) by (simp add: utf8_char_def)
  consider (same) "mem_enc p = d" | (swap) "mem_enc p \<noteq> d" "mem_enc p \<noteq> 1" "d = 2 \<or> d = 3" | (recode) "mem_enc p \<noteq> d" "mem_enc p = 1 \<or> d = 1"
    using assms(4) by auto
  then show ?thesis
  proof cases
    case same
    then show ?thesis using assms(3,6) kept_same [OF assms(2)] by (simp add: sqlite3VdbeChangeEncoding_def)
  next
    case swap
    have "swap_pairs (mem_text p) = text_of (utf_writer d) cs"
      using n(2) swap swap_text assms(6) by (auto simp: utf_writer_def utf16_writer_def)
    then have "kept p [] (\<lambda>q. mem_enc q = d \<and> has (mem_flags q) MEM_Str \<and> mem_text q = text_of (utf_writer d) cs) (sqlite3VdbeMemTranslate E p d)"
      by (intro kept_mono [OF translate_swap [OF assms(1-3) swap(2,3)]]) simp
    then show ?thesis using assms(3) swap(1) by (simp add: sqlite3VdbeChangeEncoding_def)
  next
    case recode
    have t: "recode (mem_n p) (if mem_enc p = 1 then READ_UTF8 else utf16_reader (mem_enc p))
        (if mem_enc p = 1 then utf16_writer d else WRITE_UTF8) (mem_text p) = Some (text_of (utf_writer d) cs)"
      using n recode sc assms(5,6) utf8.recode_text [of cs "mem_n p"] utf16le.recode_text [of cs "mem_n p"] utf16be.recode_text [of cs "mem_n p"]
      by (auto simp: utf_writer_def utf16_writer_def utf16_reader_def)
    then have "kept p [] (\<lambda>q. mem_enc q = d \<and> has (mem_flags q) MEM_Str \<and> mem_text q = text_of (utf_writer d) cs) (sqlite3VdbeMemTranslate E p d)"
      by (intro kept_mono [OF translate_recode [OF assms(1-3) recode assms(4)]]) simp
    then show ?thesis using assms(3) recode(1) by (simp add: sqlite3VdbeChangeEncoding_def)
  qed
qed

end
