(* ===== verification/Sqlite_Record.thy ===== *)
theory Sqlite_Record
  imports Sqlite_Varint Sqlite_Mem
begin

unbundle bit_operations_syntax

text \<open>
  The record format of the bundled SQLite (\<^verbatim>\<open>sqlite3/sqlite3.c\<close>), in which every row and index entry is stored:
  the instruction \<^verbatim>\<open>OP_MakeRecord\<close> of \<^verbatim>\<open>vdbe.c\<close>, which writes a record from value cells, and the reader of \<^verbatim>\<open>vdbeaux.c\<close>.
  A record is a header of variable-length integers, its size first and then one serial type for each
  value, and the data of the values. The reader recovers what the writer was given, and it stays inside its
  buffer on arbitrary bytes.
\<close>

section \<open>Serial types\<close>

definition sqlite3SmallTypeSizes :: "nat list" where
  "sqlite3SmallTypeSizes =
     [0, 1, 2, 3, 4, 6, 8, 8, 0, 0,
      0, 0, 0, 0, 1, 1, 2, 2, 3, 3,
      4, 4, 5, 5, 6, 6, 7, 7, 8, 8,
      9, 9, 10, 10, 11, 11, 12, 12, 13, 13,
      14, 14, 15, 15, 16, 16, 17, 17, 18, 18,
      19, 19, 20, 20, 21, 21, 22, 22, 23, 23,
      24, 24, 25, 25, 26, 26, 27, 27, 28, 28,
      29, 29, 30, 30, 31, 31, 32, 32, 33, 33,
      34, 34, 35, 35, 36, 36, 37, 37, 38, 38,
      39, 39, 40, 40, 41, 41, 42, 42, 43, 43,
      44, 44, 45, 45, 46, 46, 47, 47, 48, 48,
      49, 49, 50, 50, 51, 51, 52, 52, 53, 53,
      54, 54, 55, 55, 56, 56, 57, 57]"

definition sqlite3VdbeSerialTypeLen :: "u32 \<Rightarrow> nat" where
  "sqlite3VdbeSerialTypeLen serial_type =
     (if serial_type \<ge> 128 then unat ((serial_type - 12) div 2) else sqlite3SmallTypeSizes ! unat serial_type)"

section \<open>The writer\<close>

text \<open>
  The serial type of an integer and the size of its data; \<open>ff\<close> is \<^verbatim>\<open>minWriteFileFormat\<close>.
\<close>

definition int_type :: "nat \<Rightarrow> u64 \<Rightarrow> u32 \<times> nat" where
  "int_type ff i =
     (let uu = (if sint i < 0 then NOT i else i)
      in if uu \<le> 127 then if i AND 1 = i \<and> ff \<ge> 4 then (8 + ucast uu, 0) else (1, 1)
         else if uu \<le> 32767 then (2, 2)
         else if uu \<le> 8388607 then (3, 3)
         else if uu \<le> 2147483647 then (4, 4)
         else if uu \<le> 140737488355327 then (5, 6)
         else (6, 8))"

text \<open>The members of the union; the writer reads the one that the flags name.\<close>

definition mem_i :: "Mem \<Rightarrow> u64" where
  "mem_i p = (case mem_u p of U_i i \<Rightarrow> i | _ \<Rightarrow> 0)"

definition mem_r :: "Mem \<Rightarrow> u64" where
  "mem_r p = (case mem_u p of U_r r \<Rightarrow> r | _ \<Rightarrow> 0)"

text \<open>
  One field of the first loop. The result: code, cell and serial type (\<^verbatim>\<open>uTemp\<close>), and what is added to
  \<^verbatim>\<open>nHdr\<close>, \<^verbatim>\<open>nData\<close> and \<^verbatim>\<open>nZero\<close>. \<open>dbl\<close> is the conversion of a 64-bit integer to a double, on their images.
\<close>

type_synonym field = "Mem \<times> u32"

definition size_field ::
    "mem_env \<Rightarrow> (u64 \<Rightarrow> u64) \<Rightarrow> nat \<Rightarrow> nat \<Rightarrow> Mem \<Rightarrow> (int \<times> field \<times> nat \<times> nat \<times> nat \<times> mem_ptr list) option" where
  "size_field E dbl ff nData p =
     (let f = mem_flags p
      in if has f MEM_Null then Some (0, (p, if has f MEM_Zero then 10 else 0), 1, 0, 0, [])
         else if has f (MEM_Int OR MEM_IntReal)
         then (case int_type ff (mem_i p) of
                 (t, len) \<Rightarrow>
                   if t = 6 \<and> has f MEM_IntReal
                   then Some (0, (p\<lparr>mem_u := U_r (dbl (mem_i p)), mem_flags := (f AND NOT MEM_IntReal) OR MEM_Real\<rparr>, 7), 1, len, 0, [])
                   else Some (0, (p, t), 1, len, 0, []))
         else if has f MEM_Real then Some (0, (p, 7), 1, 8, 0, [])
         else let len = mem_n p;
                  t = of_nat (len * 2) + 12 + (if has f MEM_Str then 1 else 0) + (if has f MEM_Zero then of_nat (mem_nZero p) * 2 else 0)
              in if has f MEM_Zero \<and> nData \<noteq> 0
                 then map_option (\<lambda>(rc, q, w). (rc, (q, t), sqlite3VarintLen (ucast t), len + mem_nZero q, 0, w))
                        (sqlite3VdbeMemExpandBlob E p)
                 else Some (0, (p, t), sqlite3VarintLen (ucast t), len, if has f MEM_Zero then mem_nZero p else 0, []))"

text \<open>The first loop, from the last field to the first.\<close>

fun size_fields ::
    "mem_env \<Rightarrow> (u64 \<Rightarrow> u64) \<Rightarrow> nat \<Rightarrow> Mem list \<Rightarrow> nat \<Rightarrow> nat \<Rightarrow> nat \<Rightarrow> field list \<Rightarrow> mem_ptr list \<Rightarrow>
     (int \<times> field list \<times> nat \<times> nat \<times> nat \<times> mem_ptr list) option" where
  "size_fields E dbl ff [] nHdr nData nZero fs w = Some (0, fs, nHdr, nData, nZero, w)"
| "size_fields E dbl ff (p # ps) nHdr nData nZero fs w =
     (case size_field E dbl ff nData p of
        None \<Rightarrow> None
      | Some (rc, f, dHdr, dData, dZero, w') \<Rightarrow>
          if rc \<noteq> 0 then Some (7, f # fs, nHdr, nData, nZero, w @ w')
          else size_fields E dbl ff ps (nHdr + dHdr) (nData + dData) (nZero + dZero) (f # fs) (w @ w'))"

definition header_size :: "nat \<Rightarrow> nat" where
  "header_size nHdr =
     (if nHdr \<le> 126 then nHdr + 1
      else let nVarint = sqlite3VarintLen (of_nat nHdr); nHdr = nHdr + nVarint
           in if nVarint < sqlite3VarintLen (of_nat nHdr) then nHdr + 1 else nHdr)"

text \<open>The fall-through switch that stores the low bytes of an integer, the highest first.\<close>

fun be_bytes :: "nat \<Rightarrow> u64 \<Rightarrow> u8 list" where
  "be_bytes 0 v = []"
| "be_bytes (Suc n) v = be_bytes n (drop_bit 8 v) @ [ucast v]"

text \<open>The bytes that the second loop writes for a field, into the header and into the data.\<close>

definition field_bytes :: "field \<Rightarrow> (u8 list \<times> u8 list) option" where
  "field_bytes f =
     (case f of
        (p, t) \<Rightarrow>
          if t \<le> 7
          then Some ([ucast t], if t = 0 then []
                                else be_bytes (sqlite3SmallTypeSizes ! unat t) (if t = 7 then mem_r p else mem_i p))
          else if mem_n p > length (mem_bytes p) \<and> t \<ge> 14 then None
          else if t < 0x80 then Some ([ucast t], if t \<ge> 14 then mem_text p else [])
          else Some (sqlite3PutVarint (ucast t), mem_text p))"

fun write_fields :: "field list \<Rightarrow> nat \<Rightarrow> nat \<Rightarrow> u8 list \<Rightarrow> u8 list option" where
  "write_fields [] zHdr zPayload buf = Some buf"
| "write_fields (f # fs) zHdr zPayload buf =
     Option.bind (field_bytes f) (\<lambda>(h, d).
     Option.bind (store zHdr h buf) (\<lambda>buf.
     Option.bind (store zPayload d buf) (write_fields fs (zHdr + length h) (zPayload + length d))))"

text \<open>
  The instruction without affinities (\<^verbatim>\<open>P4\<close> is null): code, output cell, fields, and pointers passed to destructors.
\<close>

definition OP_MakeRecord ::
    "mem_env \<Rightarrow> (u64 \<Rightarrow> u64) \<Rightarrow> nat \<Rightarrow> Mem list \<Rightarrow> Mem \<Rightarrow> (int \<times> Mem \<times> Mem list \<times> mem_ptr list) option" where
  "OP_MakeRecord E dbl ff ps pOut =
     (case size_fields E dbl ff (rev ps) 0 0 0 [] [] of
        None \<Rightarrow> None
      | Some (rc, fs, nHdr, nData, nZero, w) \<Rightarrow>
          if rc \<noteq> 0 then Some (rc, pOut, map fst fs, w)
          else let nHdr = header_size nHdr; nByte = nHdr + nData
               in if nByte + nZero > length (mem_zMalloc pOut) \<and> nByte + nZero > me_limit E then Some (18, pOut, map fst fs, w)
                  else Option.bind
                    (if nByte + nZero \<le> length (mem_zMalloc pOut) then Some (0, pOut\<lparr>mem_z := Own\<rparr>, [])
                     else sqlite3VdbeMemClearAndResize E pOut nByte)
                    (\<lambda>(rc, q, w').
                       if rc \<noteq> 0 then Some (7, q, map fst fs, w @ w')
                       else let q = q\<lparr>mem_n := nByte, mem_flags := (if nZero \<noteq> 0 then MEM_Blob OR MEM_Zero else MEM_Blob),
                                      mem_u := (if nZero \<noteq> 0 then U_nZero nZero else mem_u q)\<rparr>
                            in Option.bind (store 0 (sqlite3PutVarint (of_nat nHdr)) (mem_bytes q)) (\<lambda>buf.
                               map_option (\<lambda>buf. (0, put_bytes buf q, map fst fs, w @ w'))
                                 (write_fields fs (length (sqlite3PutVarint (of_nat nHdr))) nHdr buf))))"

section \<open>The reader\<close>

definition ONE_BYTE_INT :: "u8 list \<Rightarrow> u64" where
  "ONE_BYTE_INT x = scast (x ! 0)"

definition TWO_BYTE_INT :: "u8 list \<Rightarrow> u32" where
  "TWO_BYTE_INT x = 256 * scast (x ! 0) OR ucast (x ! 1)"

definition THREE_BYTE_INT :: "u8 list \<Rightarrow> u32" where
  "THREE_BYTE_INT x = 65536 * scast (x ! 0) OR push_bit 8 (ucast (x ! 1)) OR ucast (x ! 2)"

definition FOUR_BYTE_UINT :: "u8 list \<Rightarrow> u32" where
  "FOUR_BYTE_UINT x =
     push_bit 24 (ucast (x ! 0)) OR push_bit 16 (ucast (x ! 1)) OR push_bit 8 (ucast (x ! 2)) OR ucast (x ! 3)"

definition FOUR_BYTE_INT :: "u8 list \<Rightarrow> u32" where
  "FOUR_BYTE_INT x =
     16777216 * scast (x ! 0) OR push_bit 16 (ucast (x ! 1)) OR push_bit 8 (ucast (x ! 2)) OR ucast (x ! 3)"

definition SIX_BYTE_INT :: "u8 list \<Rightarrow> u64" where
  "SIX_BYTE_INT x = ucast (FOUR_BYTE_UINT (drop 2 x)) + push_bit 32 1 * scast (TWO_BYTE_INT x)"

definition EIGHT_BYTE_INT :: "u8 list \<Rightarrow> u64" where
  "EIGHT_BYTE_INT x = push_bit 32 (ucast (FOUR_BYTE_UINT x)) + ucast (FOUR_BYTE_UINT (drop 4 x))"

text \<open>
  \<open>a\<close> is the address of \<open>buf\<close>, which holds the bytes up to the end of the memory that can be read; \<open>None\<close> when
  the function would read past it.
\<close>

definition serialGet :: "u8 list \<Rightarrow> u32 \<Rightarrow> Mem \<Rightarrow> Mem" where
  "serialGet buf t p =
     (let x = EIGHT_BYTE_INT buf
      in if t = 6 then p\<lparr>mem_u := U_i x, mem_flags := MEM_Int\<rparr>
         else p\<lparr>mem_u := U_r x, mem_flags := (if IsNaN x then MEM_Null else MEM_Real)\<rparr>)"

definition sqlite3VdbeSerialGet :: "nat \<Rightarrow> u8 list \<Rightarrow> u32 \<Rightarrow> Mem \<Rightarrow> Mem option" where
  "sqlite3VdbeSerialGet a buf t p =
     (if t = 10 then Some (p\<lparr>mem_flags := MEM_Null OR MEM_Zero, mem_n := 0, mem_u := U_nZero 0\<rparr>)
      else if t = 11 \<or> t = 0 then Some (p\<lparr>mem_flags := MEM_Null\<rparr>)
      else if t = 8 \<or> t = 9 then Some (p\<lparr>mem_u := U_i (ucast (t - 8)), mem_flags := MEM_Int\<rparr>)
      else if t \<le> 7
      then if length buf < sqlite3SmallTypeSizes ! unat t then None
           else if t = 6 \<or> t = 7 then Some (serialGet buf t p)
           else Some (p\<lparr>mem_u := U_i (if t = 1 then ONE_BYTE_INT buf else if t = 2 then scast (TWO_BYTE_INT buf)
                                       else if t = 3 then scast (THREE_BYTE_INT buf) else if t = 4 then scast (FOUR_BYTE_INT buf)
                                       else SIX_BYTE_INT buf),
                        mem_flags := MEM_Int\<rparr>)
      else Some (p\<lparr>mem_z := Ext a buf, mem_n := unat ((t - 12) div 2),
                   mem_flags := (if t AND 1 = 1 then MEM_Str OR MEM_Ephem else MEM_Blob OR MEM_Ephem)\<rparr>))"

text \<open>The macro \<^verbatim>\<open>getVarint32\<close> at an offset; it reads as many bytes as it reports.\<close>

definition varint32_at :: "u8 list \<Rightarrow> nat \<Rightarrow> (u32 \<times> nat) option" where
  "varint32_at aKey idx =
     (case getVarint32 (drop idx aKey) of (v, k) \<Rightarrow> if idx + k \<le> length aKey then Some (v, k) else None)"

text \<open>
  The loop over the cells of the unpacked record, at the address \<open>a\<close> of the key; the result is the cells
  that were set and the offset behind the last.
\<close>

fun unpack_loop :: "nat \<Rightarrow> nat \<Rightarrow> u8 list \<Rightarrow> nat \<Rightarrow> nat \<Rightarrow> nat \<Rightarrow> nat \<Rightarrow> Mem list \<Rightarrow> (Mem list \<times> nat) option" where
  "unpack_loop enc a aKey nKey szHdr idx d [] = Some ([], d)"
| "unpack_loop enc a aKey nKey szHdr idx d (m # ms) =
     (if idx < szHdr \<and> d \<le> nKey
      then Option.bind (varint32_at aKey idx) (\<lambda>(t, k).
           Option.bind (sqlite3VdbeSerialGet (a + d) (drop d aKey) t (m\<lparr>mem_enc := enc, mem_zMalloc := [], mem_z := Null\<rparr>)) (\<lambda>m.
           map_option (\<lambda>(cs, d). (m # cs, d))
             (unpack_loop enc a aKey nKey szHdr (idx + k) ((d + sqlite3VdbeSerialTypeLen t) mod 2 ^ 32) ms)))
      else Some ([], d))"

definition sqlite3VdbeRecordUnpack :: "mem_env \<Rightarrow> nat \<Rightarrow> nat \<Rightarrow> nat \<Rightarrow> u8 list \<Rightarrow> Mem list \<Rightarrow> Mem list option" where
  "sqlite3VdbeRecordUnpack E enc nKey a aKey aMem =
     Option.bind (varint32_at aKey 0) (\<lambda>(szHdr, idx).
     map_option (\<lambda>(cs, d). if d > nKey \<and> cs \<noteq> [] then cs[length cs - 1 := fst (sqlite3VdbeMemSetNull E (last cs))] else cs)
       (unpack_loop enc a aKey nKey (unat szHdr) idx (unat szHdr) aMem))"

section \<open>Integers of every width\<close>

text \<open>The distance from zero or minus one decides the width.\<close>

definition magnitude :: "u64 \<Rightarrow> u64" where
  "magnitude i = (if sint i < 0 then NOT i else i)"

lemma high_bits_clear:
  assumes "unat (x :: u64) < 2 ^ m" "m \<le> n"
  shows "\<not> bit x n"
proof -
  have "drop_bit m x = 0" using assms(1) by (simp add: unat_eq_0 [symmetric] unat_drop_bit_div div_eq_0_iff)
  then have "\<not> bit (drop_bit m x) (n - m)" by simp
  then show ?thesis using assms(2) by (simp add: bit_drop_bit_eq)
qed

lemma sign_bits:
  assumes "unat (magnitude i) < 2 ^ m" "m \<le> n" "n < 64"
  shows "bit i n \<longleftrightarrow> sint i < 0"
proof (cases "sint i < 0")
  case True
  then have "\<not> bit (NOT i) n" using high_bits_clear [of "NOT i" m n] assms by (simp add: magnitude_def)
  then show ?thesis using True assms(3) by (simp add: bit_not_iff)
next
  case False
  then show ?thesis using high_bits_clear [of i m n] assms by (simp add: magnitude_def)
qed

text \<open>A small integer is its low bits, the highest of them repeated.\<close>

lemma extend_sign:
  assumes "unat (magnitude i) < 2 ^ m" "m < 64" "\<And>n. n < 64 \<Longrightarrow> bit w n = bit i (min m n)"
  shows "w = i"
proof (rule bit_word_eqI)
  fix n assume n: "n < LENGTH(64)"
  show "bit w n = bit i n"
    using assms(2) assms(3) [of n] n sign_bits [OF assms(1), of n] sign_bits [OF assms(1), of m] by (cases "n \<le> m") (simp_all add: min_def)
qed

lemma byte_shifts: "256 * x = push_bit 8 x" "65536 * x = push_bit 16 x" "16777216 * x = push_bit 24 x" for x :: u32
  by (simp_all add: push_bit_eq_mult mult.commute)

lemma scast_bit:
  "bit (scast (b :: u8) :: u64) n \<longleftrightarrow> n < 64 \<and> bit b (min 7 n)"
  "bit (scast (b :: u8) :: u32) n \<longleftrightarrow> n < 32 \<and> bit b (min 7 n)"
  "bit (scast (d :: u32) :: u64) n \<longleftrightarrow> n < 64 \<and> bit d (min 31 n)"
  by (simp_all add: bit_signed_iff)

lemma be_bytes_expand:
  "be_bytes 1 v = [ucast v]" "be_bytes 2 v = [ucast (drop_bit 8 v), ucast v]"
  "be_bytes 3 v = [ucast (drop_bit 16 v), ucast (drop_bit 8 v), ucast v]"
  "be_bytes 4 v = [ucast (drop_bit 24 v), ucast (drop_bit 16 v), ucast (drop_bit 8 v), ucast v]"
  "be_bytes 6 v = [ucast (drop_bit 40 v), ucast (drop_bit 32 v)] @ be_bytes 4 v"
  "be_bytes 8 v = be_bytes 4 (drop_bit 32 v) @ be_bytes 4 v"
  by (simp_all add: numeral_eq_Suc)

lemma get_one: "unat (magnitude i) < 2 ^ 7 \<Longrightarrow> ONE_BYTE_INT (be_bytes 1 i @ z) = i"
  by (erule extend_sign) (auto simp: be_bytes_expand ONE_BYTE_INT_def scast_bit bit_simps)

lemma two_bits:
  "bit (TWO_BYTE_INT (b0 # b1 # z)) n \<longleftrightarrow> n < 32 \<and> (if n < 8 then bit b1 n else bit b0 (min 7 (n - 8)))"
  by (cases "n < 8") (auto simp: TWO_BYTE_INT_def byte_shifts scast_bit bit_simps bit_u8_ge)

lemma three_bits:
  "bit (THREE_BYTE_INT (b0 # b1 # b2 # z)) n \<longleftrightarrow>
     n < 32 \<and> (if n < 8 then bit b2 n else if n < 16 then bit b1 (n - 8) else bit b0 (min 7 (n - 16)))"
  by (cases "n < 8"; cases "n < 16") (auto simp: THREE_BYTE_INT_def byte_shifts scast_bit bit_simps bit_u8_ge)

lemma four_bits:
  "bit (FOUR_BYTE_INT (b0 # b1 # b2 # b3 # z)) n \<longleftrightarrow>
     n < 32 \<and> (if n < 8 then bit b3 n else if n < 16 then bit b2 (n - 8) else if n < 24 then bit b1 (n - 16) else bit b0 (min 7 (n - 24)))"
  by (cases "n < 8"; cases "n < 16"; cases "n < 24") (auto simp: FOUR_BYTE_INT_def byte_shifts scast_bit bit_simps bit_u8_ge)

lemma four_unsigned_bits:
  "bit (FOUR_BYTE_UINT (b0 # b1 # b2 # b3 # z)) n \<longleftrightarrow>
     n < 32 \<and> (if n < 8 then bit b3 n else if n < 16 then bit b2 (n - 8) else if n < 24 then bit b1 (n - 16) else bit b0 (n - 24))"
  by (cases "n < 8"; cases "n < 16"; cases "n < 24") (auto simp: FOUR_BYTE_UINT_def byte_shifts bit_simps bit_u8_ge)

lemma get_two: "unat (magnitude i) < 2 ^ 15 \<Longrightarrow> scast (TWO_BYTE_INT (be_bytes 2 i @ z)) = i"
  by (erule extend_sign) (auto simp: be_bytes_expand two_bits scast_bit bit_simps min_def)

lemma get_three: "unat (magnitude i) < 2 ^ 23 \<Longrightarrow> scast (THREE_BYTE_INT (be_bytes 3 i @ z)) = i"
  by (erule extend_sign) (auto simp: be_bytes_expand three_bits scast_bit bit_simps min_def)

lemma get_four: "unat (magnitude i) < 2 ^ 31 \<Longrightarrow> scast (FOUR_BYTE_INT (be_bytes 4 i @ z)) = i"
  by (erule extend_sign) (auto simp: be_bytes_expand four_bits scast_bit bit_simps min_def)

lemma get_four_unsigned: "FOUR_BYTE_UINT (be_bytes 4 v @ z) = ucast v"
  by (rule bit_word_eqI) (auto simp: be_bytes_expand four_unsigned_bits bit_simps)

lemma get_six: "unat (magnitude i) < 2 ^ 47 \<Longrightarrow> SIX_BYTE_INT (be_bytes 6 i @ z) = i"
proof (erule extend_sign)
  let ?h = "scast (TWO_BYTE_INT (be_bytes 6 i @ z)) :: u64"
  have "SIX_BYTE_INT (be_bytes 6 i @ z) = push_bit 32 ?h + ucast (ucast i :: u32)"
    using get_four_unsigned [of i z] by (simp add: SIX_BYTE_INT_def be_bytes_expand(5) push_bit_eq_mult mult.commute)
  also have "\<dots> = push_bit 32 ?h OR ucast (ucast i :: u32)"
    by (rule disjunctive_add) (auto simp: bit_simps)
  finally have s: "SIX_BYTE_INT (be_bytes 6 i @ z) = push_bit 32 ?h OR ucast (ucast i :: u32)" .
  show "bit (SIX_BYTE_INT (be_bytes 6 i @ z)) n = bit i (min 47 n)" if "n < 64" for n
    using that by (cases "n < 32"; cases "n < 40") (simp_all only: s, auto simp: be_bytes_expand(5) two_bits scast_bit bit_simps min_def)
qed simp

lemma get_eight: "EIGHT_BYTE_INT (be_bytes 8 v @ z) = v"
proof -
  have "EIGHT_BYTE_INT (be_bytes 8 v @ z) = push_bit 32 (ucast (ucast (drop_bit 32 v) :: u32)) + ucast (ucast v :: u32)"
    using get_four_unsigned [of "drop_bit 32 v" "be_bytes 4 v @ z"] get_four_unsigned [of v z]
    by (simp add: EIGHT_BYTE_INT_def be_bytes_expand(6) be_bytes_expand(4) [of "drop_bit 32 v"])
  also have "\<dots> = push_bit 32 (ucast (ucast (drop_bit 32 v) :: u32)) OR ucast (ucast v :: u32)"
    by (rule disjunctive_add) (auto simp: bit_simps)
  also have "\<dots> = v" by (rule bit_word_eqI) (auto simp: bit_simps)
  finally show ?thesis .
qed

section \<open>Values and their images\<close>

text \<open>The value of a cell.\<close>

datatype sql_value = V_Null | V_Int u64 | V_Real u64 | V_Text "u8 list" | V_Blob "u8 list"

definition mem_sql :: "Mem \<Rightarrow> sql_value" where
  "mem_sql p =
     (let f = mem_flags p
      in if has f MEM_Null then V_Null
         else if has f (MEM_Int OR MEM_IntReal) then V_Int (mem_i p)
         else if has f MEM_Real then V_Real (mem_r p)
         else if has f MEM_Str then V_Text (mem_text p) else V_Blob (mem_content p))"

text \<open>The serial type and the data that the format prescribes for a value.\<close>

fun value_type :: "nat \<Rightarrow> sql_value \<Rightarrow> u32" where
  "value_type ff V_Null = 0"
| "value_type ff (V_Int i) = fst (int_type ff i)"
| "value_type ff (V_Real r) = 7"
| "value_type ff (V_Text z) = of_nat (2 * length z + 13)"
| "value_type ff (V_Blob z) = of_nat (2 * length z + 12)"

fun value_data :: "nat \<Rightarrow> sql_value \<Rightarrow> u8 list" where
  "value_data ff V_Null = []"
| "value_data ff (V_Int i) = be_bytes (snd (int_type ff i)) i"
| "value_data ff (V_Real r) = be_bytes 8 r"
| "value_data ff (V_Text z) = z"
| "value_data ff (V_Blob z) = z"

text \<open>A real that is not a number is read as NULL.\<close>

fun read_back :: "sql_value \<Rightarrow> sql_value" where
  "read_back (V_Real r) = (if IsNaN r then V_Null else V_Real r)"
| "read_back v = v"

lemma be_bytes_length [simp]: "length (be_bytes n v) = n"
  by (induction n arbitrary: v) simp_all

lemma small_type_sizes:
  "sqlite3SmallTypeSizes ! 0 = 0" "sqlite3SmallTypeSizes ! Suc 0 = 1" "sqlite3SmallTypeSizes ! 2 = 2" "sqlite3SmallTypeSizes ! 3 = 3"
  "sqlite3SmallTypeSizes ! 4 = 4" "sqlite3SmallTypeSizes ! 5 = 6" "sqlite3SmallTypeSizes ! 6 = 8" "sqlite3SmallTypeSizes ! 7 = 8"
  "sqlite3SmallTypeSizes ! 8 = 0" "sqlite3SmallTypeSizes ! 9 = 0" "sqlite3SmallTypeSizes ! 10 = 0" "sqlite3SmallTypeSizes ! 11 = 0"
  by (simp_all add: sqlite3SmallTypeSizes_def)

lemma size_table:
  assumes "12 \<le> t" "t < 128"
  shows "sqlite3SmallTypeSizes ! t = (t - 12) div 2"
proof -
  have "list_all (\<lambda>t. sqlite3SmallTypeSizes ! t = (t - 12) div 2) [12..<128]" by code_simp
  then have "\<forall>t \<in> set [12..<128]. sqlite3SmallTypeSizes ! t = (t - 12) div 2" unfolding list_all_iff .
  moreover have "t \<in> set [12..<128]" using assms unfolding atLeastLessThan_upt [symmetric] by auto
  ultimately show ?thesis by blast
qed

lemma type_len_large:
  assumes "12 \<le> unat t"
  shows "sqlite3VdbeSerialTypeLen t = (unat t - 12) div 2" "unat ((t - 12) div 2) = (unat t - 12) div 2"
proof -
  have "unat (t - 12) = unat t - 12" using assms by (subst unat_sub) (simp_all add: word_le_nat_alt)
  then show u: "unat ((t - 12) div 2) = (unat t - 12) div 2" by (simp add: unat_div)
  show "sqlite3VdbeSerialTypeLen t = (unat t - 12) div 2"
    using u size_table [OF assms] by (simp add: sqlite3VdbeSerialTypeLen_def word_le_nat_alt)
qed

lemma type_len_small: "unat t < 12 \<Longrightarrow> sqlite3VdbeSerialTypeLen t \<le> 8"
proof -
  have "list_all (\<lambda>t. sqlite3SmallTypeSizes ! t \<le> 8) [0..<12]" by code_simp
  then show "unat t < 12 \<Longrightarrow> sqlite3VdbeSerialTypeLen t \<le> 8"
    by (simp add: sqlite3VdbeSerialTypeLen_def word_le_nat_alt list_all_iff)
qed

lemma int_type_magnitude:
  "int_type ff i =
     (if unat (magnitude i) < 2 ^ 7 then if i AND 1 = i \<and> ff \<ge> 4 then (8 + ucast (magnitude i), 0) else (1, 1)
      else if unat (magnitude i) < 2 ^ 15 then (2, 2) else if unat (magnitude i) < 2 ^ 23 then (3, 3)
      else if unat (magnitude i) < 2 ^ 31 then (4, 4) else if unat (magnitude i) < 2 ^ 47 then (5, 6) else (6, 8))"
  unfolding int_type_def Let_def magnitude_def [symmetric] by (simp add: word_le_nat_alt less_Suc_eq_le [symmetric])

lemma int_type_const:
  assumes "i AND 1 = (i :: u64)"
  shows "(i = 0 \<or> i = 1) \<and> magnitude i = i"
proof -
  have "i = of_bool (odd i)" using assms by (simp only: and_one_eq mod_2_eq_odd)
  then have "i = 0 \<or> i = 1" by (cases "odd i") simp_all
  then show ?thesis by (auto simp: magnitude_def)
qed

lemma int_type_cases:
  assumes "int_type ff i = (t, n)"
  obtains (const) "i = 0 \<or> i = 1" "t = 8 + ucast i" "n = 0"
    | (one) "t = 1" "n = 1" "unat (magnitude i) < 2 ^ 7" | (two) "t = 2" "n = 2" "unat (magnitude i) < 2 ^ 15"
    | (three) "t = 3" "n = 3" "unat (magnitude i) < 2 ^ 23" | (four) "t = 4" "n = 4" "unat (magnitude i) < 2 ^ 31"
    | (six) "t = 5" "n = 6" "unat (magnitude i) < 2 ^ 47" | (eight) "t = 6" "n = 8"
proof -
  note e = assms [unfolded int_type_magnitude]
  show ?thesis
  proof (cases "unat (magnitude i) < 2 ^ 7")
    case True
    then show ?thesis
      using e const one int_type_const [of i] by (cases "i AND 1 = i \<and> ff \<ge> 4") (simp_all only: if_True if_False prod.inject simp_thms)
  next
    case False
    then show ?thesis using e two three four six eight by (simp only: if_False prod.inject split: if_splits)
  qed
qed

lemma serialGet_numbers:
  "sqlite3VdbeSerialGet a (be_bytes 1 i @ z) 1 p = Some (p\<lparr>mem_u := U_i (ONE_BYTE_INT (be_bytes 1 i @ z)), mem_flags := MEM_Int\<rparr>)"
  "sqlite3VdbeSerialGet a (be_bytes 2 i @ z) 2 p = Some (p\<lparr>mem_u := U_i (scast (TWO_BYTE_INT (be_bytes 2 i @ z))), mem_flags := MEM_Int\<rparr>)"
  "sqlite3VdbeSerialGet a (be_bytes 3 i @ z) 3 p = Some (p\<lparr>mem_u := U_i (scast (THREE_BYTE_INT (be_bytes 3 i @ z))), mem_flags := MEM_Int\<rparr>)"
  "sqlite3VdbeSerialGet a (be_bytes 4 i @ z) 4 p = Some (p\<lparr>mem_u := U_i (scast (FOUR_BYTE_INT (be_bytes 4 i @ z))), mem_flags := MEM_Int\<rparr>)"
  "sqlite3VdbeSerialGet a (be_bytes 6 i @ z) 5 p = Some (p\<lparr>mem_u := U_i (SIX_BYTE_INT (be_bytes 6 i @ z)), mem_flags := MEM_Int\<rparr>)"
  "sqlite3VdbeSerialGet a (be_bytes 8 i @ z) 6 p = Some (p\<lparr>mem_u := U_i (EIGHT_BYTE_INT (be_bytes 8 i @ z)), mem_flags := MEM_Int\<rparr>)"
  "sqlite3VdbeSerialGet a (be_bytes 8 i @ z) 7 p =
     Some (p\<lparr>mem_u := U_r (EIGHT_BYTE_INT (be_bytes 8 i @ z)), mem_flags := (if IsNaN (EIGHT_BYTE_INT (be_bytes 8 i @ z)) then MEM_Null else MEM_Real)\<rparr>)"
  "sqlite3VdbeSerialGet a y 8 p = Some (p\<lparr>mem_u := U_i 0, mem_flags := MEM_Int\<rparr>)"
  "sqlite3VdbeSerialGet a y 9 p = Some (p\<lparr>mem_u := U_i 1, mem_flags := MEM_Int\<rparr>)"
  "sqlite3VdbeSerialGet a y 0 p = Some (p\<lparr>mem_flags := MEM_Null\<rparr>)"
  by (simp_all add: sqlite3VdbeSerialGet_def serialGet_def Let_def small_type_sizes del: be_bytes.simps)

lemma type_len_numbers:
  "sqlite3VdbeSerialTypeLen 0 = 0" "sqlite3VdbeSerialTypeLen 1 = 1" "sqlite3VdbeSerialTypeLen 2 = 2" "sqlite3VdbeSerialTypeLen 3 = 3"
  "sqlite3VdbeSerialTypeLen 4 = 4" "sqlite3VdbeSerialTypeLen 5 = 6" "sqlite3VdbeSerialTypeLen 6 = 8" "sqlite3VdbeSerialTypeLen 7 = 8"
  "sqlite3VdbeSerialTypeLen 8 = 0" "sqlite3VdbeSerialTypeLen 9 = 0"
  by (simp_all add: sqlite3VdbeSerialTypeLen_def small_type_sizes word_le_nat_alt)

lemma get_int:
  assumes "int_type ff i = (t, n)"
  shows "sqlite3VdbeSerialGet a (be_bytes n i @ z) t p = Some (p\<lparr>mem_u := U_i i, mem_flags := MEM_Int\<rparr>)"
    "sqlite3VdbeSerialTypeLen t = n" "t \<le> 9 \<and> t \<noteq> 7"
proof -
  from assms have "sqlite3VdbeSerialGet a (be_bytes n i @ z) t p = Some (p\<lparr>mem_u := U_i i, mem_flags := MEM_Int\<rparr>) \<and>
    sqlite3VdbeSerialTypeLen t = n \<and> t \<le> 9 \<and> t \<noteq> 7"
  proof (cases rule: int_type_cases)
    case const
    then show ?thesis by (auto simp: serialGet_numbers type_len_numbers)
  qed (simp_all only: serialGet_numbers type_len_numbers get_one get_two get_three get_four get_six get_eight, simp_all add: word_le_nat_alt)
  then show "sqlite3VdbeSerialGet a (be_bytes n i @ z) t p = Some (p\<lparr>mem_u := U_i i, mem_flags := MEM_Int\<rparr>)"
    "sqlite3VdbeSerialTypeLen t = n" "t \<le> 9 \<and> t \<noteq> 7" by blast+
qed

lemma text_type:
  assumes "n < 2 ^ 30" "b \<le> 1"
  shows "unat (of_nat (2 * n + 12 + b) :: u32) = 2 * n + 12 + b" "sqlite3VdbeSerialTypeLen (of_nat (2 * n + 12 + b)) = n"
    "sqlite3VdbeSerialGet a y (of_nat (2 * n + 12 + b)) p =
       Some (p\<lparr>mem_z := Ext a y, mem_n := n, mem_flags := (if b = 1 then MEM_Str OR MEM_Ephem else MEM_Blob OR MEM_Ephem)\<rparr>)"
proof -
  define t where "t = (of_nat (2 * n + 12 + b) :: u32)"
  show u: "unat (of_nat (2 * n + 12 + b) :: u32) = 2 * n + 12 + b" using assms by (subst unat_of_nat) simp
  then have t: "unat t = 2 * n + 12 + b" unfolding t_def .
  then have d: "(unat t - 12) div 2 = n" using assms(2) by simp
  then show "sqlite3VdbeSerialTypeLen (of_nat (2 * n + 12 + b)) = n" using type_len_large(1) [of t] t unfolding t_def by simp
  have odd: "t AND 1 = 1 \<longleftrightarrow> b = 1"
  proof -
    have "t AND 1 = of_bool (odd t)" by (simp only: and_one_eq mod_2_eq_odd)
    moreover have "odd t \<longleftrightarrow> odd (unat t)" by (simp add: bit_unsigned_iff flip: bit_0)
    moreover have "b = 0 \<or> b = 1" using assms(2) by auto
    ultimately show ?thesis using t by auto
  qed
  have small: "t \<noteq> 10" "t \<noteq> 11" "t \<noteq> 0" "t \<noteq> 8" "t \<noteq> 9" "\<not> t \<le> 7" using t by (auto simp: word_le_nat_alt)
  have "sqlite3VdbeSerialGet a y t p =
       Some (p\<lparr>mem_z := Ext a y, mem_n := n, mem_flags := (if b = 1 then MEM_Str OR MEM_Ephem else MEM_Blob OR MEM_Ephem)\<rparr>)"
    using type_len_large(2) [of t] t d small odd by (simp add: sqlite3VdbeSerialGet_def)
  then show "sqlite3VdbeSerialGet a y (of_nat (2 * n + 12 + b)) p =
       Some (p\<lparr>mem_z := Ext a y, mem_n := n, mem_flags := (if b = 1 then MEM_Str OR MEM_Ephem else MEM_Blob OR MEM_Ephem)\<rparr>)"
    unfolding t_def .
qed

text \<open>The reader recovers the value of a field from its serial type and its data.\<close>

lemma serialGet_value:
  assumes "length (value_data ff v) < 2 ^ 30"
  obtains m where "sqlite3VdbeSerialGet a (value_data ff v @ z) (value_type ff v) p = Some m" "mem_sql m = read_back v" "mem_enc m = mem_enc p"
    "sqlite3VdbeSerialTypeLen (value_type ff v) = length (value_data ff v)"
proof (cases v)
  case V_Null
  then have "sqlite3VdbeSerialGet a (value_data ff v @ z) (value_type ff v) p = Some (p\<lparr>mem_flags := MEM_Null\<rparr>)"
    by (simp add: serialGet_numbers)
  then show ?thesis by (rule that) (simp_all add: V_Null type_len_numbers mem_sql_def flag_simps)
next
  case (V_Int i)
  obtain t n where t: "int_type ff i = (t, n)" by fastforce
  with V_Int get_int(1) [OF t] have "sqlite3VdbeSerialGet a (value_data ff v @ z) (value_type ff v) p = Some (p\<lparr>mem_u := U_i i, mem_flags := MEM_Int\<rparr>)"
    by simp
  then show ?thesis by (rule that) (use t get_int(2) [OF t] in \<open>simp_all add: V_Int mem_sql_def flag_simps mem_i_def\<close>)
next
  case (V_Real r)
  then have "sqlite3VdbeSerialGet a (value_data ff v @ z) (value_type ff v) p =
      Some (p\<lparr>mem_u := U_r r, mem_flags := (if IsNaN r then MEM_Null else MEM_Real)\<rparr>)"
    by (simp only: value_data.simps value_type.simps serialGet_numbers(7) get_eight)
  then show ?thesis by (rule that) (simp_all add: V_Real type_len_numbers mem_sql_def flag_simps mem_r_def)
next
  case (V_Text y)
  have y: "length y < 2 ^ 30" using assms V_Text by simp
  have "sqlite3VdbeSerialGet a (value_data ff v @ z) (value_type ff v) p =
      Some (p\<lparr>mem_z := Ext a (y @ z), mem_n := length y, mem_flags := MEM_Str OR MEM_Ephem\<rparr>)"
    using text_type(3) [OF y, of 1] by (simp add: V_Text add.commute)
  then show ?thesis
    by (rule that) (use text_type(2) [OF y, of 1] in \<open>simp_all add: V_Text add.commute mem_sql_def flag_simps mem_text_def mem_bytes_def\<close>)
next
  case (V_Blob y)
  have y: "length y < 2 ^ 30" using assms V_Blob by simp
  have "sqlite3VdbeSerialGet a (value_data ff v @ z) (value_type ff v) p =
      Some (p\<lparr>mem_z := Ext a (y @ z), mem_n := length y, mem_flags := MEM_Blob OR MEM_Ephem\<rparr>)"
    using text_type(3) [OF y, of 0] by (simp add: V_Blob)
  then show ?thesis
    by (rule that) (use text_type(2) [OF y, of 0] in \<open>simp_all add: V_Blob mem_sql_def flag_simps mem_content_def mem_text_def mem_bytes_def\<close>)
qed

section \<open>The offsets of the reader\<close>

lemma varint_ref_count: "0 < snd (varint_ref k acc p) \<and> snd (varint_ref k acc p) \<le> Suc k"
  by (induction k arbitrary: acc p) (simp_all add: Let_def case_prod_beta)

lemma varint32_count: "0 < snd (getVarint32 p)" "snd (getVarint32 p) \<le> 9"
  using varint_ref_count [of 8 0 p] by (simp_all add: getVarint32_eq sqlite3GetVarint_eq varint_value_def case_prod_beta Let_def)

lemma varint32_at_some:
  assumes "idx + 9 \<le> length aKey"
  obtains t k where "varint32_at aKey idx = Some (t, k)" "0 < k" "k \<le> 9"
proof -
  obtain t k where tk: "getVarint32 (drop idx aKey) = (t, k)" by fastforce
  then have "0 < k" "k \<le> 9" using varint32_count [of "drop idx aKey"] by simp_all
  then show ?thesis using assms tk by (intro that [of t k]) (simp_all add: varint32_at_def)
qed

lemma varint32_at_put:
  "varint32_at (A @ sqlite3PutVarint (ucast (t :: u32)) @ z) (length A) = Some (t, length (sqlite3PutVarint (ucast t :: u64)))"
  by (simp add: varint32_at_def getVarint32_eq get_put_varint u64_of_u32)

section \<open>Arbitrary bytes\<close>

text \<open>What the reader leaves in a cell: a number, NULL, or a text or blob that lies between two offsets of the key.\<close>

definition cell_within :: "nat \<Rightarrow> u8 list \<Rightarrow> nat \<Rightarrow> nat \<Rightarrow> Mem \<Rightarrow> bool" where
  "cell_within a aKey lo hi m \<longleftrightarrow>
     \<not> has (mem_flags m) (MEM_Dyn OR MEM_Agg) \<and>
     (has (mem_flags m) (MEM_Str OR MEM_Blob) \<longrightarrow>
        (\<exists>d. lo \<le> d \<and> d + mem_n m \<le> hi \<and> mem_z m = Ext (a + d) (drop d aKey)))"

lemma serialGet_safe:
  assumes "8 \<le> length (drop d aKey)"
  obtains m where "sqlite3VdbeSerialGet (a + d) (drop d aKey) t p = Some m" "cell_within a aKey d (d + sqlite3VdbeSerialTypeLen t) m"
    "mem_enc m = mem_enc p"
proof -
  have fit: "\<not> length (drop d aKey) < sqlite3SmallTypeSizes ! unat t" if "t \<le> 7"
  proof -
    have "sqlite3VdbeSerialTypeLen t \<le> 8" using type_len_small [of t] that by (simp add: word_le_nat_alt)
    then show ?thesis using that assms by (simp add: sqlite3VdbeSerialTypeLen_def word_le_nat_alt)
  qed
  have large: "unat ((t - 12) div 2) = sqlite3VdbeSerialTypeLen t" if "\<not> t \<le> 7" "t \<noteq> 8" "t \<noteq> 9" "t \<noteq> 10" "t \<noteq> 11"
  proof -
    have "unat t \<noteq> 8" "unat t \<noteq> 9" "unat t \<noteq> 10" "unat t \<noteq> 11" using that by (auto simp: word_unat_eq_iff)
    then have "12 \<le> unat t" using that(1) by (simp add: word_le_nat_alt)
    then show ?thesis using type_len_large [of t] by simp
  qed
  have "sqlite3VdbeSerialGet (a + d) (drop d aKey) t p \<noteq> None"
    using fit unfolding sqlite3VdbeSerialGet_def by (simp split: if_split)
  then obtain m where m: "sqlite3VdbeSerialGet (a + d) (drop d aKey) t p = Some m" by blast
  have txtm: "m = p\<lparr>mem_z := Ext (a + d) (drop d aKey), mem_n := sqlite3VdbeSerialTypeLen t,
      mem_flags := (if t AND 1 = 1 then MEM_Str OR MEM_Ephem else MEM_Blob OR MEM_Ephem)\<rparr>"
    if "\<not> t \<le> 7" "t \<noteq> 8" "t \<noteq> 9" "t \<noteq> 10" "t \<noteq> 11"
    using m that large by (cases "t = 0") (simp_all add: sqlite3VdbeSerialGet_def)
  have flags: "mem_flags m \<in> {MEM_Null, MEM_Null OR MEM_Zero, MEM_Int, MEM_Real} \<and> mem_enc m = mem_enc p"
    if "t \<le> 7 \<or> t = 8 \<or> t = 9 \<or> t = 10 \<or> t = 11"
    using m that fit by (auto simp: sqlite3VdbeSerialGet_def serialGet_def Let_def split: if_splits)
  show ?thesis
  proof (cases "t \<le> 7 \<or> t = 8 \<or> t = 9 \<or> t = 10 \<or> t = 11")
    case True
    then show ?thesis using that [OF m] flags by (auto simp: cell_within_def flag_simps)
  next
    case False
    then show ?thesis using that [OF m] txtm by (auto simp: cell_within_def flag_simps)
  qed
qed

lemma cell_within_mono: "cell_within a aKey lo hi m \<Longrightarrow> lo' \<le> lo \<Longrightarrow> hi \<le> hi' \<Longrightarrow> cell_within a aKey lo' hi' m"
  unfolding cell_within_def using order_trans by blast

lemma type_len_less: "sqlite3VdbeSerialTypeLen t < 2 ^ 31"
proof (cases "12 \<le> unat t")
  case True
  then show ?thesis using type_len_large(1) [OF True] u32_lt [of t] by simp
next
  case False
  then show ?thesis using type_len_small [of t] by simp
qed

text \<open>
  The loop stays inside the buffer: every cell but the last lies before the end of the key, and so does
  the last unless the returned offset shows that it does not.
\<close>

lemma unpack_loop_safe:
  assumes "nKey + 9 \<le> length aKey" "nKey < 2 ^ 31" "szHdr \<le> d"
  shows "\<exists>cs e. unpack_loop enc a aKey nKey szHdr idx d ms = Some (cs, e) \<and> length cs \<le> length ms \<and> (cs = [] \<longrightarrow> e = d) \<and>
    (\<forall>c \<in> set (butlast cs). cell_within a aKey d nKey c) \<and> (cs \<noteq> [] \<longrightarrow> cell_within a aKey d e (last cs)) \<and>
    (\<forall>c \<in> set cs. mem_enc c = enc)"
  using assms(3)
proof (induction ms arbitrary: idx d)
  case (Cons m ms)
  show ?case
  proof (cases "idx < szHdr \<and> d \<le> nKey")
    case True
    then have "idx + 9 \<le> length aKey" using Cons.prems assms(1) by simp
    then obtain t k where t: "varint32_at aKey idx = Some (t, k)" by (rule varint32_at_some)
    have "8 \<le> length (drop d aKey)" using True assms(1) by (simp add: le_diff_conv2)
    then obtain c where c: "sqlite3VdbeSerialGet (a + d) (drop d aKey) t (m\<lparr>mem_enc := enc, mem_zMalloc := [], mem_z := Null\<rparr>) = Some c"
        "cell_within a aKey d (d + sqlite3VdbeSerialTypeLen t) c" "mem_enc c = enc"
      by (rule serialGet_safe [where p = "m\<lparr>mem_enc := enc, mem_zMalloc := [], mem_z := Null\<rparr>" and a = a and t = t]) simp
    define d' where "d' = d + sqlite3VdbeSerialTypeLen t"
    have d': "(d + sqlite3VdbeSerialTypeLen t) mod 4294967296 = d'" "szHdr \<le> d'" "d \<le> d'"
      using True assms(2) type_len_less [of t] Cons.prems by (simp_all add: d'_def)
    from Cons.IH [OF d'(2), of "idx + k"] obtain cs e where cs:
      "unpack_loop enc a aKey nKey szHdr (idx + k) d' ms = Some (cs, e)" "length cs \<le> length ms" "cs = [] \<longrightarrow> e = d'"
      "\<forall>c \<in> set (butlast cs). cell_within a aKey d' nKey c" "cs \<noteq> [] \<longrightarrow> cell_within a aKey d' e (last cs)" "\<forall>c \<in> set cs. mem_enc c = enc"
      by blast
    have r: "unpack_loop enc a aKey nKey szHdr idx d (m # ms) = Some (c # cs, e)"
      using True t c(1) cs(1) by (simp add: d'(1))
    have "d' \<le> nKey" if "cs \<noteq> []"
      using that cs(1) by (cases ms) (auto split: if_splits)
    then have "cell_within a aKey d nKey c" if "cs \<noteq> []" using that c(2) by (auto simp: d'_def intro: cell_within_mono)
    then show ?thesis
      using r cs(2-6) c(2,3) d'(3) by (cases cs) (auto simp: d'_def [symmetric] intro: cell_within_mono)
  next
    case False
    then show ?thesis by (intro exI [of _ "[]"] exI [of _ d]) auto
  qed
qed simp

definition read_safely :: "nat \<Rightarrow> u8 list \<Rightarrow> nat \<Rightarrow> nat \<Rightarrow> Mem list \<Rightarrow> bool" where
  "read_safely a aKey nKey enc cs \<longleftrightarrow> list_all (\<lambda>c. cell_within a aKey 0 nKey c \<and> mem_enc c = enc) cs"

lemma recordUnpack_safe:
  assumes "nKey + 9 \<le> length aKey" "nKey < 2 ^ 31"
  shows "\<exists>cs. sqlite3VdbeRecordUnpack E enc nKey a aKey aMem = Some cs \<and> length cs \<le> length aMem \<and> read_safely a aKey nKey enc cs"
proof -
  obtain h k where h: "varint32_at aKey 0 = Some (h, k)" by (rule varint32_at_some [of 0 aKey]) (use assms(1) in simp_all)
  obtain cs e where cs: "unpack_loop enc a aKey nKey (unat h) k (unat h) aMem = Some (cs, e)" "length cs \<le> length aMem" "cs = [] \<longrightarrow> e = unat h"
      "\<forall>c \<in> set (butlast cs). cell_within a aKey (unat h) nKey c" "cs \<noteq> [] \<longrightarrow> cell_within a aKey (unat h) e (last cs)" "\<forall>c \<in> set cs. mem_enc c = enc"
    using unpack_loop_safe [OF assms order_refl] by blast
  have init: "cell_within a aKey 0 nKey c" if "c \<in> set (butlast cs)" for c using cs(4) that by (auto intro: cell_within_mono)
  show ?thesis
  proof (cases "e > nKey \<and> cs \<noteq> []")
    case True
    have "\<not> VdbeMemDynamic (last cs)" using True cs(5) by (simp add: cell_within_def VdbeMemDynamic_def has_or)
    then have n: "fst (sqlite3VdbeMemSetNull E (last cs)) = (last cs)\<lparr>mem_flags := MEM_Null\<rparr>" by (simp add: sqlite3VdbeMemSetNull_def)
    have u: "cs[length cs - Suc 0 := c] = butlast cs @ [c]" for c
      using True by (cases cs rule: rev_cases) simp_all
    have "cell_within a aKey 0 nKey ((last cs)\<lparr>mem_flags := MEM_Null\<rparr>)" by (simp add: cell_within_def flag_simps)
    moreover have "mem_enc (last cs) = enc" using True cs(6) by simp
    ultimately show ?thesis using True h cs(1,2,6) init
      by (auto simp: sqlite3VdbeRecordUnpack_def read_safely_def n u list_all_iff dest: in_set_butlastD)
  next
    case False
    then have "cell_within a aKey 0 nKey c" if "c \<in> set cs" for c
      using that init cs(5) by (cases cs rule: rev_cases) (auto intro: cell_within_mono)
    then show ?thesis using False h cs(1,2,6) by (auto simp: sqlite3VdbeRecordUnpack_def read_safely_def list_all_iff)
  qed
qed

section \<open>The image of a record\<close>

abbreviation (input) type_bytes :: "nat \<Rightarrow> sql_value \<Rightarrow> u8 list" where
  "type_bytes ff v \<equiv> sqlite3PutVarint (ucast (value_type ff v))"

text \<open>Header and data of a record of values.\<close>

definition types_of :: "nat \<Rightarrow> sql_value list \<Rightarrow> u8 list" where
  "types_of ff vs = concat (map (type_bytes ff) vs)"

definition data_of :: "nat \<Rightarrow> sql_value list \<Rightarrow> u8 list" where
  "data_of ff vs = concat (map (value_data ff) vs)"

definition record_of :: "nat \<Rightarrow> sql_value list \<Rightarrow> u8 list" where
  "record_of ff vs = sqlite3PutVarint (of_nat (header_size (length (types_of ff vs)))) @ types_of ff vs @ data_of ff vs"

lemma image_simps [simp]:
  "types_of ff [] = []" "types_of ff (v # vs) = type_bytes ff v @ types_of ff vs"
  "data_of ff [] = []" "data_of ff (v # vs) = value_data ff v @ data_of ff vs"
  by (simp_all add: types_of_def data_of_def)

lemma varintLen_le: "0 < k \<Longrightarrow> sqlite3VarintLen v \<le> k \<longleftrightarrow> unat v < 2 ^ (7 * k)"
  by (simp add: varintLen_groups put_groups_length)

text \<open>The size in the header counts itself.\<close>

lemma header_size_fix:
  assumes "n < 2 ^ 31"
  shows "header_size n = n + length (sqlite3PutVarint (of_nat (header_size n)))" "header_size n \<le> n + 6"
proof -
  have len: "length (sqlite3PutVarint (of_nat m)) = sqlite3VarintLen (of_nat m)" if "m < 2 ^ 32" for m
    using that by (simp add: varintLen_cases unat_of_nat)
  have le: "0 < k \<Longrightarrow> sqlite3VarintLen (of_nat m) \<le> k \<longleftrightarrow> m < 2 ^ (7 * k)" if "m < 2 ^ 32" for m k
    using that by (simp add: varintLen_le unat_of_nat)
  have pos: "0 < sqlite3VarintLen v" for v using put_groups_nonempty [of v] by (simp add: varintLen_groups)
  define k where "k = sqlite3VarintLen (of_nat n)"
  have k: "0 < k" "k \<le> 5" "n < 2 ^ (7 * k)"
    using pos [of "of_nat n"] le [of n 5] le [of n k] assms by (simp_all add: k_def)
  have "header_size n = n + sqlite3VarintLen (of_nat (header_size n)) \<and> header_size n \<le> n + 6"
  proof (cases "n \<le> 126")
    case True
    then have h: "header_size n = n + 1" by (simp add: header_size_def)
    have "sqlite3VarintLen (of_nat (n + 1)) = 1" using le [of "n + 1" 1] pos [of "of_nat (n + 1)"] True by simp
    then show ?thesis using h by simp
  next
    case False
    then have k1: "sqlite3VarintLen (of_nat (n + k)) \<ge> k"
    proof -
      have "\<not> sqlite3VarintLen (of_nat (n + k)) \<le> k - 1" if "1 < k"
      proof -
        have "\<not> n < 2 ^ (7 * (k - 1))" using le [of n "k - 1"] that assms k(1) by (auto simp: k_def [symmetric])
        then have "\<not> n + k < 2 ^ (7 * (k - 1))" by simp
        then show ?thesis using le [of "n + k" "k - 1"] that assms k(2) by simp
      qed
      then show ?thesis using pos [of "of_nat (n + k)"] k(1) by (cases "1 < k") auto
    qed
    have "2 ^ (7 * k) + (7::nat) < 2 ^ (7 * Suc k)" using k(1) one_le_power [of 2 "7 * k"] self_le_power [of "2::nat" "7 * k"] by (simp add: power_add)
    then have up: "n + k + 1 < 2 ^ (7 * Suc k)" using k by linarith
    show ?thesis
    proof (cases "k < sqlite3VarintLen (of_nat (n + k))")
      case True
      then have "header_size n = n + k + 1" using False by (simp add: header_size_def Let_def k_def)
      moreover have "sqlite3VarintLen (of_nat (n + k + 1)) = k + 1"
        using le [of "n + k + 1" "Suc k"] le [of "n + k + 1" k] le [of "n + k" k] True up k assms by simp
      ultimately show ?thesis using k(2) by simp
    next
      case no: False
      then have "header_size n = n + k" using False by (simp add: header_size_def Let_def k_def)
      then show ?thesis using no k1 k(2) by simp
    qed
  qed
  then show "header_size n = n + length (sqlite3PutVarint (of_nat (header_size n)))" "header_size n \<le> n + 6"
    using len [of "header_size n"] assms by simp_all
qed

section \<open>Reading a record\<close>

text \<open>The loop reads the values whose types and data are still ahead of it.\<close>

lemma unpack_values:
  assumes "A @ types_of ff vs @ B @ data_of ff vs = take nKey aKey" "length (A @ types_of ff vs) = szHdr" "nKey \<le> length aKey" "nKey < 2 ^ 30"
    "idx = length A" "d = length (A @ types_of ff vs @ B)"
  shows "\<exists>cs e. unpack_loop enc a aKey nKey szHdr idx d ms = Some (cs, e) \<and> e \<le> nKey \<and>
    map mem_sql cs = take (length ms) (map read_back vs)"
  using assms
proof (induction ms arbitrary: A B vs idx d)
  case Nil
  then have "length (A @ types_of ff vs @ B @ data_of ff vs) = nKey" by simp
  then show ?case using Nil.prems(6) by simp
next
  case (Cons m ms)
  define z where "z = drop nKey aKey"
  have key: "aKey = A @ types_of ff vs @ B @ data_of ff vs @ z"
    using append_take_drop_id [of nKey aKey] unfolding Cons.prems(1) [symmetric] z_def by simp
  have size: "length (A @ types_of ff vs @ B @ data_of ff vs) = nKey" using Cons.prems(1,3) by simp
  show ?case
  proof (cases vs)
    case Nil
    then show ?thesis using Cons.prems(2,5) size Cons.prems(6) by (intro exI [of _ "[]"] exI [of _ d]) auto
  next
    case (Cons v vs')
    have t: "varint32_at aKey idx = Some (value_type ff v, length (type_bytes ff v))"
      using varint32_at_put [of A "value_type ff v"] by (simp add: key Cons \<open>idx = length A\<close>)
    have dr: "drop d aKey = value_data ff v @ data_of ff vs' @ z" by (simp add: key Cons \<open>d = _\<close>)
    have "length (value_data ff v) < 2 ^ 30" using size \<open>nKey < 2 ^ 30\<close> by (simp add: Cons)
    then obtain c where c: "sqlite3VdbeSerialGet (a + d) (drop d aKey) (value_type ff v) (m\<lparr>mem_enc := enc, mem_zMalloc := [], mem_z := Null\<rparr>) = Some c"
      "mem_sql c = read_back v" "sqlite3VdbeSerialTypeLen (value_type ff v) = length (value_data ff v)"
      unfolding dr
      by (rule serialGet_value [where a = "a + d" and z = "data_of ff vs' @ z" and p = "m\<lparr>mem_enc := enc, mem_zMalloc := [], mem_z := Null\<rparr>"])
    let ?A = "A @ type_bytes ff v" and ?B = "B @ value_data ff v"
    have "\<exists>cs e. unpack_loop enc a aKey nKey szHdr (idx + length (type_bytes ff v)) (d + length (value_data ff v)) ms = Some (cs, e) \<and>
      e \<le> nKey \<and> map mem_sql cs = take (length ms) (map read_back vs')"
      by (rule Cons.IH [of ?A vs' ?B]) (use Cons.prems in \<open>simp_all add: Cons\<close>)
    then obtain cs e where cs: "unpack_loop enc a aKey nKey szHdr (idx + length (type_bytes ff v)) (d + length (value_data ff v)) ms = Some (cs, e)"
      "e \<le> nKey" "map mem_sql cs = take (length ms) (map read_back vs')" by blast
    have "(d + length (value_data ff v)) mod 4294967296 = d + length (value_data ff v)"
      using size \<open>nKey < 2 ^ 30\<close> by (simp add: Cons \<open>d = _\<close>)
    moreover have "idx < szHdr \<and> d \<le> nKey"
      using size put_varint_length_bounds(1) [of "ucast (value_type ff v)"] Cons.prems(2) by (simp add: Cons \<open>d = _\<close> \<open>idx = _\<close>)
    ultimately have "unpack_loop enc a aKey nKey szHdr idx d (m # ms) = Some (c # cs, e)"
      using t c(1,3) cs(1) by simp
    then show ?thesis using cs(2,3) c(2) by (simp add: Cons)
  qed
qed

lemma recordUnpack_values:
  assumes "length (record_of ff vs) = nKey" "nKey < 2 ^ 30"
  shows "\<exists>cs. sqlite3VdbeRecordUnpack E enc nKey a (record_of ff vs @ z) aMem = Some cs \<and>
    map mem_sql cs = take (length aMem) (map read_back vs)"
proof -
  let ?n = "header_size (length (types_of ff vs))"
  let ?h = "sqlite3PutVarint (of_nat ?n)" and ?aKey = "record_of ff vs @ z"
  have n: "length (types_of ff vs) < 2 ^ 31" using assms by (simp add: record_of_def)
  have size: "?n = length (types_of ff vs) + length ?h" using header_size_fix(1) [OF n] .
  have less: "?n < 2 ^ 32" using size assms by (simp add: record_of_def)
  then have u: "(ucast (of_nat ?n :: u32) :: u64) = of_nat ?n" "unat (of_nat ?n :: u32) = ?n"
    by (simp_all add: unsigned_of_nat take_bit_nat_eq_self unat_of_nat)
  have h: "varint32_at ?aKey 0 = Some (of_nat ?n, length ?h)"
    using varint32_at_put [of "[]" "of_nat ?n"] by (simp add: u record_of_def)
  have "\<exists>cs e. unpack_loop enc a ?aKey nKey ?n (length ?h) ?n aMem = Some (cs, e) \<and> e \<le> nKey \<and>
      map mem_sql cs = take (length aMem) (map read_back vs)"
  proof (rule unpack_values [of ?h _ _ "[]"])
    show "length (?h @ types_of ff vs) = ?n" unfolding length_append using size by linarith
    then show "?n = length (?h @ types_of ff vs @ [])" unfolding append_Nil2 by (rule sym)
  qed (use assms in \<open>simp_all add: record_of_def\<close>)
  then obtain cs e where cs: "unpack_loop enc a ?aKey nKey ?n (length ?h) ?n aMem = Some (cs, e)" "e \<le> nKey"
      "map mem_sql cs = take (length aMem) (map read_back vs)" by blast
  have "sqlite3VdbeRecordUnpack E enc nKey a ?aKey aMem = Some cs" using h u(2) cs(1,2) by (simp add: sqlite3VdbeRecordUnpack_def)
  then show ?thesis using cs(3) by blast
qed

section \<open>Writing a record\<close>

text \<open>What is written for a cell: an integer of a column of type REAL becomes a real when it needs eight bytes.\<close>

definition to_write :: "(u64 \<Rightarrow> u64) \<Rightarrow> Mem \<Rightarrow> sql_value" where
  "to_write dbl p =
     (case mem_sql p of
        V_Int i \<Rightarrow> if has (mem_flags p) MEM_IntReal \<and> fst (int_type 4 i) = 6 then V_Real (dbl i) else V_Int i
      | v \<Rightarrow> v)"

lemma int_type_six: "fst (int_type ff i) = 6 \<longleftrightarrow> \<not> unat (magnitude i) < 2 ^ 47" "fst (int_type ff i) = 6 \<Longrightarrow> snd (int_type ff i) = 8"
proof -
  obtain t n where t: "int_type ff i = (t, n)" by fastforce
  note e = int_type_magnitude [of ff i, unfolded t]
  have "\<not> unat (magnitude i) < 2 ^ 47 \<Longrightarrow> t = 6 \<and> n = 8" using e by simp
  moreover have "t \<noteq> 6" if m: "unat (magnitude i) < 2 ^ 47"
    using t
  proof (cases rule: int_type_cases)
    case eight
    then show ?thesis using e m int_type_const [of i] by (auto split: if_splits)
  qed auto
  ultimately show "fst (int_type ff i) = 6 \<longleftrightarrow> \<not> unat (magnitude i) < 2 ^ 47" "fst (int_type ff i) = 6 \<Longrightarrow> snd (int_type ff i) = 8"
    using t by auto
qed

lemma expand_fields:
  assumes "sqlite3VdbeMemExpandBlob E p = Some (0, q, w)" "has (mem_flags p) MEM_Blob"
  shows "mem_u q = mem_u p \<and> mem_flags q = (mem_flags p AND NOT owner_flags) AND NOT (MEM_Zero OR MEM_Term)"
  using assms
  by (auto simp: sqlite3VdbeMemExpandBlob_def then_do_def finish_def sqlite3VdbeMemGrow_def grown_def mem_store_def put_bytes_def
      del_flags_def Let_def split: if_splits option.splits prod.splits bind_splits)

lemma put_small: "t < 0x80 \<Longrightarrow> sqlite3PutVarint (ucast (t :: u32)) = [ucast t]"
proof -
  assume "t < 0x80"
  then have t: "unat t < 128" by (simp add: word_less_nat_alt)
  then have "(ucast t :: u64) \<le> 0x7f" by (simp add: word_le_nat_alt unat_ucast_up)
  moreover have "n < 7" if "bit t n" for n
  proof (rule ccontr)
    assume n: "\<not> n < 7"
    have "drop_bit 7 t = 0" using t by (simp add: unat_eq_0 [symmetric] unat_drop_bit_div)
    then have "\<not> bit (drop_bit 7 t) (n - 7)" by simp
    then show False using that n by (simp add: bit_drop_bit_eq)
  qed
  then have "(ucast ((ucast t :: u64) AND 0x7f) :: u8) = ucast t"
    by (intro bit_word_eqI) (auto simp: bit_simps)
  ultimately show ?thesis by (simp add: sqlite3PutVarint_def)
qed

lemma int_field:
  assumes "int_type ff (mem_i p) = (t, n)"
  shows "field_bytes (p, t) = Some (sqlite3PutVarint (ucast t), be_bytes n (mem_i p))"
proof -
  have t: "t \<le> 9" "t \<noteq> 7" "sqlite3VdbeSerialTypeLen t = n" using get_int(2,3) [OF assms] by blast+
  have "unat t \<le> 9" using t(1) by (simp add: word_le_nat_alt)
  then have put: "sqlite3PutVarint (ucast t) = [ucast t]" "\<not> 128 \<le> t" "t < 128" "\<not> 14 \<le> t"
    using put_small [of t] by (simp_all add: word_less_nat_alt word_le_nat_alt)
  then have n: "sqlite3SmallTypeSizes ! unat t = n" using t(3) by (simp add: sqlite3VdbeSerialTypeLen_def)
  show ?thesis
  proof (cases "t \<le> 7")
    case True
    then show ?thesis using put n t(2) by (auto simp: field_bytes_def small_type_sizes)
  next
    case False
    from assms have "n = 0" using False by (cases rule: int_type_cases) auto
    then show ?thesis using put False by (simp add: field_bytes_def)
  qed
qed

lemma text_field:
  assumes "k < 2 ^ 30" "b \<le> 1" "mem_n q \<le> k" "mem_n q \<le> length (mem_bytes q)" "t = of_nat (2 * k + 12 + b)"
  shows "field_bytes (q, t) = Some (sqlite3PutVarint (ucast t), mem_text q)"
proof -
  have t: "unat t = 2 * k + 12 + b" using text_type(1) [OF assms(1,2)] assms(5) by simp
  then have 7: "\<not> t \<le> 7" by (simp add: word_le_nat_alt)
  have e: "mem_text q = []" if "\<not> 14 \<le> t"
    using that t assms(3) by (simp add: word_le_nat_alt mem_text_def)
  show ?thesis
  proof (cases "t < 0x80")
    case True
    then show ?thesis using 7 e assms(4) put_small [OF True] by (auto simp: field_bytes_def)
  next
    case False
    then show ?thesis using 7 assms(4) by (auto simp: field_bytes_def)
  qed
qed

text \<open>One field: its type, the bytes that will be written for it, and the zeros that are left to the end of the record.\<close>

definition sized_as :: "nat \<Rightarrow> nat \<Rightarrow> sql_value \<Rightarrow> (int \<times> field \<times> nat \<times> nat \<times> nat \<times> mem_ptr list) \<Rightarrow> bool" where
  "sized_as ff nData v r \<longleftrightarrow>
     (\<exists>q D dz w. r = (0, (q, value_type ff v), length (type_bytes ff v), length D, dz, w) \<and>
        field_bytes (q, value_type ff v) = Some (type_bytes ff v, D) \<and> value_data ff v = D @ replicate dz 0 \<and>
        (dz = 0 \<or> nData = 0) \<and> mem_sql q = v)"

lemma sized_asI:
  assumes "r = (0, (q, value_type ff v), length (type_bytes ff v), length D, dz, w)"
    "field_bytes (q, value_type ff v) = Some (type_bytes ff v, D)" "value_data ff v = D @ replicate dz 0" "dz = 0 \<or> nData = 0" "mem_sql q = v"
  shows "sized_as ff nData v r"
  using assms unfolding sized_as_def by blast

lemma size_int:
  assumes "mem_ok p" "\<not> has (mem_flags p) MEM_Null" "has (mem_flags p) (MEM_Int OR MEM_IntReal)"
  shows "\<exists>r. size_field E dbl ff nData p = Some r \<and> sized_as ff nData (to_write dbl p) r"
proof -
  obtain t n where t: "int_type ff (mem_i p) = (t, n)" by fastforce
  have six: "fst (int_type 4 (mem_i p)) = 6 \<longleftrightarrow> t = 6" "t = 6 \<Longrightarrow> n = 8"
    using int_type_six [of ff "mem_i p"] int_type_six(1) [of 4 "mem_i p"] t by simp_all
  have sql: "mem_sql p = V_Int (mem_i p)" using assms(2,3) by (simp add: mem_sql_def)
  have "t < 0x80" using get_int(3) [OF t] by (simp add: word_less_nat_alt word_le_nat_alt)
  then have len: "length (sqlite3PutVarint (ucast t)) = 1" "length (sqlite3PutVarint 7) = 1"
    using put_small [of t] put_small [of 7] by simp_all
  show ?thesis
  proof (cases "t = 6 \<and> has (mem_flags p) MEM_IntReal")
    case True
    let ?q = "p\<lparr>mem_u := U_r (dbl (mem_i p)), mem_flags := (mem_flags p AND NOT MEM_IntReal) OR MEM_Real\<rparr>"
    have v: "to_write dbl p = V_Real (dbl (mem_i p))" using True six sql by (simp add: to_write_def)
    have r: "size_field E dbl ff nData p = Some (0, (?q, 7), 1, 8, 0, [])"
      using True assms(2,3) t six(2) by (simp add: size_field_def Let_def)
    have "\<not> has (mem_flags p) MEM_Int" using mem_okD(1) [OF assms(1)] True by (auto simp: flags_ok_def split: if_splits)
    then have sq: "mem_sql ?q = V_Real (dbl (mem_i p))" using assms(2) by (simp add: mem_sql_def flag_simps mem_r_def)
    have "field_bytes (?q, 7) = Some (type_bytes ff (V_Real (dbl (mem_i p))), be_bytes 8 (dbl (mem_i p)))"
      using put_small [of 7] by (simp add: field_bytes_def small_type_sizes mem_r_def)
    then have "sized_as ff nData (to_write dbl p) (0, (?q, 7), 1, 8, 0, [])"
      unfolding v by (intro sized_asI [where D = "be_bytes 8 (dbl (mem_i p))" and dz = 0 and w = "[]"]) (use sq len in simp_all)
    then show ?thesis using r by blast
  next
    case False
    have v: "to_write dbl p = V_Int (mem_i p)" using False six sql by (auto simp: to_write_def)
    have r: "size_field E dbl ff nData p = Some (0, (p, t), 1, n, 0, [])"
      using False assms(2,3) t by (auto simp: size_field_def Let_def)
    have "sized_as ff nData (to_write dbl p) (0, (p, t), 1, n, 0, [])"
      unfolding v by (intro sized_asI [where D = "be_bytes n (mem_i p)" and dz = 0 and w = "[]"]) (use sql len t int_field [OF t] in simp_all)
    then show ?thesis using r by blast
  qed
qed

lemma size_text:
  assumes "env_ok E" "mem_ok p" "\<not> has (mem_flags p) (MEM_Null OR MEM_Int OR MEM_IntReal OR MEM_Real)" "has (mem_flags p) (MEM_Str OR MEM_Blob)"
    "length (value_data ff (mem_sql p)) < 2 ^ 30"
  shows "\<exists>r. size_field E dbl ff nData p = Some r \<and> (fst r = 7 \<or> sized_as ff nData (mem_sql p) r)"
proof -
  have n: "length (mem_text p) = mem_n p" "mem_n p \<le> length (mem_bytes p)"
    using mem_okD(4) [OF assms(2,4)] by (simp_all add: mem_text_def)
  have number: "\<not> has (mem_flags p) MEM_Null" "\<not> has (mem_flags p) (MEM_Int OR MEM_IntReal)" "\<not> has (mem_flags p) MEM_Real"
    using assms(3) by (simp_all add: has_or)
  define b where "b = (if has (mem_flags p) MEM_Str then 1 else 0 :: nat)"
  define k where "k = mem_n p + (if has (mem_flags p) MEM_Zero then mem_nZero p else 0)"
  define t where "t = (of_nat (2 * k + 12 + b) :: u32)"
  have zero: "has (mem_flags p) MEM_Zero \<Longrightarrow> has (mem_flags p) MEM_Blob \<and> \<not> has (mem_flags p) MEM_Str"
    using mem_okD(1) [OF assms(2)] by (simp add: flags_ok_def)
  have v: "value_type ff (mem_sql p) = t" "value_data ff (mem_sql p) = mem_content p" "length (mem_content p) = k"
    using number zero n by (auto simp: mem_sql_def t_def k_def b_def mem_content_def)
  have k: "k < 2 ^ 30" "b \<le> 1" using assms(5) v by (simp_all add: b_def)
  have t: "of_nat (mem_n p * 2) + 12 + (if has (mem_flags p) MEM_Str then 1 else 0) +
      (if has (mem_flags p) MEM_Zero then of_nat (mem_nZero p) * 2 else 0) = t"
    by (simp add: t_def k_def b_def algebra_simps)
  have len: "sqlite3VarintLen (ucast t) = length (sqlite3PutVarint (ucast t))"
    using u64_of_u32(2) [of t] by (simp add: varintLen_cases)
  have field: "field_bytes (q, t) = Some (sqlite3PutVarint (ucast t), mem_text q)" if "mem_n q \<le> k" "mem_n q \<le> length (mem_bytes q)" for q
    using text_field [OF k that t_def] .
  show ?thesis
  proof (cases "has (mem_flags p) MEM_Zero \<and> nData \<noteq> 0")
    case False
    let ?r = "(0, (p, t), length (sqlite3PutVarint (ucast t)), mem_n p, if has (mem_flags p) MEM_Zero then mem_nZero p else 0, [])"
    have "size_field E dbl ff nData p = Some ?r"
      using False number unfolding size_field_def Let_def t len by auto
    moreover have "sized_as ff nData (mem_sql p) ?r"
      by (rule sized_asI [where D = "mem_text p"]) (use v n False field [of p] in \<open>auto simp: k_def mem_content_def\<close>)
    ultimately show ?thesis by blast
  next
    case True
    then have z: "has (mem_flags p) MEM_Zero" "has (mem_flags p) MEM_Blob" "\<not> has (mem_flags p) MEM_Str" using zero by blast+
    have s: "size_field E dbl ff nData p =
        map_option (\<lambda>(rc, q, w). (rc, (q, t), length (sqlite3PutVarint (ucast t)), mem_n p + mem_nZero q, 0, w)) (sqlite3VdbeMemExpandBlob E p)"
      using True number unfolding size_field_def Let_def t len by simp
    from assms(1,2) z(1) show ?thesis
    proof (cases rule: expandBlob_ok)
      case fail
      then show ?thesis using s by (auto simp: failed_def)
    next
      case (ok q)
      have f: "mem_u q = mem_u p" "mem_flags q = (mem_flags p AND NOT owner_flags) AND NOT (MEM_Zero OR MEM_Term)"
        using expand_fields [OF ok(1) z(2)] by blast+
      have "mem_nZero q = mem_nZero p" using f(1) by (simp add: mem_nZero_def)
      then have r: "size_field E dbl ff nData p = Some (0, (q, t), length (sqlite3PutVarint (ucast t)), mem_n q, 0, dyn_call p)"
        using s ok(1,8) by simp
      have nq: "mem_n q \<le> length (mem_bytes q)" using mem_okD(4) [OF ok(2)] ok(7) by (simp add: has_or)
      have c: "mem_content q = mem_content p" "mem_text q = mem_content p"
        using ok(4,9) z(1) f(2) by (simp_all add: mem_content_def mem_text_def mem_bytes_def flag_simps)
      have "mem_sql q = mem_sql p" using number z c(1) f(2) by (simp add: mem_sql_def flag_simps)
      then have "sized_as ff nData (mem_sql p) (0, (q, t), length (sqlite3PutVarint (ucast t)), mem_n q, 0, dyn_call p)"
        by (intro sized_asI [where q = q and D = "mem_text q" and dz = 0 and w = "dyn_call p"]) (use v nq ok(8) z(1) c(2) field [of q] in \<open>simp_all add: k_def mem_text_def\<close>)
      then show ?thesis using r by blast
    qed
  qed
qed

lemma affmask: "has f MEM_AffMask \<longleftrightarrow> has f (MEM_Null OR MEM_Int OR MEM_IntReal OR MEM_Real) \<or> has f (MEM_Str OR MEM_Blob)"
proof -
  have m: "MEM_AffMask = (MEM_Null OR MEM_Int OR MEM_IntReal OR MEM_Real) OR (MEM_Str OR MEM_Blob)"
    by (simp add: MEM_AffMask_def MEM_Null_def MEM_Int_def MEM_IntReal_def MEM_Real_def MEM_Str_def MEM_Blob_def)
  show ?thesis by (simp only: m has_or)
qed

lemma size_field_ok:
  assumes "env_ok E" "mem_ok p" "has (mem_flags p) MEM_AffMask" "length (value_data ff (to_write dbl p)) < 2 ^ 30"
  shows "\<exists>r. size_field E dbl ff nData p = Some r \<and> (fst r = 7 \<or> sized_as ff nData (to_write dbl p) r)"
proof -
  let ?f = "mem_flags p"
  have z: "has ?f MEM_Zero \<Longrightarrow> \<not> has ?f MEM_Null"
    using mem_okD(1) [OF assms(2)] by (auto simp: flags_ok_def has_or)
  consider (null) "has ?f MEM_Null" | (int) "\<not> has ?f MEM_Null" "has ?f (MEM_Int OR MEM_IntReal)"
    | (real) "\<not> has ?f MEM_Null" "\<not> has ?f (MEM_Int OR MEM_IntReal)" "has ?f MEM_Real"
    | (str) "\<not> has ?f (MEM_Null OR MEM_Int OR MEM_IntReal OR MEM_Real)" "has ?f (MEM_Str OR MEM_Blob)"
    using assms(3) affmask [of ?f] by (auto simp: has_or)
  then show ?thesis
  proof cases
    case null
    then have "size_field E dbl ff nData p = Some (0, (p, 0), 1, 0, 0, [])" using z by (auto simp: size_field_def Let_def)
    moreover have "sized_as ff nData (to_write dbl p) (0, (p, 0), 1, 0, 0, [])"
      by (rule sized_asI [where q = p and D = "[]" and dz = 0 and w = "[]"]) (use null put_small [of 0] in \<open>simp_all add: to_write_def mem_sql_def field_bytes_def\<close>)
    ultimately show ?thesis by blast
  next
    case int
    then show ?thesis using size_int [OF assms(2)] by blast
  next
    case real
    then have "size_field E dbl ff nData p = Some (0, (p, 7), 1, 8, 0, [])" by (simp add: size_field_def Let_def)
    moreover have "sized_as ff nData (to_write dbl p) (0, (p, 7), 1, 8, 0, [])"
      by (rule sized_asI [where q = p and D = "be_bytes 8 (mem_r p)" and dz = 0 and w = "[]"])
        (use real put_small [of 7] in \<open>simp_all add: to_write_def mem_sql_def field_bytes_def small_type_sizes\<close>)
    ultimately show ?thesis by blast
  next
    case str
    have "to_write dbl p = mem_sql p" using str(1) by (simp add: to_write_def mem_sql_def has_or)
    then show ?thesis using size_text [OF assms(1,2) str] assms(4) by simp
  qed
qed

text \<open>The fields sized so far, for the values \<open>vs\<close>.\<close>

definition sized :: "nat \<Rightarrow> field list \<Rightarrow> sql_value list \<Rightarrow> nat \<Rightarrow> nat \<Rightarrow> nat \<Rightarrow> bool" where
  "sized ff fs vs nHdr nData nZero \<longleftrightarrow>
     (\<exists>hds. map field_bytes fs = map Some hds \<and> map fst hds = map (type_bytes ff) vs \<and> nHdr = length (types_of ff vs) \<and>
        nData = length (concat (map snd hds)) \<and> data_of ff vs = concat (map snd hds) @ replicate nZero 0 \<and> map (mem_sql \<circ> fst) fs = vs)"

lemma sized_Cons:
  assumes "sized ff fs vs nHdr nData nZero" "sized_as ff nData v (rc, f, dh, dd, dz, w)"
  shows "rc = 0 \<and> sized ff (f # fs) (v # vs) (nHdr + dh) (nData + dd) (nZero + dz)"
proof -
  from assms(1) obtain hds where h: "map field_bytes fs = map Some hds" "map fst hds = map (type_bytes ff) vs" "nHdr = length (types_of ff vs)"
      "nData = length (concat (map snd hds))" "data_of ff vs = concat (map snd hds) @ replicate nZero 0" "map (mem_sql \<circ> fst) fs = vs"
    unfolding sized_def by blast
  from assms(2) obtain q D where f: "rc = 0" "f = (q, value_type ff v)" "dh = length (type_bytes ff v)" "dd = length D"
      "field_bytes f = Some (type_bytes ff v, D)" "value_data ff v = D @ replicate dz 0" "dz = 0 \<or> nData = 0" "mem_sql q = v"
    unfolding sized_as_def by blast
  define C where "C = concat (map snd hds)"
  have "C = []" if "dz \<noteq> 0" using f(7) that h(4) by (simp add: C_def)
  then have "value_data ff v @ C @ replicate nZero 0 = D @ C @ replicate (nZero + dz) 0"
    using f(6) by (cases "dz = 0") (simp_all add: replicate_add [symmetric] add.commute)
  then have "data_of ff (v # vs) = concat (map snd ((type_bytes ff v, D) # hds)) @ replicate (nZero + dz) 0"
    using h(5) by (simp add: C_def)
  then have "sized ff (f # fs) (v # vs) (nHdr + dh) (nData + dd) (nZero + dz)"
    unfolding sized_def by (intro exI [of _ "(type_bytes ff v, D) # hds"]) (use h f in simp)
  then show ?thesis using f(1) by blast
qed

text \<open>The cells for which the arithmetic of the serial types does not wrap around.\<close>

definition cell_fits :: "nat \<Rightarrow> (u64 \<Rightarrow> u64) \<Rightarrow> Mem \<Rightarrow> bool" where
  "cell_fits ff dbl p \<longleftrightarrow> mem_ok p \<and> has (mem_flags p) MEM_AffMask \<and> length (value_data ff (to_write dbl p)) < 2 ^ 30"

lemma size_fields_ok:
  assumes "env_ok E" "list_all (cell_fits ff dbl) ps" "sized ff fs vs nHdr nData nZero"
  shows "\<exists>rc fs' h d z w'. size_fields E dbl ff ps nHdr nData nZero fs w = Some (rc, fs', h, d, z, w') \<and>
    (rc = 7 \<or> rc = 0 \<and> sized ff fs' (rev (map (to_write dbl) ps) @ vs) h d z)"
  using assms(2,3)
proof (induction ps arbitrary: fs vs nHdr nData nZero w)
  case (Cons p ps)
  have p: "mem_ok p" "has (mem_flags p) MEM_AffMask" "length (value_data ff (to_write dbl p)) < 2 ^ 30"
    using Cons.prems(1) by (simp_all add: cell_fits_def)
  obtain rc f dh dd dz w' where r: "size_field E dbl ff nData p = Some (rc, f, dh, dd, dz, w')"
      "rc = 7 \<or> sized_as ff nData (to_write dbl p) (rc, f, dh, dd, dz, w')"
    using size_field_ok [OF assms(1) p, of nData] by (metis fst_conv prod_cases6)
  show ?case
  proof (cases "rc = 7")
    case True
    then show ?thesis using r(1) by simp
  next
    case False
    then have s: "rc = 0" "sized ff (f # fs) (to_write dbl p # vs) (nHdr + dh) (nData + dd) (nZero + dz)"
      using sized_Cons [OF Cons.prems(2)] r(2) by blast+
    have "list_all (cell_fits ff dbl) ps" using Cons.prems(1) by simp
    from Cons.IH [OF this s(2), of "w @ w'"] show ?thesis using r(1) s(1) by simp
  qed
qed simp

lemma store_at: "length A = i \<Longrightarrow> length v = length B \<Longrightarrow> store i v (A @ B @ C) = Some (A @ v @ C)"
  by (simp add: store_def)

text \<open>Header and data are written side by side; \<open>A\<close> and \<open>B\<close> are the parts already written.\<close>

lemma write_fields_ok:
  assumes "map field_bytes fs = map Some hds" "length H = length (concat (map fst hds))" "length D = length (concat (map snd hds))"
    "zHdr = length A" "zPayload = length (A @ H @ B)"
  shows "write_fields fs zHdr zPayload (A @ H @ B @ D @ R) = Some (A @ concat (map fst hds) @ B @ concat (map snd hds) @ R)"
  using assms
proof (induction fs arbitrary: hds A H B D zHdr zPayload)
  case (Cons f fs)
  then obtain h d hds' where hds: "hds = (h, d) # hds'" "field_bytes f = Some (h, d)" "map field_bytes fs = map Some hds'"
    by (cases hds) auto
  define H1 H2 D1 D2 where "H1 = take (length h) H" "H2 = drop (length h) H" "D1 = take (length d) D" "D2 = drop (length d) D"
  have split: "H = H1 @ H2" "D = D1 @ D2" "length H1 = length h" "length D1 = length d"
      "length H2 = length (concat (map fst hds'))" "length D2 = length (concat (map snd hds'))"
    using Cons.prems(2,3) by (simp_all add: H1_H2_D1_D2_def hds(1))
  have 1: "store zHdr h (A @ H @ B @ D @ R) = Some (A @ h @ H2 @ B @ D @ R)"
    using store_at [of A zHdr h H1 "H2 @ B @ D @ R"] Cons.prems(4) split by simp
  have 2: "store zPayload d (A @ h @ H2 @ B @ D @ R) = Some ((A @ h) @ H2 @ (B @ d) @ D2 @ R)"
    using store_at [of "A @ h @ H2 @ B" zPayload d D1 "D2 @ R"] Cons.prems(5) split by simp
  have "write_fields fs (zHdr + length h) (zPayload + length d) ((A @ h) @ H2 @ (B @ d) @ D2 @ R) =
      Some ((A @ h) @ concat (map fst hds') @ (B @ d) @ concat (map snd hds') @ R)"
    by (rule Cons.IH) (use hds(3) split Cons.prems(4,5) in simp_all)
  then show ?case using 1 2 hds(1,2) by simp
qed simp

text \<open>The output cell once its buffer is large enough.\<close>

lemma record_written:
  assumes "mem_z q = Own" "N + d \<le> length (mem_zMalloc q)" "N = length P + length T" "d = length C" "0 < N + d"
    "map field_bytes fs = map Some hds" "concat (map fst hds) = T" "concat (map snd hds) = C"
    "q' = q\<lparr>mem_n := N + d, mem_flags := (if z \<noteq> 0 then MEM_Blob OR MEM_Zero else MEM_Blob), mem_u := (if z \<noteq> 0 then U_nZero z else mem_u q)\<rparr>"
  shows "\<exists>buf buf'. store 0 P (mem_bytes q') = Some buf \<and> write_fields fs (length P) N buf = Some buf' \<and>
    mem_ok (put_bytes buf' q') \<and> mem_content (put_bytes buf' q') = P @ T @ C @ replicate z 0"
proof -
  define b where "b = drop (length P) (mem_zMalloc q)"
  define H D R where "H = take (length T) b" "D = take d (drop (length T) b)" "R = drop d (drop (length T) b)"
  have lb: "length T + d \<le> length b" using assms(2,3) by (simp add: b_def)
  have bytes: "mem_bytes q' = mem_zMalloc q" using assms(1,9) by (simp add: mem_bytes_def)
  have b: "b = H @ D @ R" by (simp only: H_D_R_def append_take_drop_id)
  have lens: "length H = length T" "length D = length C" using lb assms(4) by (simp_all add: H_D_R_def)
  have 1: "store 0 P (mem_bytes q') = Some (P @ H @ [] @ D @ R)"
    using assms(2,3) b by (simp add: store_def bytes b_def)
  have 2: "write_fields fs (length P) N (P @ H @ [] @ D @ R) = Some (P @ T @ C @ R)"
    using write_fields_ok [OF assms(6), of H D "length P" P N "[]" R] lens assms(3,7,8) by simp
  let ?out = "put_bytes (P @ T @ C @ R) q'"
  have out: "?out = q'\<lparr>mem_zMalloc := P @ T @ C @ R\<rparr>" using assms(1,9) by (simp add: put_bytes_def)
  have flags: "mem_flags q' = (if z \<noteq> 0 then MEM_Blob OR MEM_Zero else MEM_Blob)" "mem_u q' = (if z \<noteq> 0 then U_nZero z else mem_u q)"
      "mem_z q' = Own" "mem_n q' = N + d" using assms(1,9) by simp_all
  have "mem_ok ?out"
  proof (rule own_cell_ok(1))
    show "Suc 0 \<le> length (mem_zMalloc ?out)" 
    proof -
      have "mem_zMalloc ?out = P @ T @ C @ R" by (simp add: out)
      then show ?thesis using assms(3-5) by (simp only: length_append)
    qed
  qed (use flags assms(3,4) in \<open>simp_all add: out flags_ok_def union_ok_def flag_simps split: if_splits\<close>)
  moreover have "mem_content ?out = P @ T @ C @ replicate z 0"
    using flags assms(3,4) by (simp add: out mem_content_def mem_text_def mem_bytes_def mem_nZero_def flag_simps)
  ultimately show ?thesis using 1 2 by blast
qed

text \<open>The whole instruction: unless memory runs out or the record is too big, the output cell holds the image of the values.\<close>

lemma makeRecord_ok:
  assumes "env_ok E" "mem_ok pOut" "list_all (cell_fits ff dbl) ps" "length (types_of ff (map (to_write dbl) ps)) < 2 ^ 31"
  shows "\<exists>rc out cells w. OP_MakeRecord E dbl ff ps pOut = Some (rc, out, cells, w) \<and>
    (rc = 7 \<or> rc = 18 \<and> me_limit E < length (record_of ff (map (to_write dbl) ps)) \<or>
     rc = 0 \<and> mem_ok out \<and> mem_content out = record_of ff (map (to_write dbl) ps) \<and>
       length (mem_content out) \<le> max (length (mem_zMalloc pOut)) (me_limit E) \<and> map mem_sql cells = map (to_write dbl) ps)"
proof -
  let ?vs = "map (to_write dbl) ps"
  have "list_all (cell_fits ff dbl) (rev ps)" using assms(3) by (simp add: list_all_iff)
  moreover have "sized ff [] [] 0 0 0" by (simp add: sized_def)
  ultimately obtain rc fs h d z w where s: "size_fields E dbl ff (rev ps) 0 0 0 [] [] = Some (rc, fs, h, d, z, w)"
      "rc = 7 \<or> rc = 0 \<and> sized ff fs ?vs h d z"
    using size_fields_ok [OF assms(1), of ff dbl "rev ps" "[]" "[]" 0 0 0 "[]"] by (auto simp: rev_map)
  show ?thesis
  proof (cases "rc = 7")
    case True
    then show ?thesis using s(1) by (simp add: OP_MakeRecord_def)
  next
    case False
    then obtain hds where hds: "rc = 0" "map field_bytes fs = map Some hds" "map fst hds = map (type_bytes ff) ?vs" "h = length (types_of ff ?vs)"
      "d = length (concat (map snd hds))" "data_of ff ?vs = concat (map snd hds) @ replicate z 0" "map (mem_sql \<circ> fst) fs = ?vs"
      using s(2) unfolding sized_def by blast
    define N where "N = header_size h"
    define P where "P = sqlite3PutVarint (of_nat N)"
    define C where "C = concat (map snd hds)"
    have N: "N = h + length P" using header_size_fix(1) [of h] assms(4) hds(4) by (simp add: N_def P_def)
    have rec: "record_of ff ?vs = P @ types_of ff ?vs @ C @ replicate z 0"
      using hds(4,6) by (simp add: record_of_def N_def P_def C_def)
    have size: "length (record_of ff ?vs) = N + d + z" using N hds(4,5) rec by (simp add: C_def)
    have types: "concat (map fst hds) = types_of ff ?vs" using hds(3) by (simp add: types_of_def)
    have pos: "0 < N + d" using N put_varint_length_bounds(1) [of "of_nat N"] by (simp add: P_def)
    let ?done = "\<lambda>q. q\<lparr>mem_n := N + d, mem_flags := (if z \<noteq> 0 then MEM_Blob OR MEM_Zero else MEM_Blob),
        mem_u := (if z \<noteq> 0 then U_nZero z else mem_u q)\<rparr>"
    have run: "OP_MakeRecord E dbl ff ps pOut =
        (if N + d + z > length (mem_zMalloc pOut) \<and> N + d + z > me_limit E then Some (18, pOut, map fst fs, w)
         else Option.bind
           (if N + d + z \<le> length (mem_zMalloc pOut) then Some (0, pOut\<lparr>mem_z := Own\<rparr>, []) else sqlite3VdbeMemClearAndResize E pOut (N + d))
           (\<lambda>(rc, q, w'). if rc \<noteq> 0 then Some (7, q, map fst fs, w @ w')
              else Option.bind (store 0 P (mem_bytes (?done q))) (\<lambda>buf.
                map_option (\<lambda>buf. (0, put_bytes buf (?done q), map fst fs, w @ w')) (write_fields fs (length P) N buf))))"
      using s(1) hds(1) unfolding OP_MakeRecord_def Let_def N_def P_def by simp
    have final: "\<exists>out. OP_MakeRecord E dbl ff ps pOut = Some (0, out, map fst fs, w @ w') \<and> mem_ok out \<and>
        mem_content out = record_of ff ?vs \<and> length (mem_content out) \<le> max (length (mem_zMalloc pOut)) (me_limit E)"
      if "\<not> (N + d + z > length (mem_zMalloc pOut) \<and> N + d + z > me_limit E)" "mem_z q = Own" "N + d \<le> length (mem_zMalloc q)"
        "(if N + d + z \<le> length (mem_zMalloc pOut) then Some (0, pOut\<lparr>mem_z := Own\<rparr>, []) else sqlite3VdbeMemClearAndResize E pOut (N + d)) = Some (0, q, w')"
      for q w'
    proof -
      have n: "N = length P + length (types_of ff ?vs)" "d = length C" using N hds(4,5) by (simp_all add: C_def)
      from record_written [OF that(2,3) n pos hds(2) types C_def [symmetric] refl, of z] obtain buf buf' where
        "store 0 P (mem_bytes (?done q)) = Some buf" "write_fields fs (length P) N buf = Some buf'"
        "mem_ok (put_bytes buf' (?done q))" "mem_content (put_bytes buf' (?done q)) = record_of ff ?vs" unfolding rec by blast
      moreover have "length (record_of ff ?vs) \<le> max (length (mem_zMalloc pOut)) (me_limit E)" using that(1) by (auto simp: size)
      ultimately show ?thesis unfolding run that(4) using that(1) by (auto simp del: not_less)
    qed
    have cells: "map mem_sql (map fst fs) = ?vs" using hds(7) by simp
    consider "N + d + z > length (mem_zMalloc pOut) \<and> N + d + z > me_limit E" | "N + d + z \<le> length (mem_zMalloc pOut)"
      | "\<not> N + d + z \<le> length (mem_zMalloc pOut)" "\<not> N + d + z > me_limit E" by linarith
    then show ?thesis
    proof cases
      case 1
      then show ?thesis unfolding run size by simp
    next
      case 2
      then show ?thesis using final [of "pOut\<lparr>mem_z := Own\<rparr>" "[]"] cells by fastforce
    next
      case 3
      from assms(1,2) pos show ?thesis
      proof (cases rule: resize_ok)
        case fail
        then show ?thesis unfolding run using 3 by (auto simp: failed_def)
      next
        case (ok q w')
        then show ?thesis using final [of q w'] 3 cells by fastforce
      qed
    qed
  qed
qed

lemma value_length:
  assumes "mem_ok p" "\<not> sqlite3VdbeMemTooBig E p" "me_limit E \<le> 1000000000"
    "has (mem_flags p) MEM_AffMask"
  shows "cell_fits ff dbl p"
proof -
  have n: "length (mem_content p) < 2 ^ 30" if "has (mem_flags p) (MEM_Str OR MEM_Blob)"
    using that assms(2,3) mem_okD(4) [OF assms(1) that] by (auto simp: sqlite3VdbeMemTooBig_def mem_content_def mem_text_def)
  have "length (mem_text p) \<le> length (mem_content p)" by (simp add: mem_content_def)
  have i: "snd (int_type ff i) \<le> 8" for i by (simp add: int_type_magnitude)
  have "length (value_data ff (to_write dbl p)) < 2 ^ 30"
  proof (cases "mem_sql p")
    case (V_Text y)
    then have "has (mem_flags p) (MEM_Str OR MEM_Blob)" "y = mem_text p" by (auto simp: mem_sql_def Let_def has_or split: if_splits)
    then show ?thesis using n V_Text by (simp add: to_write_def mem_content_def)
  next
    case (V_Blob y)
    then have "has (mem_flags p) (MEM_Str OR MEM_Blob)" "y = mem_content p"
      using affmask [of "mem_flags p"] assms(4) by (auto simp: mem_sql_def Let_def has_or split: if_splits)
    then show ?thesis using n V_Blob by (simp add: to_write_def)
  next
    case (V_Int j)
    then show ?thesis using i [of j] by (auto simp: to_write_def)
  qed (simp_all add: to_write_def)
  then show ?thesis using assms by (simp add: cell_fits_def)
qed

text \<open>When no allocation fails, the only error is a record that is too big.\<close>

lemma size_fields_code:
  assumes "\<And>n. me_alloc E n \<noteq> None" "size_fields E dbl ff ps nHdr nData nZero fs w = Some (rc, x)"
  shows "rc = 0"
  using assms(2)
proof (induction ps arbitrary: nHdr nData nZero fs w)
  case (Cons p ps)
  have "rc' = 0" if "size_field E dbl ff nData p = Some (rc', y)" for rc' y
    using that codes_alloc(4) [OF assms(1), of p]
    by (auto simp: size_field_def Let_def codes_def split: if_splits prod.splits)
  then show ?case using Cons by (auto split: option.splits prod.splits if_splits)
qed simp

lemma makeRecord_code:
  assumes "\<And>n. me_alloc E n \<noteq> None" "OP_MakeRecord E dbl ff ps pOut = Some (rc, x)"
  shows "rc \<noteq> 7"
proof -
  have "rc' = 0" if "size_fields E dbl ff (rev ps) 0 0 0 [] [] = Some (rc', y)" for rc' y
    using size_fields_code [OF assms(1) that] .
  moreover have "rc' = 0" if "sqlite3VdbeMemClearAndResize E pOut n = Some (rc', y)" for rc' y n
    using codes_alloc(2) [OF assms(1), of pOut n] that by (cases y) (auto simp: codes_def)
  ultimately show ?thesis
    using assms(2) by (auto simp: OP_MakeRecord_def Let_def split: option.splits if_splits prod.splits bind_splits)
qed

lemma types_length: "length (types_of ff vs) \<le> 9 * length vs"
  using put_varint_length_bounds(2) by (induction vs) (auto intro: add_mono)

end
