(* ===== verification/Sqlite_Engine_Properties.thy ===== *)
theory Sqlite_Engine_Properties
  imports Sqlite_Bitvec Sqlite_Rowset Sqlite_Random Sqlite_Like Sqlite_Record
begin

text \<open>
  The properties of the parts of the bundled SQLite that its storage engine and its SQL functions
  are built on, each with a witness at a concrete input where it has hypotheses.
\<close>

section \<open>A concrete environment and cell\<close>

definition plain_env :: mem_env where
  "plain_env = \<lparr>me_alloc = \<lambda>n. Some (replicate n 0), me_finalize = \<lambda>p. (p, []), me_limit = 1000000000\<rparr>"

definition null_cell :: Mem where
  "null_cell = \<lparr>mem_u = U_i 0, mem_z = Null, mem_n = 0, mem_flags = MEM_Null, mem_enc = 1, mem_eSubtype = 0,
     mem_zMalloc = [], mem_xDel = SQLITE_STATIC\<rparr>"

lemma plain_env_ok: "env_ok plain_env" "me_alloc plain_env n \<noteq> None" "me_limit plain_env = 1000000000"
  by (simp_all add: env_ok_def plain_env_def)

lemma null_cell_ok: "mem_ok null_cell" "mem_flags null_cell = MEM_Null"
  using mem_ok_simple(1) [of null_cell] by (simp_all add: null_cell_def)

section \<open>Sets of page numbers\<close>

text \<open>
  C24: A bit vector created for the page numbers 1 to \<open>n\<close> is a set: after any sequence of insertions
  and removals of such numbers the test for membership answers, for every 32-bit number, as the
  mathematical set does, whichever of the three representations the operations led to. The only
  way a sequence can fail is SQLITE_NOMEM (7) from an insertion, and it does not fail when every
  allocation succeeds; no operation reads outside an array or runs for ever.
\<close>

theorem bitvec_is_a_set:
  assumes "\<forall>(b, i) \<in> set ops. 0 < i \<and> i \<le> n"
  shows "\<exists>rc p. page_run (sqlite3BitvecSet alloc) sqlite3BitvecClear ops (sqlite3BitvecCreate True n) = Some (rc, p) \<and>
    (rc = 0 \<or> rc = 7) \<and> ((\<forall>k. alloc k) \<longrightarrow> rc = 0) \<and>
    (rc = 0 \<longrightarrow> (\<forall>i. sqlite3BitvecTest p i = Some (i \<in> page_spec ops {})))"
proof -
  have new: "bitvec_inv (sqlite3BitvecCreate True n)" "bv_elems (the (sqlite3BitvecCreate True n)) = {}"
      "sqlite3BitvecSize (the (sqlite3BitvecCreate True n)) = n"
    using create_correct [of n] by (simp_all add: bitvec_inv_def sqlite3BitvecCreate_def)
  obtain rc p where p: "page_run (sqlite3BitvecSet alloc) sqlite3BitvecClear ops (sqlite3BitvecCreate True n) = Some (rc, p)"
      "rc = 0 \<or> rc = 7" "(\<forall>k. alloc k) \<longrightarrow> rc = 0" "bitvec_inv p" "rc = 0 \<longrightarrow> bv_elems (the p) = page_spec ops {}"
    using page_numbers.history [OF new(1), of ops alloc] assms new(2,3) by auto
  moreover have "sqlite3BitvecTest p i = Some (i \<in> page_spec ops {})" if "rc = 0" for i
    using page_numbers.test_law [OF p(4), of i] p(5) that by simp
  ultimately show ?thesis by blast
qed

theorem bitvec_is_a_set_witness:
  "(5000 :: u32) \<le> 10000 \<and> (7 :: u32) \<le> 10000 \<and> (131 :: u32) \<le> 10000 \<and>
   (\<exists>p. page_run (sqlite3BitvecSet (\<lambda>k. True)) sqlite3BitvecClear
          [(True, 5000), (True, 7), (False, 5000), (True, 131)] (sqlite3BitvecCreate True 10000) = Some (0, p) \<and>
      sqlite3BitvecTest p 7 = Some True \<and> sqlite3BitvecTest p 131 = Some True \<and> sqlite3BitvecTest p 5000 = Some False)"
  using bitvec_is_a_set [of "[(True, 5000), (True, 7), (False, 5000), (True, 131)]" 10000 "\<lambda>k. True"]
  by (auto simp: page_spec_def)

section \<open>Collections of row numbers\<close>

text \<open>
  C25: Membership tests on a row set see exactly the rows that were inserted before the last change
  of the batch number, for every interleaving of fewer than 2^40 insertions and tests; the tests
  always return and the only failure is an allocation that fails.
\<close>

theorem rowset_answers_by_batch:
  assumes "length ops < 2 ^ 40"
  shows "\<exists>c as. rowset_run sqlite3RowSetInsert sqlite3RowSetTest ops (sqlite3RowSetInit n) = Some (c, as) \<and>
    ((\<forall>x \<in> set ops. fst x) \<longrightarrow> c) \<and> (c \<longrightarrow> as = batch_answers (map snd ops) 0 {} {})"
  using row_numbers.answers [OF init_ok(1), of ops n] assms init_ok [of n] by simp

theorem rowset_answers_by_batch_witness:
  "length [(True, Insert 9), (True, Insert 4), (True, Test 1 4), (True, Insert 7), (True, Test 1 7), (True, Test 2 7)] < 2 ^ 40 \<and>
   rowset_run sqlite3RowSetInsert sqlite3RowSetTest
     [(True, Insert 9), (True, Insert 4), (True, Test 1 4), (True, Insert 7), (True, Test 1 7), (True, Test 2 7)] (sqlite3RowSetInit 56) =
   Some (True, [True, False, True])"
proof -
  let ?ops = "[(True, Insert 9), (True, Insert 4), (True, Test 1 4), (True, Insert 7), (True, Test 1 7), (True, Test 2 7)]"
  have l: "length ?ops < 2 ^ 40" by simp
  have a: "\<forall>x \<in> set ?ops. fst x" "batch_answers (map snd ?ops) 0 {} {} = [True, False, True]" by simp_all
  obtain c as where r: "rowset_run sqlite3RowSetInsert sqlite3RowSetTest ?ops (sqlite3RowSetInit 56) = Some (c, as)" "c" "as = [True, False, True]"
    using rowset_answers_by_batch [OF l, of 56] a(1) unfolding a(2) by blast
  then have "c = True" by simp
  then show ?thesis using l r(1,3) by (simp only: simp_thms)
qed

text \<open>
  C26: Extraction from a row set delivers, in increasing order and each once, exactly the rows that
  were inserted, in whatever order and however often, and then reports the end for ever; the
  array of 40 sorted runs is never exceeded with fewer than 2^40 insertions.
\<close>

theorem rowset_delivers_sorted:
  assumes "length xs < 2 ^ 40" "length oks = length xs" "insert_all oks xs (sqlite3RowSetInit n) = (True, p)"
  shows "next_answers k p = Some (take k (map Some (sorted_list_of_set (set xs)) @ replicate k None))"
proof -
  have "rowset_inv p \<and> rs_pEntry p = xs \<and> \<not> rs_next p"
    using insert_all_ok [OF init_ok(1) _ assms(2,3)] assms(1) init_ok(5) by (simp add: sqlite3RowSetInit_def)
  then show ?thesis using next_answers_ok [OF delivers_inserted] by blast
qed

theorem rowset_delivers_sorted_witness:
  "\<exists>p. insert_all [True, True, True, True] [5, 2, 5, 1] (sqlite3RowSetInit 56) = (True, p) \<and>
     next_answers 4 p = Some [Some 1, Some 2, Some 5, None]"
proof -
  have "fst (insert_all [True, True, True, True] [5, 2, 5, 1] (sqlite3RowSetInit 56))"
    by (simp add: sqlite3RowSetInsert_def rowSetEntryAlloc_def sqlite3RowSetInit_def ROWSET_ENTRY_PER_CHUNK_def)
  then obtain p where p: "insert_all [True, True, True, True] [5, 2, 5, 1] (sqlite3RowSetInit 56) = (True, p)" by (metis prod.collapse)
  have "set [5, 2, 5, 1] = set [1, 2, 5 :: int]" by auto
  moreover have "sorted_list_of_set (set [1, 2, 5 :: int]) = [1, 2, 5]" by (rule sorted_list_of_set.idem_if_sorted_distinct) simp_all
  ultimately have s: "sorted_list_of_set (set [5, 2, 5, 1]) = [1, 2, 5 :: int]" by simp
  have t: "take 4 (map Some [1, 2, 5 :: int] @ replicate 4 None) = [Some 1, Some 2, Some 5, None]" by (simp add: eval_nat_numeral)
  have "next_answers 4 p = Some (take 4 (map Some (sorted_list_of_set (set [5, 2, 5, 1])) @ replicate 4 None))"
    by (rule rowset_delivers_sorted [OF _ _ p]) simp_all
  then show ?thesis using p unfolding s t by blast
qed

section \<open>Random numbers\<close>

text \<open>
  C27: The random generator delivers every byte of the ChaCha20 key stream at most once: after any
  sequence of requests since the seeding, the bytes handed out and those still waiting are together
  exactly the first \<open>k\<close> blocks of the stream, each request has received the number of bytes it
  asked for, and fewer bytes wait than a block holds or one block.
\<close>

theorem random_bytes_delivered_once:
  assumes "length seed = 11" "\<forall>N \<in> set Ns. N > 0" "Ns \<noteq> []" "randomness_run seed Ns sqlite3Prng = (zs, q)"
  shows "map (int \<circ> length) zs = Ns \<and> prng_n q \<le> 64 \<and>
    (\<exists>k. mset (concat zs) + mset (waiting q) = mset (stream (prng_s (prng_init seed sqlite3Prng)) k) \<and>
       length (concat zs) + prng_n q = 64 * k)"
proof -
  let ?p = "prng_init seed sqlite3Prng"
  have i: "length (prng_s sqlite3Prng) = 16" "length (prng_out sqlite3Prng) = 64" "prng_s sqlite3Prng ! 0 = 0"
    by (simp_all add: sqlite3Prng_def)
  have p: "prng_ok ?p" "waiting ?p = []" using prng_init_ok [OF i(1,2) assms(1)] by blast+
  obtain N Ns' where N: "Ns = N # Ns'" using assms(3) by (cases Ns) auto
  have "randomness_run seed Ns ?p = (zs, q)"
    using assms(2,4) first_call [OF _ i(3,1,2) assms(1), of N] N by simp
  then obtain k where k: "delivered ?p (concat zs) k q" "map (int \<circ> length) zs = Ns"
    using randomness_run_ok [OF p(1) assms(2)] by blast
  then have m: "mset (concat zs) + mset (waiting q) = mset (stream (prng_s ?p) k)" "prng_ok q" using p(2) by (simp_all add: delivered_def)
  have "length (concat zs) + length (waiting q) = length (stream (prng_s ?p) k)"
    using arg_cong [OF m(1), of size] by simp
  then have "length (concat zs) + prng_n q = 64 * k"
    using waiting_length [OF m(2)] stream_length [of "prng_s ?p" k] p(1) by (simp add: prng_ok_def)
  then show ?thesis using k(2) m by (auto simp: prng_ok_def)
qed

theorem random_bytes_delivered_once_witness:
  "\<exists>zs q. randomness_run (replicate 11 7) [8, 100] sqlite3Prng = (zs, q) \<and> map (int \<circ> length) zs = [8, 100] \<and>
     (\<exists>k. length (concat zs) + prng_n q = 64 * k)"
proof -
  obtain zs q where r: "randomness_run (replicate 11 7) [8, 100] sqlite3Prng = (zs, q)" by fastforce
  then show ?thesis using random_bytes_delivered_once [of "replicate 11 7" "[8, 100]" zs q] by auto
qed

section \<open>Characters and texts\<close>

text \<open>
  Reading the UTF-8 form of any Unicode code point gives the code point back, except that the
  surrogates and the noncharacters FFFE and FFFF become the replacement character; exactly the bytes that were
  written are consumed, between one and four, whatever text follows.
\<close>

theorem utf8_code_point_round_trip:
  assumes "c < 0x110000" "boundary z" "0 \<in> set z"
  shows "sqlite3Utf8Read (WRITE_UTF8 c @ z) =
      Some (if 0xD800 \<le> c \<and> c \<le> 0xDFFF \<or> c = 0xFFFE \<or> c = 0xFFFF then 0xFFFD else c, z) \<and>
    1 \<le> length (WRITE_UTF8 c) \<and> length (WRITE_UTF8 c) \<le> 4"
proof -
  have "c < 0x200000" using assms(1) by (simp add: word_less_nat_alt)
  then have "sqlite3Utf8Read (WRITE_UTF8 c @ z) = Some (utf8_read_value c, z)"
    using assms(2,3) utf8Read_eq [of "WRITE_UTF8 c @ z"] read_write_utf8 by simp
  moreover have "1 \<le> length (WRITE_UTF8 c)" by (simp add: Suc_le_eq)
  ultimately show ?thesis using write_utf8_length by (simp add: utf8_read_value_def)
qed

theorem utf8_code_point_round_trip_witness:
  "(0x20AC :: u32) < 0x110000 \<and> sqlite3Utf8Read (WRITE_UTF8 0x20AC @ [0x41, 0]) = Some (0x20AC, [0x41, 0])"
  using utf8_code_point_round_trip [of "0x20AC" "[0x41, 0]"] by (simp add: continuation_iff)

text \<open>
  A text survives a conversion from UTF-8 to UTF-16 of either byte order and back, and swapping
  the bytes of one UTF-16 form gives the other; this holds for every text of Unicode scalar values
  except the two noncharacters.
\<close>

theorem utf16_conversion_round_trip:
  assumes "\<forall>c \<in> set cs. utf8_char c"
  shows "recode (length (text_of WRITE_UTF8 cs)) READ_UTF8 WRITE_UTF16LE (text_of WRITE_UTF8 cs) = Some (text_of WRITE_UTF16LE cs) \<and>
    recode (length (text_of WRITE_UTF8 cs)) READ_UTF8 WRITE_UTF16BE (text_of WRITE_UTF8 cs) = Some (text_of WRITE_UTF16BE cs) \<and>
    recode (length (text_of WRITE_UTF16LE cs)) READ_UTF16LE WRITE_UTF8 (text_of WRITE_UTF16LE cs) = Some (text_of WRITE_UTF8 cs) \<and>
    recode (length (text_of WRITE_UTF16BE cs)) READ_UTF16BE WRITE_UTF8 (text_of WRITE_UTF16BE cs) = Some (text_of WRITE_UTF8 cs) \<and>
    swap_pairs (text_of WRITE_UTF16LE cs) = text_of WRITE_UTF16BE cs"
proof -
  have "\<forall>c \<in> set cs. scalar c" using assms by (simp add: utf8_char_def)
  then show ?thesis
    using utf8.recode_text [OF assms order_refl] utf16le.recode_text [of cs] utf16be.recode_text [of cs] swap_text(1) by simp
qed

theorem utf16_conversion_round_trip_witness:
  "utf8_char 0x41 \<and> utf8_char 0x20AC \<and> utf8_char 0x1F600 \<and>
   recode (length (text_of WRITE_UTF8 [0x41, 0x20AC, 0x1F600])) READ_UTF8 WRITE_UTF16LE (text_of WRITE_UTF8 [0x41, 0x20AC, 0x1F600]) =
     Some (text_of WRITE_UTF16LE [0x41, 0x20AC, 0x1F600]) \<and>
   text_of WRITE_UTF16LE [0x41, 0x20AC, 0x1F600] = [0x41, 0x00, 0xAC, 0x20, 0x3D, 0xD8, 0x00, 0xDE]"
proof -
  have ok: "utf8_char 0x41" "utf8_char 0x20AC" "utf8_char 0x1F600" by (simp_all add: utf8_char_def scalar_def)
  then have "\<forall>c \<in> set [0x41, 0x20AC, 0x1F600]. utf8_char c" by simp
  moreover have "text_of WRITE_UTF16LE [0x41, 0x20AC, 0x1F600] = [0x41, 0x00, 0xAC, 0x20, 0x3D, 0xD8, 0x00, 0xDE]"
    by (simp add: WRITE_UTF16LE_def)
  ultimately show ?thesis using utf16_conversion_round_trip ok by blast
qed

section \<open>Pattern matching\<close>

text \<open>
  C23: LIKE and GLOB decide exactly what their description by tokens says, for every pattern within
  the length limit and every text, well formed or not: wildcards, character sets with ranges and negation, the
  escape character, and letters without regard to case in LIKE. A blob on either side never matches,
  whatever its bytes, NULL gives NULL, and a longer pattern is an error. The comparison always returns and
  never reads past the end of the pattern or of the text, and its early return for patterns with
  several wildcards loses no match.
\<close>

theorem like_meets_description:
  assumes "I = globInfo \<or> I = likeInfoNorm \<or> I = likeInfoAlt"
  shows "likeFunc limit I a b None = Some
    (case (a, b) of
       (ArgBlob _, _) \<Rightarrow> LikeInt False
     | (_, ArgBlob _) \<Rightarrow> LikeInt False
     | (ArgNull, _) \<Rightarrow> LikeNull
     | (ArgText P, _) \<Rightarrow>
         if length P > limit then LikeError ''LIKE or GLOB pattern too complex''
         else (case b of
                 ArgText S \<Rightarrow> LikeInt (pat_matches (noCase I)
                   (pat_tokens I (ucast (matchSet I)) (utf8_chars (P @ [0]))) (utf8_chars (S @ [0])))
               | _ \<Rightarrow> LikeNull))"
proof -
  have "wild_ok I (ucast (matchSet I))"
    using assms by (auto simp: wild_ok_def globInfo_def likeInfoNorm_def likeInfoAlt_def word_unat_eq_iff word_less_nat_alt)
  then have "map_option (\<lambda>r. LikeInt (r = SQLITE_MATCH)) (patternCompare (P @ [0]) (S @ [0]) I (ucast (matchSet I))) =
      Some (LikeInt (pat_matches (noCase I) (pat_tokens I (ucast (matchSet I)) (utf8_chars (P @ [0]))) (utf8_chars (S @ [0]))))"
    for P S
    using patternCompare_correct [of I "ucast (matchSet I)" P S] by (auto simp: result_ok_def)
  then show ?thesis by (cases a; cases b) (simp_all add: likeFunc_def Let_def)
qed

theorem like_meets_description_witness:
  "likeFunc 50000 likeInfoNorm (ArgText [0x61, 0x25, 0x63]) (ArgText [0x41, 0x62, 0x63, 0x43]) None = Some (LikeInt True) \<and>
   likeFunc 50000 globInfo (ArgText [0x61, 0x2A, 0x63]) (ArgText [0x41, 0x62, 0x63]) None = Some (LikeInt False) \<and>
   likeFunc 50000 likeInfoNorm (ArgText [0x25]) (ArgBlob [0x61]) None = Some (LikeInt False)"
proof -
  have "pat_matches True (pat_tokens likeInfoNorm 0 (utf8_chars [0x61, 0x25, 0x63, 0])) (utf8_chars [0x41, 0x62, 0x63, 0x43, 0])"
    "\<not> pat_matches False (pat_tokens globInfo 0x5B (utf8_chars [0x61, 0x2A, 0x63, 0])) (utf8_chars [0x41, 0x62, 0x63, 0])"
    by code_simp+
  then show ?thesis
    using like_meets_description [of likeInfoNorm 50000 "ArgText [0x61, 0x25, 0x63]" "ArgText [0x41, 0x62, 0x63, 0x43]"]
      like_meets_description [of globInfo 50000 "ArgText [0x61, 0x2A, 0x63]" "ArgText [0x41, 0x62, 0x63]"]
      like_meets_description [of likeInfoNorm 50000 "ArgText [0x25]" "ArgBlob [0x61]"]
    by (simp add: likeInfoNorm_def globInfo_def)
qed

text \<open>
  LIKE with an ESCAPE clause: a single character is required, and then the pattern is read with
  that character as the escape, also where it is one of the wildcards, which it replaces.
\<close>

theorem like_escape_meets_description:
  assumes "length P \<le> limit" "I = likeInfoNorm \<or> I = likeInfoAlt"
  shows "likeFunc limit I (ArgText P) (ArgText S) (Some (ArgText E)) =
    Some (case utf8_chars (E @ [0]) of
        [e] \<Rightarrow> LikeInt (pat_matches (noCase I)
          (pat_tokens (I\<lparr>matchAll := if e = 0x25 then 0 else 0x25, matchOne := if e = 0x5F then 0 else 0x5F\<rparr>) e
            (utf8_chars (P @ [0]))) (utf8_chars (S @ [0])))
      | _ \<Rightarrow> LikeError ''ESCAPE expression must be a single character'')"
  using assms by (rule likeFunc_escape)

theorem like_escape_meets_description_witness:
  "length ([0x61, 0x25, 0x62] :: u8 list) \<le> 50000 \<and>
   likeFunc 50000 likeInfoNorm (ArgText [0x61, 0x25, 0x62]) (ArgText [0x41, 0x25, 0x42]) (Some (ArgText [0x5C, 0x5C])) =
     Some (LikeError ''ESCAPE expression must be a single character'')"
proof -
  have "utf8_chars [0x5C, 0x5C, 0] = [0x5C, 0x5C]" by code_simp
  then show ?thesis
    using like_escape_meets_description [of "[0x61, 0x25, 0x62]" 50000 likeInfoNorm "[0x41, 0x25, 0x42]" "[0x5C, 0x5C]"] by simp
qed

text \<open>
  The C function sqlite3_strlike with the percent sign as escape character differs from the
  operator LIKE with the same ESCAPE clause, which its documentation says it equals: with the
  pattern of two percent signs the function matches every text, the operator only the text of one percent sign.
\<close>

theorem strlike_percent_escape_differs:
  "sqlite3_strlike (Some [0x25, 0x25, 0]) (Some (S @ [0])) 0x25 = Some 0 \<and>
   likeFunc 50000 likeInfoNorm (ArgText [0x25, 0x25]) (ArgText S) (Some (ArgText [0x25])) = Some (LikeInt (utf8_chars (S @ [0]) = [0x25]))"
proof -
  have p: "utf8_chars [0x25, 0x25, 0] = [0x25, 0x25]" "utf8_chars [0x25, 0] = [0x25]" by code_simp+
  have t: "pat_tokens likeInfoNorm 0x25 [0x25, 0x25] = [Star, Star]"
    "pat_tokens (likeInfoNorm\<lparr>matchAll := 0, matchOne := 0x5F\<rparr>) 0x25 [0x25, 0x25] = [Lit 0x25]" by code_simp+
  have "wild_ok likeInfoNorm 0x25" by (simp add: wild_ok_def likeInfoNorm_def)
  moreover have "pat_matches nc [Star, Star] cs" for nc cs by (induction cs) simp_all
  ultimately have "sqlite3_strlike (Some [0x25, 0x25, 0]) (Some (S @ [0])) 0x25 = Some 0"
    using patternCompare_correct [of likeInfoNorm "0x25" "[0x25, 0x25]" S] p(1) t(1)
    by (auto simp: sqlite3_strlike_def result_ok_def)
  moreover have "pat_matches nc [Lit 0x25] cs \<longleftrightarrow> cs = [0x25]" for nc cs
  proof -
    have "UpperToLower 0x25 = UpperToLower (ucast x) \<Longrightarrow> x = 0x25" if "x < 0x80" for x :: u32
      using that by (auto simp: word_unat_eq_iff [of "UpperToLower _"] tolower_eq fold_nat_def unat_code word_unat_eq_iff split: if_splits)
    then show ?thesis by (cases cs) auto
  qed
  ultimately show ?thesis using likeFunc_escape [of "[0x25, 0x25]" 50000 likeInfoNorm S "[0x25]"] p t(2) by simp
qed

section \<open>Value cells\<close>

text \<open>
  C20: Type preservation for the value cells of the virtual machine: on a well-formed cell (one type
  per value, the union read at the member that was written, exactly one owner of the bytes, the
  length inside the buffer, the terminator in place where it is announced) every operation returns,
  without access outside a buffer and with a well-formed cell, also when an allocation fails or the text is too long;
  when it succeeds the cell holds the new value. If no allocation fails, the only error is
  SQLITE_TOOBIG (18), for text longer than the limit.
\<close>

theorem value_cells_keep_their_type:
  assumes "env_ok E" "mem_ok p" "op_ok p op"
  shows "\<exists>rc q w. mem_run E op p = Some (rc, q, w) \<and> mem_ok q \<and> (rc = 0 \<longrightarrow> op_done p op q) \<and>
    ((\<forall>n. me_alloc E n \<noteq> None) \<longrightarrow> rc = (if too_long E op then 18 else 0))"
proof -
  obtain rc q w where r: "mem_run E op p = Some (rc, q, w)" "mem_ok q" "rc = 0 \<longrightarrow> op_done p op q"
    using mem_run_ok [OF assms] unfolding kept_def by blast
  then show ?thesis using mem_run_codes [of E op p] by (auto simp: codes_def)
qed

theorem value_cells_keep_their_type_witness:
  "env_ok plain_env \<and> mem_ok null_cell \<and>
   (\<exists>q w. mem_run plain_env (SetStr (Some (7, [0x41, 0x42])) (Some 2) 1 SQLITE_TRANSIENT) null_cell = Some (0, q, w) \<and>
      mem_ok q \<and> mem_text q = [0x41, 0x42])"
proof -
  let ?op = "SetStr (Some (7, [0x41, 0x42])) (Some 2) 1 SQLITE_TRANSIENT"
  have "op_ok null_cell ?op" "\<not> too_long plain_env ?op"
    by (simp_all add: str_args_ok_def string_ok_def too_long_def plain_env_ok)
  then show ?thesis using value_cells_keep_their_type [OF plain_env_ok(1) null_cell_ok(1), of ?op] plain_env_ok null_cell_ok(1)
    by (auto simp: str_result_def)
qed

text \<open>
  C21: Ownership: over the whole life of a value cell, whatever sequence of operations is applied to
  it and whichever of them fail, each buffer that came with a destructor is handed to it exactly once,
  by the operation that replaces or rejects it or by the final release, which also gives back the
  memory of the cell itself. Nothing is freed twice and nothing is leaked.
\<close>

theorem destructors_run_exactly_once:
  assumes "mem_life E p gs w q" "env_ok E" "mem_flags p = MEM_Null"
  shows "mset (handed (w @ snd (sqlite3VdbeMemRelease E q))) = mset gs \<and> mem_zMalloc (fst (sqlite3VdbeMemRelease E q)) = []"
proof -
  have p: "mem_ok p" "held p = []" using mem_ok_simple assms(3) by simp_all
  have "mem_ok q" "mset (handed w) + mset (held q) = mset gs" using mem_life_ok [OF assms(1,2) p(1)] p(2) by simp_all
  then show ?thesis using release_ok [of q E] by simp
qed

theorem destructors_run_exactly_once_witness:
  "\<exists>w q. mem_life plain_env null_cell [7, 8] w q \<and> mem_flags null_cell = MEM_Null \<and>
     mset (handed (w @ snd (sqlite3VdbeMemRelease plain_env q))) = {#7, 8#}"
proof -
  let ?s = "\<lambda>a. SetStr (Some (a, [0x41, 0])) (Some 1) 1 Free"
  have ok: "op_ok q (?s a)" "given (?s a) = [a]" for q a
    by (simp_all add: str_args_ok_def string_ok_def str_given_def give_away_def)
  obtain rc q w where q: "mem_run plain_env (?s 7) null_cell = Some (rc, q, w)" "mem_ok q"
    using mem_run_ok [OF plain_env_ok(1) null_cell_ok(1) ok(1)] unfolding kept_def by blast
  obtain rc' q' w' where q': "mem_run plain_env (?s 8) q = Some (rc', q', w')"
    using mem_run_ok [OF plain_env_ok(1) q(2) ok(1)] unfolding kept_def by blast
  have "mem_life plain_env null_cell [7, 8] (w @ w') q'"
    using mem_life.call [OF mem_life.call [OF mem_life.start ok(1) q(1)] ok(1) q'] ok(2) by simp
  then show ?thesis using destructors_run_exactly_once [OF _ plain_env_ok(1) null_cell_ok(2)] null_cell_ok(2) by fastforce
qed

text \<open>
  C22: Changing the encoding of a value keeps the text: a cell whose bytes are the UTF-8, UTF-16LE or
  UTF-16BE form of some characters holds, after a conversion that has memory, the form of the same
  characters in the encoding asked for, so that converting back restores the bytes. This holds for
  every text of Unicode scalar values except the noncharacters FFFE and FFFF.
\<close>

theorem encoding_change_keeps_text:
  assumes "env_ok E" "mem_ok p" "has (mem_flags p) MEM_Str" "d \<in> {1, 2, 3}" "\<forall>c \<in> set cs. utf8_char c"
    "mem_text p = text_of (utf_writer (mem_enc p)) cs"
  shows "\<exists>rc q w. sqlite3VdbeChangeEncoding E p d = Some (rc, q, w) \<and> mem_ok q \<and> ((\<forall>n. me_alloc E n \<noteq> None) \<longrightarrow> rc = 0) \<and>
    (rc = 0 \<longrightarrow> mem_enc q = d \<and> has (mem_flags q) MEM_Str \<and> mem_text q = text_of (utf_writer d) cs)"
proof -
  obtain rc q w where r: "sqlite3VdbeChangeEncoding E p d = Some (rc, q, w)" "mem_ok q"
      "rc = 0 \<longrightarrow> mem_enc q = d \<and> has (mem_flags q) MEM_Str \<and> mem_text q = text_of (utf_writer d) cs"
    using changeEncoding_text [OF assms] unfolding kept_def by blast
  then show ?thesis using codes_alloc(9) [of E p d] by (auto simp: codes_def)
qed

theorem encoding_change_keeps_text_witness:
  "\<exists>p q w. mem_ok p \<and> has (mem_flags p) MEM_Str \<and> mem_text p = [0xE2, 0x82, 0xAC] \<and>
     sqlite3VdbeChangeEncoding plain_env p 2 = Some (0, q, w) \<and> mem_text q = [0xAC, 0x20]"
proof -
  let ?p = "null_cell\<lparr>mem_z := Ext 9 [0xE2, 0x82, 0xAC], mem_n := 3, mem_flags := MEM_Str OR MEM_Static\<rparr>"
  have e: "mem_enc ?p = 1" "mem_flags ?p = MEM_Str OR MEM_Static" by (simp_all add: null_cell_def)
  have f: "string_fit [0xE2, 0x82, 0xAC] 3 1 MEM_Str" by (simp add: string_fit_def)
  have p: "mem_ok ?p" "mem_text ?p = [0xE2, 0x82, 0xAC]"
    using string_ext [OF f, of ?p 9 False] e by (simp_all add: null_cell_def)
  have t: "text_of (utf_writer 1) [0x20AC] = [0xE2, 0x82, 0xAC]" "text_of (utf_writer 2) [0x20AC] = [0xAC, 0x20]" by code_simp+
  have "has (mem_flags ?p) MEM_Str" using e by (simp add: flag_simps)
  moreover have "utf8_char 0x20AC" by (simp add: utf8_char_def scalar_def)
  ultimately obtain q w where "sqlite3VdbeChangeEncoding plain_env ?p 2 = Some (0, q, w)" "mem_text q = [0xAC, 0x20]"
    using encoding_change_keeps_text [OF plain_env_ok(1) p(1), of 2 "[0x20AC]"] p(2) e(1) t plain_env_ok(2) by auto
  then show ?thesis using p \<open>has (mem_flags ?p) MEM_Str\<close> by blast
qed

section \<open>Records\<close>

text \<open>
  C18: Making a record of up to 32767 well-formed cells that hold values within the length limit always
  returns; it fails with SQLITE_NOMEM (7) only when an allocation fails, and with SQLITE_TOOBIG (18) only when the
  record is longer than the limit. Otherwise the cells still hold the values that were written, and reading the
  record, whatever memory follows it and wherever it lies, gives as many of these values as there are cells to fill,
  in order; a real that is not a number comes back as NULL, and an integer of a REAL column
  that needs eight bytes as the real it is converted to.
\<close>

theorem record_round_trip:
  assumes "env_ok E" "me_limit E \<le> 1000000000" "mem_ok pOut" "length (mem_zMalloc pOut) < 2 ^ 30" "length ps \<le> 32767"
    "\<forall>p \<in> set ps. mem_ok p \<and> has (mem_flags p) MEM_AffMask \<and> \<not> sqlite3VdbeMemTooBig E p"
  shows "\<exists>rc out cells w. OP_MakeRecord E dbl ff ps pOut = Some (rc, out, cells, w) \<and>
    (rc = 7 \<and> (\<exists>n. me_alloc E n = None) \<or>
     rc = 18 \<and> me_limit E < length (record_of ff (map (to_write dbl) ps)) \<or>
     rc = 0 \<and> mem_ok out \<and> map mem_sql cells = map (to_write dbl) ps \<and>
       (\<forall>enc a z aMem. \<exists>cs.
          sqlite3VdbeRecordUnpack E enc (length (mem_content out)) a (mem_content out @ z) aMem = Some cs \<and>
          map mem_sql cs = take (length aMem) (map (read_back \<circ> to_write dbl) ps)))"
proof -
  let ?vs = "map (to_write dbl) ps"
  have fits: "list_all (cell_fits ff dbl) ps" using assms(2,6) value_length by (auto simp: list_all_iff)
  have "length (types_of ff ?vs) < 2 ^ 31" using types_length [of ff ?vs] assms(5) by simp
  from makeRecord_ok [OF assms(1,3) fits this] obtain rc out cells w where
    r: "OP_MakeRecord E dbl ff ps pOut = Some (rc, out, cells, w)"
      "rc = 7 \<or> rc = 18 \<and> me_limit E < length (record_of ff ?vs) \<or>
       rc = 0 \<and> mem_ok out \<and> mem_content out = record_of ff ?vs \<and>
         length (mem_content out) \<le> max (length (mem_zMalloc pOut)) (me_limit E) \<and> map mem_sql cells = ?vs"
    by blast
  have mem: "\<exists>n. me_alloc E n = None" if "rc = 7"
  proof (rule ccontr)
    assume "\<not> (\<exists>n. me_alloc E n = None)"
    then have "me_alloc E n \<noteq> None" for n by simp
    from makeRecord_code [OF this r(1)] that show False by blast
  qed
  have read: "\<exists>cs. sqlite3VdbeRecordUnpack E enc (length (mem_content out)) a (mem_content out @ z) aMem = Some cs \<and>
      map mem_sql cs = take (length aMem) (map (read_back \<circ> to_write dbl) ps)"
    if "mem_content out = record_of ff ?vs" "length (mem_content out) \<le> max (length (mem_zMalloc pOut)) (me_limit E)" for enc a z aMem
  proof -
    have "length (record_of ff ?vs) < 2 ^ 30" using that assms(2,4) by simp
    from recordUnpack_values [OF refl this, of E enc a z aMem] show ?thesis unfolding that(1) by simp
  qed
  show ?thesis
  proof (intro exI conjI)
    show "OP_MakeRecord E dbl ff ps pOut = Some (rc, out, cells, w)" by (rule r(1))
    show "rc = 7 \<and> (\<exists>n. me_alloc E n = None) \<or> rc = 18 \<and> me_limit E < length (record_of ff ?vs) \<or>
      rc = 0 \<and> mem_ok out \<and> map mem_sql cells = ?vs \<and>
        (\<forall>enc a z aMem. \<exists>cs. sqlite3VdbeRecordUnpack E enc (length (mem_content out)) a (mem_content out @ z) aMem = Some cs \<and>
           map mem_sql cs = take (length aMem) (map (read_back \<circ> to_write dbl) ps))"
      using r(2) mem read by blast
  qed
qed

definition record_cells :: "Mem list" where
  "record_cells =
     [null_cell\<lparr>mem_u := U_i (-300), mem_flags := MEM_Int\<rparr>,
      null_cell\<lparr>mem_u := U_nZero 2, mem_flags := MEM_Blob OR MEM_Zero\<rparr>,
      null_cell\<lparr>mem_z := Ext 9 [0x68, 0x69], mem_n := 2, mem_flags := MEM_Str OR MEM_Static\<rparr>,
      null_cell]"

theorem record_round_trip_witness:
  "length record_cells \<le> 32767 \<and>
   (\<exists>out cells w cs. OP_MakeRecord plain_env (\<lambda>i. i) 4 record_cells null_cell = Some (0, out, cells, w) \<and>
      sqlite3VdbeRecordUnpack plain_env 1 (length (mem_content out)) 64 (mem_content out @ []) (replicate 4 null_cell) = Some cs \<and>
      map mem_sql cs = [V_Int (-300), V_Blob [0, 0], V_Text [0x68, 0x69], V_Null])"
proof -
  have vals: "map (to_write (\<lambda>i. i)) record_cells = [V_Int (-300), V_Blob [0, 0], V_Text [0x68, 0x69], V_Null]"
    by (simp add: record_cells_def to_write_def mem_sql_def null_cell_def flag_simps mem_i_def mem_content_def mem_text_def mem_bytes_def
        mem_nZero_def numeral_2_eq_2)
  have cells: "\<forall>p \<in> set record_cells. mem_ok p \<and> has (mem_flags p) MEM_AffMask \<and> \<not> sqlite3VdbeMemTooBig plain_env p"
    by (simp add: record_cells_def mem_ok_def flags_ok_def union_ok_def one_owner_def null_cell_def plain_env_def affmask flag_simps
        sqlite3VdbeMemTooBig_def mem_bytes_def mem_nZero_def)
  have small: "length (record_of 4 (map (to_write (\<lambda>i. i)) record_cells)) = 11"
    unfolding vals by code_simp
  have again: "map (read_back \<circ> to_write (\<lambda>i. i)) record_cells = [V_Int (-300), V_Blob [0, 0], V_Text [0x68, 0x69], V_Null]"
    using arg_cong [OF vals, of "map read_back"] by simp
  have len: "length record_cells = 4" by (simp add: record_cells_def)
  have e: "\<not> (\<exists>n. me_alloc plain_env n = None)" "\<not> me_limit plain_env < 11" using plain_env_ok(2,3) by simp_all
  obtain out x w where r: "OP_MakeRecord plain_env (\<lambda>i. i) 4 record_cells null_cell = Some (0, out, x, w)"
    "\<forall>enc a z aMem. \<exists>cs. sqlite3VdbeRecordUnpack plain_env enc (length (mem_content out)) a (mem_content out @ z) aMem = Some cs \<and>
       map mem_sql cs = take (length aMem) (map (read_back \<circ> to_write (\<lambda>i. i)) record_cells)"
    using record_round_trip [OF plain_env_ok(1) _ null_cell_ok(1) _ _ cells, of "\<lambda>i. i" 4] e
    unfolding small by (auto simp: plain_env_ok(3) len null_cell_def)
  show ?thesis using r(1) r(2) [rule_format, of 1 64 "[]" "replicate 4 null_cell"] unfolding again by (auto simp: len)
qed

text \<open>
  C19: Reading a record from arbitrary bytes, as a corrupt database file may hold them, never reads more than nine bytes
  past the end of the record and always returns; it fills no more cells than it was given, and every text or blob that
  it leaves in a cell lies entirely inside the record.
\<close>

theorem record_reader_stays_inside:
  assumes "nKey + 9 \<le> length aKey" "nKey < 2 ^ 31"
  shows "\<exists>cs. sqlite3VdbeRecordUnpack E enc nKey a aKey aMem = Some cs \<and> length cs \<le> length aMem \<and>
    (\<forall>c \<in> set cs. mem_enc c = enc \<and>
       (has (mem_flags c) (MEM_Str OR MEM_Blob) \<longrightarrow>
          (\<exists>d. d + mem_n c \<le> nKey \<and> mem_z c = Ext (a + d) (drop d aKey))))"
  using recordUnpack_safe [OF assms, of E enc a aMem] by (fastforce simp: read_safely_def list_all_iff cell_within_def)

definition corrupt_key :: "u8 list" where
  "corrupt_key = [0x03, 0x15, 0xFF, 0x61, 0x62, 0x7F, 0x7F, 0x7F, 0x7F, 0x7F, 0x7F, 0x7F, 0x7F, 0x7F]"

lemma corrupt_key_ends_in_null:
  "map_option (map mem_flags) (sqlite3VdbeRecordUnpack plain_env 1 5 64 corrupt_key [null_cell, null_cell]) = Some [MEM_Null]"
  by (simp add: corrupt_key_def sqlite3VdbeRecordUnpack_def varint32_at_def getVarint32_def at_def sqlite3VdbeSerialGet_def
      sqlite3VdbeSerialTypeLen_def sqlite3SmallTypeSizes_def sqlite3VdbeMemSetNull_def VdbeMemDynamic_def flag_simps)

theorem record_reader_stays_inside_witness:
  "5 + 9 \<le> length corrupt_key \<and>
   (\<exists>cs. sqlite3VdbeRecordUnpack plain_env 1 5 64 corrupt_key [null_cell, null_cell] = Some cs \<and> length cs \<le> 2 \<and> map mem_flags cs = [MEM_Null])"
proof -
  have k: "5 + 9 \<le> length corrupt_key" "(5 :: nat) < 2 ^ 31" by (simp_all add: corrupt_key_def)
  from record_reader_stays_inside [OF k, of plain_env 1 64 "[null_cell, null_cell]"] obtain cs where
    "sqlite3VdbeRecordUnpack plain_env 1 5 64 corrupt_key [null_cell, null_cell] = Some cs" "length cs \<le> 2" by auto
  then show ?thesis using k(1) corrupt_key_ends_in_null by simp
qed

end
