(* ===== verification/Spec2Isabelle.thy ===== *)
theory Spec2Isabelle
  imports Server_Properties Sqlite_Properties Sqlite_Engine_Properties
begin

text \<open>
  Verification of sqlite-server, a TCP server that exposes SQLite databases.

  \<^bold>\<open>The program.\<close> \<^verbatim>\<open>main.cpp\<close> reads the configuration, opens the listening socket and starts the worker
  threads. \<^verbatim>\<open>ListenSocket.h\<close> accepts connections and drops those whose address is not on the whitelist.
  \<^verbatim>\<open>SQLiteSocket.cpp\<close> reads framed requests, hands them to a \<^verbatim>\<open>RequestHandler\<close> and queues the framed responses
  of \<^verbatim>\<open>Response.cpp\<close>. \<^verbatim>\<open>RequestHandler.cpp\<close> authenticates, checks database names, and runs SQL through the classes
  in \<^verbatim>\<open>sqlite3_wrapper/\<close> on the SQLite library bundled as \<^verbatim>\<open>sqlite3/sqlite3.c\<close>.

  \<^bold>\<open>The server's theories.\<close>
  \<^item> \<^verbatim>\<open>Prelude\<close>: words, byte strings, results of code that throws, sorted maps, shared lemmas.
  \<^item> \<^verbatim>\<open>Json\<close>, \<^verbatim>\<open>Platform\<close>: JSON values and exceptions; the libraries outside the repository (nlohmann/json,
    Boost, the file system) as fields of a record, with named hypotheses on them.
  \<^item> \<^verbatim>\<open>Response\<close>: \<^verbatim>\<open>Response.cpp\<close>; the locale \<open>framing\<close> gives the decoding of a stream of responses.
  \<^item> \<^verbatim>\<open>Server_Config\<close>: \<^verbatim>\<open>Config.cpp\<close>; configuration file, command line, whitelist.
  \<^item> \<^verbatim>\<open>Sql_Wrapper\<close>: \<^verbatim>\<open>sqlite3_wrapper/\<close>; database and statement objects over the engine's interface \<open>sqlite_api\<close>.
  \<^item> \<^verbatim>\<open>Request_Handler\<close>: \<^verbatim>\<open>RequestHandler.cpp\<close>; each command, name check, rows, and the whole \<open>handle_request\<close>.
  \<^item> \<^verbatim>\<open>Sqlite_Socket\<close>: \<^verbatim>\<open>SQLiteSocket.cpp\<close> as a state machine of completion handlers, with reads and writes that
    succeed or fail; the locale \<open>request_handler\<close> is the interface \<^verbatim>\<open>IRequestHandler\<close> with an invariant the
    handler keeps. \<open>feed\<close> runs a connection under a sequence of requests and write completions.
  \<^item> \<^verbatim>\<open>Server\<close>: \<^verbatim>\<open>ListenSocket.h\<close>, \<^verbatim>\<open>Network.h\<close>, \<^verbatim>\<open>main.cpp\<close>; the step relation of the whole server: accepts, steps of
    the connections, and the destruction of a connection that has neither a read nor a write pending,
    which closes the databases of its handler. An exception that leaves a completion handler ends
    the process: it has no step.
  \<^item> \<^verbatim>\<open>Demo_Platform\<close>, \<^verbatim>\<open>Demo_Runs\<close>: a concrete platform and engine on which the hypotheses hold together, and
    concrete runs of the server.
  \<^item> \<^verbatim>\<open>Server_Properties\<close>: access control, confinement of database names to their folder, exact reporting of
    query results and errors, refinement of a sequential service by the asynchronous connection,
    invariants of all reachable states, and the error paths that leave a handler.

  \<^bold>\<open>The theories of the bundled SQLite\<close> model the parts of \<^verbatim>\<open>sqlite3/sqlite3.c\<close> that stand on their own, in
  the ASCII configuration that the build uses.
  \<^item> \<^verbatim>\<open>Sqlite_Busy\<close> (\<^verbatim>\<open>main.c\<close>): the busy handler that the server's timeout setting installs. The loop has
    one round per millisecond of timeout plus one as its bound, which is shown to be enough. Its
    arithmetic is that of a 32-bit \<^verbatim>\<open>int\<close>, and an overflow is a result of its own.
  \<^item> \<^verbatim>\<open>Sqlite_Chars\<close> (\<^verbatim>\<open>global.c\<close>, \<^verbatim>\<open>util.c\<close>): character tables, comparison without case, quote removal.
  \<^item> \<^verbatim>\<open>Sqlite_Varint\<close>, \<^verbatim>\<open>Sqlite_Numbers\<close> (\<^verbatim>\<open>util.c\<close>): variable-length integers against their bit-level definition;
    checked 64-bit arithmetic, in the portable form and in the one GCC compiles; integers to and from text.
  \<^item> \<^verbatim>\<open>Sqlite_Hash\<close> (\<^verbatim>\<open>hash.c\<close>): the hash table with its buckets inside one linked list, as an implementation of
    the locale \<open>name_table\<close>, a map with names that ignore case.
  \<^item> \<^verbatim>\<open>Sqlite_Keywords\<close> (\<^verbatim>\<open>keywordhash.h\<close>): the keyword search against the list of keywords. The chains of the
    hash table have at most four members; the bound of the loop is the number of keywords plus one.
  \<^item> \<^verbatim>\<open>Sqlite_Tokenize\<close> (\<^verbatim>\<open>tokenize.c\<close>): \<open>sqlite3GetToken\<close> branch by branch; it implements the locale \<open>token_source\<close>, from
    which the partition of a text into its tokens follows. The bytes behind the terminator never matter.
  \<^item> \<^verbatim>\<open>Sqlite_Run_Parser\<close> (\<^verbatim>\<open>tokenize.c\<close>): the loop of \<open>sqlite3RunParser\<close> over an arbitrary parser, refined to a
    function of the token list. It is a partial function; that it returns is a theorem.
  \<^item> \<^verbatim>\<open>Sqlite_Complete\<close> (\<^verbatim>\<open>complete.c\<close>): the state machine of \<open>sqlite3_complete\<close> against a description of finished
    statements.
  \<^item> \<^verbatim>\<open>Sqlite_Properties\<close>: the properties of these parts.
  \<^item> \<^verbatim>\<open>Sqlite_Bitvec\<close> (\<^verbatim>\<open>bitvec.c\<close>): sets of page numbers as bitmap, hash table or tree of parts, as an implementation
    of the locale \<open>page_set\<close>. The recursion has at most nine levels, because each divides the range.
  \<^item> \<^verbatim>\<open>Sqlite_Rowset\<close> (\<^verbatim>\<open>rowset.c\<close>): collections of row numbers with their merge sort and their forest of search
    trees, as an implementation of the locale \<open>batched_set\<close>. The 40 runs of the sort are enough for fewer than
    \<open>2 ^ 40\<close> rows; the height of a tree is the least that holds its rows.
  \<^item> \<^verbatim>\<open>Sqlite_Random\<close> (\<^verbatim>\<open>random.c\<close>): the ChaCha20 generator and the delivery of its stream.
  \<^item> \<^verbatim>\<open>Sqlite_Utf\<close> (\<^verbatim>\<open>utf.c\<close>): reading, writing and counting characters; the locale \<open>text_encoding\<close>, interpreted for UTF-8 and
    both byte orders of UTF-16, gives the conversion of texts.
  \<^item> \<^verbatim>\<open>Sqlite_Like\<close> (\<^verbatim>\<open>func.c\<close>): the comparison behind \<^verbatim>\<open>LIKE\<close> and \<^verbatim>\<open>GLOB\<close> against a description of patterns by
    tokens, and the SQL function around it, which in this build never matches a blob. The bound of its
    recursion is the length of the pattern, which is shown to be enough.
  \<^item> \<^verbatim>\<open>Sqlite_Mem\<close> (\<^verbatim>\<open>vdbemem.c\<close>, \<^verbatim>\<open>utf.c\<close>): value cells with their flags, buffers and owners. Every operation keeps
    the invariant \<open>mem_ok\<close>, which includes what the debug build asserts; \<open>mem_life\<close> is the relation of all
    sequences of operations, over which each destructor runs exactly once.
  \<^item> \<^verbatim>\<open>Sqlite_Record\<close> (\<^verbatim>\<open>OP_MakeRecord\<close> of \<^verbatim>\<open>vdbe.c\<close>, \<^verbatim>\<open>vdbeaux.c\<close>): the format of rows and index entries. The writer produces the
    image \<open>record_of\<close> of the values of its cells, the reader recovers them and is safe on arbitrary bytes.
  \<^item> \<^verbatim>\<open>Sqlite_Engine_Properties\<close>: the properties of these parts.

  \<^bold>\<open>Not modelled.\<close> The logger and the test client of the server, which only write text. Of SQLite: the
  generated parser and the code generator, the instructions of the virtual machine other than \<^verbatim>\<open>OP_MakeRecord\<close>, the B-tree, the pager, the operating
  system layer, floating-point numbers, the SQL functions other than \<^verbatim>\<open>LIKE\<close> and \<^verbatim>\<open>GLOB\<close>, and the optional extensions; the server's
  properties take the engine as the parameter \<open>sqlite_api\<close> and hold for every engine with the stated
  behaviour. These parts work on shared mutable pages, on files and on each other, and no part of them
  can be stated without the rest. Memory allocation is a parameter where its failure changes a result
  and otherwise taken to succeed. Mutexes and the start of the library are left out: the operations
  are modelled as they run alone.
\<close>

end
